(* ===== verification/Prelude.thy ===== *)
theory Prelude
  imports Main "HOL-Library.Word" "HOL-Library.Monad_Syntax" "HOL-Library.Sublist"
begin

text \<open>
  The prelude of the rarm-db development: the Rust notions the components share.

  \<^item> Machine integers are words of their width; \<open>usize\<close> is \<open>nat\<close> (a 64-bit target, on which the
    lengths and offsets of this code stay far below \<open>2 ^ 64\<close>; the one place where a value is
    cast to \<open>usize\<close> from a signed integer writes the wrap-around out).
  \<^item> A call that may panic has type \<open>'a option\<close>: \<open>None\<close> is the panic. Arithmetic that overflows
    panics (the overflow checks of the default development profile); the theorems about
    well-formed states show that no such panic happens, so they hold of every profile.
  \<^item> \<open>Result<T, E>\<close> is the sum \<open>'e + 'a\<close>, with \<open>Err\<close> and \<open>Ok\<close> for its injections.
  \<^item> Slices, \<open>copy_from_slice\<close>, \<open>copy_within\<close> and \<open>fill\<close> on byte buffers, with their range
    checks, and the little-endian integer codecs.
  \<^item> A \<open>String\<close> is its UTF-8 byte sequence, a \<open>char list\<close>.
\<close>

unbundle bit_operations_syntax

type_synonym u8 = "8 word"
type_synonym u16 = "16 word"
type_synonym u32 = "32 word"
type_synonym u64 = "64 word"
type_synonym i32 = "32 word"
type_synonym i64 = "64 word"
type_synonym usize = nat
type_synonym bytes = "u8 list"
type_synonym ('e, 'a) rust_result = "'e + 'a"

abbreviation Err :: "'e \<Rightarrow> ('e, 'a) rust_result" where "Err \<equiv> Inl"
abbreviation Ok :: "'a \<Rightarrow> ('e, 'a) rust_result" where "Ok \<equiv> Inr"
abbreviation panic :: "'a option" where "panic \<equiv> None"

named_theorems le_simps \<open>facts about the little-endian codecs\<close>
named_theorems buf_simps \<open>reads of a byte buffer after a write\<close>

section \<open>Checked arithmetic and conversions\<close>

definition checked_sub :: "usize \<Rightarrow> usize \<Rightarrow> usize option" where
  "checked_sub a b = (if b \<le> a then Some (a - b) else panic)"

definition checked_add :: "usize \<Rightarrow> usize \<Rightarrow> usize option" where
  "checked_add a b = (if a + b < 2 ^ 64 then Some (a + b) else panic)"

definition checked_sub_u16 :: "u16 \<Rightarrow> u16 \<Rightarrow> u16 option" where
  "checked_sub_u16 a b = (if b \<le> a then Some (a - b) else panic)"

definition checked_add_u16 :: "u16 \<Rightarrow> u16 \<Rightarrow> u16 option" where
  "checked_add_u16 a b = (if unat a + unat b < 2 ^ 16 then Some (a + b) else panic)"

text \<open>The cast \<open>n as usize\<close> of an \<open>i32\<close>: sign extension to 64 bits, read as unsigned.\<close>

definition i32_as_usize :: "i32 \<Rightarrow> usize" where
  "i32_as_usize n = nat (sint n mod 2 ^ 64)"

text \<open>\<open>Result::unwrap\<close> and \<open>Result::expect\<close>: the error becomes a panic.\<close>

definition unwrap :: "('e, 'a) rust_result \<Rightarrow> 'a option" where
  "unwrap r = (case r of Ok a \<Rightarrow> Some a | Err _ \<Rightarrow> panic)"

lemma unwrap_simps [simp]: "unwrap (Ok a) = Some a" "unwrap (Err e) = None"
  by (simp_all add: unwrap_def)

lemma checked_sub_Some [simp]: "checked_sub a b = Some c \<longleftrightarrow> b \<le> a \<and> c = a - b"
  by (auto simp: checked_sub_def)

lemma checked_sub_in [simp]: "b \<le> a \<Longrightarrow> checked_sub a b = Some (a - b)"
  by (simp add: checked_sub_def)

lemma checked_add_Some [simp]: "checked_add a b = Some c \<longleftrightarrow> a + b < 2 ^ 64 \<and> c = a + b"
  by (auto simp: checked_add_def)

lemma checked_sub_u16_unat:
  "unat b \<le> unat a \<Longrightarrow> checked_sub_u16 a b = Some (a - b) \<and> unat (a - b) = unat a - unat b"
  by (simp add: checked_sub_u16_def word_le_nat_alt unat_sub)

lemma checked_add_u16_unat:
  "unat a + unat b < 2 ^ 16 \<Longrightarrow>
   checked_add_u16 a b = Some (a + b) \<and> unat (a + b) = unat a + unat b"
  by (simp add: checked_add_u16_def unat_word_ariths)

lemma sint_of_nat_i32: "n < 2 ^ 31 \<Longrightarrow> sint (of_nat n :: i32) = int n"
  by (simp add: sint_uint uint_nat unat_of_nat take_bit_nat_eq_self signed_take_bit_int_eq_self)

lemma i32_as_usize_nonneg: "n < 2 ^ 31 \<Longrightarrow> i32_as_usize (of_nat n) = n"
  by (simp add: i32_as_usize_def sint_of_nat_i32)

lemma unat_u8_less: "unat (w :: u8) < 256"
  using unsigned_less [where w = w] by simp

lemma unat_u16_less: "unat (w :: u16) < 65536"
  using unsigned_less [where w = w] by simp

lemma unat_u32_less: "unat (w :: u32) < 2 ^ 32"
  using unsigned_less [where w = w] by simp

lemma unat_u64_less: "unat (w :: u64) < 2 ^ 64"
  using unsigned_less [where w = w] by simp

lemma unat_of_nat_u16: "n < 2 ^ 16 \<Longrightarrow> unat (of_nat n :: u16) = n"
  by (simp add: unat_of_nat take_bit_nat_eq_self)

section \<open>Slices and byte buffers\<close>

text \<open>Checked indexing and slicing: \<open>xs[i]\<close> and \<open>&xs[a..b]\<close> panic out of range.\<close>

definition index :: "'a list \<Rightarrow> usize \<Rightarrow> 'a option" where
  "index xs i = (if i < length xs then Some (xs ! i) else panic)"

definition slice :: "'a list \<Rightarrow> usize \<Rightarrow> usize \<Rightarrow> 'a list option" where
  "slice xs a b = (if a \<le> b \<and> b \<le> length xs then Some (take (b - a) (drop a xs)) else panic)"

text \<open>\<open>xs.split_at(n)\<close>.\<close>

definition split_at :: "'a list \<Rightarrow> usize \<Rightarrow> ('a list \<times> 'a list) option" where
  "split_at xs n = (if n \<le> length xs then Some (take n xs, drop n xs) else panic)"

text \<open>\<open>v.insert(i, x)\<close> of a vector panics when \<open>i\<close> exceeds the length.\<close>

definition vec_insert :: "'a list \<Rightarrow> usize \<Rightarrow> 'a \<Rightarrow> 'a list option" where
  "vec_insert xs i x = (if i \<le> length xs then Some (take i xs @ x # drop i xs) else panic)"

text \<open>\<open>xs[i] = v\<close>.\<close>

definition set_index :: "'a list \<Rightarrow> usize \<Rightarrow> 'a \<Rightarrow> 'a list option" where
  "set_index xs i v = (if i < length xs then Some (xs[i := v]) else panic)"

text \<open>
  The unchecked read and write of a byte range; the checked operations of the code are defined
  from them: \<open>xs[a..b].copy_from_slice(src)\<close>, \<open>xs.copy_within(s..e, d)\<close>, \<open>xs[a..b].fill(v)\<close>.
\<close>

definition range_of :: "'a list \<Rightarrow> nat \<Rightarrow> nat \<Rightarrow> 'a list" where
  "range_of xs a n = take n (drop a xs)"

definition put :: "'a list \<Rightarrow> nat \<Rightarrow> 'a list \<Rightarrow> 'a list" where
  "put xs a src = take a xs @ src @ drop (a + length src) xs"

definition copy_from_slice :: "'a list \<Rightarrow> usize \<Rightarrow> usize \<Rightarrow> 'a list \<Rightarrow> 'a list option" where
  "copy_from_slice xs a b src =
     (if a \<le> b \<and> b \<le> length xs \<and> length src = b - a then Some (put xs a src) else panic)"

definition copy_within :: "'a list \<Rightarrow> usize \<Rightarrow> usize \<Rightarrow> usize \<Rightarrow> 'a list option" where
  "copy_within xs s e d =
     (if s \<le> e \<and> e \<le> length xs \<and> d \<le> length xs - (e - s)
      then Some (put xs d (range_of xs s (e - s))) else panic)"

definition fill_range :: "'a list \<Rightarrow> usize \<Rightarrow> usize \<Rightarrow> 'a \<Rightarrow> 'a list option" where
  "fill_range xs a b v =
     (if a \<le> b \<and> b \<le> length xs then Some (put xs a (replicate (b - a) v)) else panic)"

lemma slice_Some [simp]:
  "slice xs a b = Some ys \<longleftrightarrow> a \<le> b \<and> b \<le> length xs \<and> ys = range_of xs a (b - a)"
  by (auto simp: slice_def range_of_def)

lemma slice_add: "a + n \<le> length xs \<Longrightarrow> slice xs a (a + n) = Some (range_of xs a n)"
  by simp

lemma index_Some [simp]: "index xs i = Some v \<longleftrightarrow> i < length xs \<and> v = xs ! i"
  by (auto simp: index_def)

lemma index_in [simp]: "i < length xs \<Longrightarrow> index xs i = Some (xs ! i)"
  by (simp add: index_def)

lemma index_out [simp]: "length xs \<le> i \<Longrightarrow> index xs i = None"
  by (simp add: index_def)

lemma slice_in [simp]:
  "a \<le> b \<Longrightarrow> b \<le> length xs \<Longrightarrow> slice xs a b = Some (range_of xs a (b - a))"
  by (simp add: slice_def range_of_def)

lemma copy_from_slice_fits:
  "a + length src \<le> length xs \<Longrightarrow> copy_from_slice xs a (a + length src) src = Some (put xs a src)"
  by (simp add: copy_from_slice_def)

lemma copy_from_slice_ok:
  "a + n \<le> length xs \<Longrightarrow> length src = n \<Longrightarrow> copy_from_slice xs a (a + n) src = Some (put xs a src)"
  by (simp add: copy_from_slice_def)

lemma copy_from_slice_SomeD:
  "copy_from_slice xs a b src = Some ys \<Longrightarrow>
   ys = put xs a src \<and> a + length src \<le> length xs \<and> b = a + length src"
  by (auto simp: copy_from_slice_def split: if_splits)

lemma length_put [simp]: "a + length src \<le> length xs \<Longrightarrow> length (put xs a src) = length xs"
  by (simp add: put_def)

lemma length_range_of [simp]: "a + n \<le> length xs \<Longrightarrow> length (range_of xs a n) = n"
  by (simp add: range_of_def)

lemma put_Nil [simp]: "put xs a [] = xs"
  by (simp add: put_def)

lemma nth_put:
  assumes "a + length src \<le> length xs" and "i < length xs"
  shows "put xs a src ! i = (if a \<le> i \<and> i < a + length src then src ! (i - a) else xs ! i)"
  using assms by (auto simp: put_def nth_append)

lemma nth_range_of: "i < n \<Longrightarrow> a + n \<le> length xs \<Longrightarrow> range_of xs a n ! i = xs ! (a + i)"
  by (simp add: range_of_def)

lemma range_put_same [buf_simps]:
  "a + length src \<le> length xs \<Longrightarrow> n = length src \<Longrightarrow> range_of (put xs a src) a n = src"
  by (simp add: put_def range_of_def)

lemma range_put_disjoint [buf_simps]:
  assumes "b + n \<le> a \<or> a + length src \<le> b" and "a + length src \<le> length xs"
    and "b + n \<le> length xs"
  shows "range_of (put xs a src) b n = range_of xs b n"
  using assms by (intro nth_equalityI) (auto simp: nth_range_of nth_put)

lemma range_put_inside:
  assumes "a \<le> b" and "b + n \<le> a + length src" and "a + length src \<le> length xs"
  shows "range_of (put xs a src) b n = range_of src (b - a) n"
  using assms by (intro nth_equalityI) (auto simp: nth_range_of nth_put)

lemma range_of_range:
  "i + n \<le> m \<Longrightarrow> range_of (range_of xs a m) i n = range_of xs (a + i) n"
  by (simp add: range_of_def drop_take min_def add.commute)

lemma put_put_adjacent:
  "a + length u + length v \<le> length xs \<Longrightarrow>
   put (put xs a u) (a + length u) v = put xs a (u @ v)"
  by (simp add: put_def ac_simps)

lemma list_update_put: "i < length xs \<Longrightarrow> xs[i := v] = put xs i [v]"
  by (simp add: put_def upd_conv_take_nth_drop)

section \<open>Little-endian integers\<close>

primrec to_le :: "nat \<Rightarrow> nat \<Rightarrow> bytes" where
  "to_le 0 v = []"
| "to_le (Suc n) v = of_nat (v mod 256) # to_le n (v div 256)"

primrec from_le :: "bytes \<Rightarrow> nat" where
  "from_le [] = 0"
| "from_le (b # bs) = unat b + 256 * from_le bs"

definition u16_to_le_bytes :: "u16 \<Rightarrow> bytes" where "u16_to_le_bytes v = to_le 2 (unat v)"
definition u32_to_le_bytes :: "u32 \<Rightarrow> bytes" where "u32_to_le_bytes v = to_le 4 (unat v)"
definition u64_to_le_bytes :: "u64 \<Rightarrow> bytes" where "u64_to_le_bytes v = to_le 8 (unat v)"
definition u16_from_le_bytes :: "bytes \<Rightarrow> u16" where "u16_from_le_bytes bs = of_nat (from_le bs)"
definition u32_from_le_bytes :: "bytes \<Rightarrow> u32" where "u32_from_le_bytes bs = of_nat (from_le bs)"
definition u64_from_le_bytes :: "bytes \<Rightarrow> u64" where "u64_from_le_bytes bs = of_nat (from_le bs)"

lemma length_to_le [simp, le_simps]: "length (to_le n v) = n"
  by (induction n arbitrary: v) auto

lemma from_le_to_le [le_simps]: "from_le (to_le n v) = v mod 256 ^ n"
proof (induction n arbitrary: v)
  case 0
  then show ?case by simp
next
  case (Suc n)
  have "unat (of_nat (v mod 256) :: u8) = v mod 256"
    by (simp add: unat_of_nat take_bit_nat_eq_self)
  with Suc show ?case
    by (simp add: mod_mult2_eq)
qed

lemma from_le_less [le_simps]: "from_le bs < 256 ^ length bs"
proof (induction bs)
  case Nil
  then show ?case by simp
next
  case (Cons b bs)
  have "unat b < 256" using unat_u8_less [of b] by simp
  with Cons show ?case by simp
qed

lemma to_le_from_le [le_simps]: "to_le (length bs) (from_le bs) = bs"
proof (induction bs)
  case Nil
  then show ?case by simp
next
  case (Cons b bs)
  have "unat b < 256" using unat_u8_less [of b] by simp
  with Cons show ?case by simp
qed

lemma length_le_bytes [simp]:
  "length (u16_to_le_bytes a) = 2" "length (u32_to_le_bytes b) = 4" "length (u64_to_le_bytes c) = 8"
  by (simp_all add: u16_to_le_bytes_def u32_to_le_bytes_def u64_to_le_bytes_def)

lemma u16_le_roundtrip [simp]: "u16_from_le_bytes (u16_to_le_bytes v) = v"
  using unat_u16_less [of v] by (simp add: u16_from_le_bytes_def u16_to_le_bytes_def from_le_to_le)

lemma u32_le_roundtrip [simp]: "u32_from_le_bytes (u32_to_le_bytes v) = v"
  using unat_u32_less [of v] by (simp add: u32_from_le_bytes_def u32_to_le_bytes_def from_le_to_le)

lemma u64_le_roundtrip [simp]: "u64_from_le_bytes (u64_to_le_bytes v) = v"
  using unat_u64_less [of v] by (simp add: u64_from_le_bytes_def u64_to_le_bytes_def from_le_to_le)

lemma unat_u16_from_le: "length bs = 2 \<Longrightarrow> unat (u16_from_le_bytes bs) = from_le bs"
  using from_le_less [of bs] by (simp add: u16_from_le_bytes_def unat_of_nat_u16)

end
