(* ===== verification/Schema.thy ===== *)
theory Schema
  imports Rust_Str
begin

text \<open>
  The crate \<open>schema_def\<close>: primitive data types with their textual form, column definitions,
  constraints and table definitions (\<open>crates/schema_def/src/*.rs\<close>).
\<close>

section \<open>Errors\<close>

datatype schema_error =
    ArgumentMismatch (am_type_name: string) (am_expected: string) (am_found: nat)
  | EmptyDefaultValue
  | EmptyInput
  | InvalidColumnName
  | InvalidForeignKey string
  | InvalidFormat string
  | InvalidKeyName
  | InvalidNumber string
  | InvalidTableName string
  | InvalidScale (sc_precision: u8) (sc_scale: u8)
  | UnknownType string

section \<open>Primitive data types\<close>

datatype primitive_data_type =
    T_Unknown
  | T_Int
  | T_BigInt
  | T_Varchar u16
  | T_Boolean
  | T_Decimal u8 u8
  | T_DateTime
  | T_Float
  | T_Blob u32

definition decimal :: "u8 \<Rightarrow> u8 \<Rightarrow> (schema_error, primitive_data_type) rust_result" where
  "decimal precision scale =
     (if scale > precision then Err (InvalidScale precision scale)
      else Ok (T_Decimal precision scale))"

fun is_fixed_size :: "primitive_data_type \<Rightarrow> bool" where
  "is_fixed_size (T_Blob _) = False"
| "is_fixed_size (T_Varchar _) = False"
| "is_fixed_size T_Unknown = False"
| "is_fixed_size _ = True"

fun get_fixed_size :: "primitive_data_type \<Rightarrow> usize option" where
  "get_fixed_size T_Int = Some 4"
| "get_fixed_size T_BigInt = Some 8"
| "get_fixed_size T_Boolean = Some 1"
| "get_fixed_size (T_Decimal _ _) = Some 16"
| "get_fixed_size T_Float = Some 8"
| "get_fixed_size T_DateTime = Some 8"
| "get_fixed_size _ = None"

text \<open>\<open>impl fmt::Display for PrimitiveDataType\<close>.\<close>

fun type_to_string :: "primitive_data_type \<Rightarrow> string" where
  "type_to_string T_Unknown = ''UNKNOWN''"
| "type_to_string T_Int = ''INT''"
| "type_to_string T_BigInt = ''BIGINT''"
| "type_to_string (T_Varchar len) = ''VARCHAR('' @ show_nat (unat len) @ '')''"
| "type_to_string T_Boolean = ''BOOLEAN''"
| "type_to_string (T_Decimal p s) =
     ''DECIMAL('' @ show_nat (unat p) @ '', '' @ show_nat (unat s) @ '')''"
| "type_to_string T_DateTime = ''DATETIME''"
| "type_to_string T_Float = ''FLOAT''"
| "type_to_string (T_Blob len) = ''BLOB('' @ show_nat (unat len) @ '')''"

text \<open>
  \<open>impl FromStr for PrimitiveDataType\<close>. The splitting into a name and the text between the
  parentheses comes first; the two slices of the source are checked slices.
\<close>

definition split_name_args ::
  "string \<Rightarrow> string \<Rightarrow> (schema_error, string \<times> string option) rust_result option" where
  "split_name_args input normalized =
     (case str_find CHR ''('' normalized of
        Some open_idx \<Rightarrow>
          if \<not> ends_with normalized CHR '')'' then
            Some (Err (InvalidFormat (''Missing closing parenthesis in '' @ [CHR 0x27] @ input @ [CHR 0x27])))
          else do {
            name \<leftarrow> slice normalized 0 open_idx;
            last_idx \<leftarrow> checked_sub (length normalized) 1;
            args \<leftarrow> slice normalized (open_idx + 1) last_idx;
            Some (Ok (trim name, Some args))
          }
      | None \<Rightarrow> Some (Ok (normalized, None)))"

definition parse_args :: "string option \<Rightarrow> string list" where
  "parse_args args_str =
     (case args_str of
        Some s \<Rightarrow> if trim s \<noteq> [] then map trim (split_char CHR '','' s) else []
      | None \<Rightarrow> [])"

text \<open>The branch of a type without arguments.\<close>

definition no_args ::
  "string \<Rightarrow> string list \<Rightarrow> primitive_data_type \<Rightarrow> (schema_error, primitive_data_type) rust_result"
where
  "no_args type_name args t =
     (if args \<noteq> [] then Err (ArgumentMismatch type_name ''0'' (length args)) else Ok t)"

text \<open>The match on the name; the arguments are read with checked indices, of which \<open>None\<close> is the panic.\<close>

definition type_of_name ::
  "string \<Rightarrow> string list \<Rightarrow> (schema_error, primitive_data_type) rust_result option" where
  "type_of_name type_name args =
     (if type_name = ''INT'' \<or> type_name = ''INTEGER'' then Some (no_args ''INT'' args T_Int)
      else if type_name = ''BIGINT'' then Some (no_args ''BIGINT'' args T_BigInt)
      else if type_name = ''VARCHAR'' then
        (if length args \<noteq> 1 then Some (Err (ArgumentMismatch ''VARCHAR'' ''1'' (length args)))
         else do {
           arg \<leftarrow> index args 0;
           (case parse_unsigned 65535 arg of
              None \<Rightarrow> Some (Err (InvalidNumber arg))
            | Some len \<Rightarrow> Some (Ok (T_Varchar (of_nat len))))
         })
      else if type_name = ''BOOLEAN'' \<or> type_name = ''BOOL'' then Some (no_args ''BOOLEAN'' args T_Boolean)
      else if type_name = ''DECIMAL'' then
        (if args = [] then Some (Ok (T_Decimal 18 0))
         else if length args = 2 then do {
           arg \<leftarrow> index args 0;
           (case parse_unsigned 255 arg of
              None \<Rightarrow> Some (Err (InvalidNumber arg))
            | Some p \<Rightarrow> do {
                arg \<leftarrow> index args 1;
                (case parse_unsigned 255 arg of
                   None \<Rightarrow> Some (Err (InvalidNumber arg))
                 | Some s \<Rightarrow> Some (decimal (of_nat p) (of_nat s)))
              })
         }
         else Some (Err (ArgumentMismatch ''DECIMAL'' ''0 or 2'' (length args))))
      else if type_name = ''DATETIME'' then Some (no_args ''DATETIME'' args T_DateTime)
      else if type_name = ''FLOAT'' \<or> type_name = ''DOUBLE'' then Some (no_args ''FLOAT'' args T_Float)
      else if type_name = ''BLOB'' then
        (if length args \<noteq> 1 then Some (Err (ArgumentMismatch ''BLOB'' ''1'' (length args)))
         else do {
           arg \<leftarrow> index args 0;
           (case parse_unsigned 4294967295 arg of
              None \<Rightarrow> Some (Err (InvalidNumber arg))
            | Some len \<Rightarrow> Some (Ok (T_Blob (of_nat len))))
         })
      else Some (Err (UnknownType type_name)))"

definition from_str :: "string \<Rightarrow> (schema_error, primitive_data_type) rust_result option" where
  "from_str s =
     (let input = trim s in
      if input = [] then Some (Err EmptyInput)
      else do {
        r \<leftarrow> split_name_args input (to_ascii_uppercase input);
        (case r of
           Err e \<Rightarrow> Some (Err e)
         | Ok (type_name, args_str) \<Rightarrow> type_of_name type_name (parse_args args_str))
      })"

section \<open>Column definitions\<close>

record column_definition =
  col_name :: string
  col_data_type :: primitive_data_type
  col_is_nullable :: bool
  col_default_value :: "string option"

definition column_definition_new ::
  "string \<Rightarrow> primitive_data_type \<Rightarrow> bool \<Rightarrow> string option \<Rightarrow> (schema_error, column_definition) rust_result"
where
  "column_definition_new n t nullable dflt =
     (if blank n then Err InvalidColumnName
      else if (case dflt of Some v \<Rightarrow> blank v | None \<Rightarrow> False) then Err EmptyDefaultValue
      else Ok \<lparr>col_name = n, col_data_type = t, col_is_nullable = nullable,
               col_default_value = dflt\<rparr>)"

definition is_fixed_type :: "column_definition \<Rightarrow> bool" where
  "is_fixed_type c =
     (case col_data_type c of T_Blob _ \<Rightarrow> False | T_Varchar _ \<Rightarrow> False | _ \<Rightarrow> True)"

section \<open>Constraints\<close>

datatype referential_action = NoAction | Cascade | SetNull | SetDefault

datatype constraint =
    ForeignKey (fk_name: string) (fk_on_update: referential_action)
      (fk_on_delete: referential_action) (fk_referencing: "string list")
      (fk_referenced_table: string) (fk_referenced: "string list")
  | PrimaryKey (pk_name: string) (pk_columns: "string list")
  | UniqueKey (uk_name: string) (uk_columns: "string list")

fun col_names :: "constraint \<Rightarrow> string list option" where
  "col_names (PrimaryKey _ cols) = Some cols"
| "col_names (UniqueKey _ cols) = Some cols"
| "col_names _ = None"

fun validate_each :: "string list \<Rightarrow> (schema_error, unit) rust_result" where
  "validate_each [] = Ok ()"
| "validate_each (c # cs) = (if blank c then Err InvalidColumnName else validate_each cs)"

definition validate_columns :: "string list \<Rightarrow> (schema_error, unit) rust_result" where
  "validate_columns cols = (if cols = [] then Err InvalidColumnName else validate_each cols)"

definition validate_key :: "string \<Rightarrow> string list \<Rightarrow> (schema_error, unit) rust_result" where
  "validate_key n cols = (if blank n then Err InvalidKeyName else validate_columns cols)"

definition primary_key :: "string \<Rightarrow> string list \<Rightarrow> (schema_error, constraint) rust_result" where
  "primary_key n cols =
     (case validate_key n cols of Err e \<Rightarrow> Err e | Ok _ \<Rightarrow> Ok (PrimaryKey n cols))"

definition unique_key :: "string \<Rightarrow> string list \<Rightarrow> (schema_error, constraint) rust_result" where
  "unique_key n cols =
     (case validate_key n cols of Err e \<Rightarrow> Err e | Ok _ \<Rightarrow> Ok (UniqueKey n cols))"

definition foreign_key ::
  "string \<Rightarrow> string list \<Rightarrow> string \<Rightarrow> string list \<Rightarrow> referential_action \<Rightarrow> referential_action \<Rightarrow>
   (schema_error, constraint) rust_result" where
  "foreign_key n referencing referenced_table referenced on_update on_delete =
     (if blank n then Err (InvalidForeignKey ''Foreign key name cannot be empty!'')
      else if blank referenced_table then
        Err (InvalidForeignKey ''Foreign key referenced table name cannot be empty!'')
      else if referenced = [] then
        Err (InvalidForeignKey ''Foreign key referenced column name list cannot be empty!'')
      else if referencing = [] then
        Err (InvalidForeignKey ''Foreign key referencing column name list cannot be empty!'')
      else (case validate_columns referenced of
        Err e \<Rightarrow> Err e
      | Ok _ \<Rightarrow> (case validate_columns referencing of
          Err e \<Rightarrow> Err e
        | Ok _ \<Rightarrow>
            if length referenced \<noteq> length referencing then
              Err (InvalidForeignKey
                ''Foreign key referenced column names count must match referencing column names count!'')
            else Ok (ForeignKey n on_update on_delete referencing referenced_table referenced))))"

fun constraint_name :: "constraint \<Rightarrow> string" where
  "constraint_name (PrimaryKey n _) = n"
| "constraint_name (UniqueKey n _) = n"
| "constraint_name (ForeignKey n _ _ _ _ _) = n"

section \<open>Table definitions\<close>

record table_definition =
  td_table_id :: u32
  td_name :: string
  td_columns :: "column_definition list"
  td_constraints :: "constraint list"

definition table_definition_new :: "string \<Rightarrow> (schema_error, table_definition) rust_result" where
  "table_definition_new n =
     (if blank n then Err (InvalidTableName ''Table name cannot be empty or whitespace!'')
      else Ok \<lparr>td_table_id = 0, td_name = n, td_columns = [], td_constraints = []\<rparr>)"

definition add_column :: "table_definition \<Rightarrow> column_definition \<Rightarrow> table_definition" where
  "add_column t c = t\<lparr>td_columns := td_columns t @ [c]\<rparr>"

definition add_constraint :: "table_definition \<Rightarrow> constraint \<Rightarrow> table_definition" where
  "add_constraint t c = t\<lparr>td_constraints := td_constraints t @ [c]\<rparr>"

definition get_column :: "table_definition \<Rightarrow> string \<Rightarrow> column_definition option" where
  "get_column t n = find (\<lambda>c. col_name c = n) (td_columns t)"

definition get_constraint :: "table_definition \<Rightarrow> string \<Rightarrow> constraint option" where
  "get_constraint t n = find (\<lambda>c. constraint_name c = n) (td_constraints t)"

definition get_primary_key_constraint :: "table_definition \<Rightarrow> constraint option" where
  "get_primary_key_constraint t = find is_PrimaryKey (td_constraints t)"

definition get_foreign_keys :: "table_definition \<Rightarrow> constraint list" where
  "get_foreign_keys t = filter is_ForeignKey (td_constraints t)"

definition get_unique_keys :: "table_definition \<Rightarrow> constraint list" where
  "get_unique_keys t = filter is_UniqueKey (td_constraints t)"

text \<open>The outer option is the panic of \<open>expect\<close> on a primary key column that is not a column.\<close>

definition get_primary_key_columns ::
  "table_definition \<Rightarrow> column_definition list option option" where
  "get_primary_key_columns t =
     (case get_primary_key_constraint t of
        Some (PrimaryKey _ cols) \<Rightarrow>
          map_option Some (those (map (\<lambda>n. find (\<lambda>c. col_name c = n) (td_columns t)) cols))
      | _ \<Rightarrow> Some None)"

section \<open>Well-formedness\<close>

text \<open>What the smart constructors establish, as executable predicates.\<close>

fun type_ok :: "primitive_data_type \<Rightarrow> bool" where
  "type_ok (T_Decimal p s) = (s \<le> p)"
| "type_ok _ = True"

fun constraint_ok :: "constraint \<Rightarrow> bool" where
  "constraint_ok (PrimaryKey n cols) \<longleftrightarrow> \<not> blank n \<and> cols \<noteq> [] \<and> \<not> list_ex blank cols"
| "constraint_ok (UniqueKey n cols) \<longleftrightarrow> \<not> blank n \<and> cols \<noteq> [] \<and> \<not> list_ex blank cols"
| "constraint_ok (ForeignKey n _ _ referencing tab referenced) \<longleftrightarrow>
     \<not> blank n \<and> \<not> blank tab \<and> referencing \<noteq> [] \<and> \<not> list_ex blank referencing \<and>
     \<not> list_ex blank referenced \<and> length referenced = length referencing"

definition column_ok :: "column_definition \<Rightarrow> bool" where
  "column_ok c \<longleftrightarrow> \<not> blank (col_name c) \<and>
     (case col_default_value c of Some v \<Rightarrow> \<not> blank v | None \<Rightarrow> True)"

text \<open>A primary key whose columns are columns of the table, each named once.\<close>

definition primary_key_ok :: "table_definition \<Rightarrow> string list \<Rightarrow> bool" where
  "primary_key_ok t pk \<longleftrightarrow>
     (case get_primary_key_constraint t of Some (PrimaryKey _ cols) \<Rightarrow> cols = pk | _ \<Rightarrow> False) \<and>
     distinct pk \<and>
     distinct (map col_name (td_columns t)) \<and> set pk \<subseteq> col_name ` set (td_columns t)"

section \<open>Lemmas on the smart constructors\<close>

lemma decimal_Ok_iff: "decimal p s = Ok t \<longleftrightarrow> t = T_Decimal p s \<and> type_ok t"
  by (auto simp: decimal_def)

lemma validate_each_iff: "validate_each cols = Ok u \<longleftrightarrow> \<not> list_ex blank cols"
  by (induction cols) auto

lemma validate_columns_iff: "validate_columns cols = Ok u \<longleftrightarrow> cols \<noteq> [] \<and> \<not> list_ex blank cols"
  by (auto simp: validate_columns_def validate_each_iff)

lemma validate_key_iff:
  "validate_key n cols = Ok u \<longleftrightarrow> \<not> blank n \<and> cols \<noteq> [] \<and> \<not> list_ex blank cols"
  by (auto simp: validate_key_def validate_columns_iff)

lemma validate_columns_cases:
  "validate_columns cols = (if cols \<noteq> [] \<and> \<not> list_ex blank cols then Ok () else Err InvalidColumnName)"
proof -
  have "validate_each cols = (if list_ex blank cols then Err InvalidColumnName else Ok ())" for cols
    by (induction cols) auto
  then show ?thesis by (simp add: validate_columns_def)
qed

lemma primary_key_Ok_iff: "primary_key n cols = Ok c \<longleftrightarrow> c = PrimaryKey n cols \<and> constraint_ok c"
  by (auto simp: primary_key_def validate_key_iff split: sum.splits)
     (simp add: validate_key_def validate_columns_cases split: if_splits)+

lemma unique_key_Ok_iff: "unique_key n cols = Ok c \<longleftrightarrow> c = UniqueKey n cols \<and> constraint_ok c"
  by (auto simp: unique_key_def validate_key_iff split: sum.splits)
     (simp add: validate_key_def validate_columns_cases split: if_splits)+

text \<open>
  The constructor of a foreign key succeeds exactly when its names are not blank, both
  column lists are non-empty without blank names and they have the same length, and what it
  returns is the constraint with the given parts.
\<close>

lemma foreign_key_Ok_iff:
  "foreign_key n referencing tab referenced on_update on_delete = Ok c \<longleftrightarrow>
   c = ForeignKey n on_update on_delete referencing tab referenced \<and> constraint_ok c"
  by (auto simp: foreign_key_def validate_columns_cases)

lemma column_definition_new_iff:
  "column_definition_new n t b d = Ok c \<longleftrightarrow>
   c = \<lparr>col_name = n, col_data_type = t, col_is_nullable = b, col_default_value = d\<rparr> \<and> column_ok c"
  by (auto simp: column_definition_new_def column_ok_def split: option.splits)

section \<open>The textual form of a data type\<close>

lemma split_name_args_total: "\<exists>r. split_name_args input s = Some r"
proof (cases "str_find CHR ''('' s")
  case None
  then show ?thesis by (simp add: split_name_args_def)
next
  case (Some i)
  note i = str_find_SomeD [OF Some]
  show ?thesis
  proof (cases "ends_with s CHR '')''")
    case True
    then have "i \<noteq> length s - 1" and "s \<noteq> []"
      using i by (auto simp: ends_with_def last_conv_nth)
    with i have "i + 1 \<le> length s - 1" by linarith
    with i Some True show ?thesis by (simp add: split_name_args_def slice_def checked_sub_def)
  qed (simp add: split_name_args_def Some)
qed

lemma type_of_name_total: "\<exists>r. type_of_name n args = Some r \<and> (case r of Ok t \<Rightarrow> type_ok t \<and> t \<noteq> T_Unknown | Err _ \<Rightarrow> True)"
proof -
  consider "args = []" | a where "args = [a]" | a b xs where "args = a # b # xs"
    by (metis list.exhaust)
  then show ?thesis
    by cases (simp_all add: type_of_name_def no_args_def decimal_def not_less split: option.split)
qed

text \<open>
  C27: parsing a data type never panics, whatever the input, and what it accepts is a known
  type with a scale no larger than the precision.
\<close>

theorem from_str_total:
  "\<exists>r. from_str s = Some r \<and>
     (case r of Ok t \<Rightarrow> type_ok t \<and> t \<noteq> T_Unknown | Err _ \<Rightarrow> True)"
proof -
  obtain r where "split_name_args (trim s) (to_ascii_uppercase (trim s)) = Some r"
    using split_name_args_total by blast
  then show ?thesis
    using type_of_name_total by (cases r) (auto simp: from_str_def Let_def split: prod.splits)
qed

text \<open>An upper-case name, and the two shapes of text that are printed.\<close>

definition plain_name :: "string \<Rightarrow> bool" where
  "plain_name n \<longleftrightarrow> n \<noteq> [] \<and> list_all (\<lambda>c. graphic c \<and> ascii_upper c = c \<and> c \<noteq> CHR ''('') n"

lemma plain_name_graphic: "plain_name n \<Longrightarrow> n \<noteq> [] \<and> graphic (hd n) \<and> graphic (last n)"
  by (auto simp: plain_name_def list_all_iff)

lemma plain_name_upper: "plain_name n \<Longrightarrow> to_ascii_uppercase n = n"
  by (auto simp: plain_name_def list_all_iff to_ascii_uppercase_def intro: map_idI)

lemma plain_name_no_paren: "plain_name n \<Longrightarrow> CHR ''('' \<notin> set n"
  by (auto simp: plain_name_def list_all_iff)

lemma trim_plain_name: "plain_name n \<Longrightarrow> trim n = n"
  using plain_name_graphic by (blast intro: trim_graphic)

lemma from_str_plain: "plain_name n \<Longrightarrow> from_str n = type_of_name n []"
  by (simp add: from_str_def trim_plain_name plain_name_upper plain_name_graphic Let_def
      split_name_args_def str_find_none plain_name_no_paren parse_args_def)

lemma from_str_args:
  assumes n: "plain_name n" and up: "to_ascii_uppercase args = args"
  shows "from_str (n @ ''('' @ args @ '')'') = type_of_name n (parse_args (Some args))"
proof -
  define s where "s = n @ ''('' @ args @ '')''"
  have ends: "hd s = hd n" "last s = CHR '')''" "s \<noteq> []" "graphic (CHR '')'')"
    using plain_name_graphic [OF n] by (auto simp: s_def graphic_def)
  have trim: "trim s = s"
    using ends plain_name_graphic [OF n] by (intro trim_graphic) auto
  have upper: "to_ascii_uppercase s = s"
    using up plain_name_upper [OF n]
    by (simp add: s_def to_ascii_uppercase_def) (simp add: ascii_upper_def)
  have find: "str_find CHR ''('' s = Some (length n)"
    using str_find_append [OF plain_name_no_paren [OF n]] by (simp add: s_def)
  have "split_name_args s s = Some (Ok (n, Some args))"
    unfolding split_name_args_def find
    by (simp add: s_def ends_with_def slice_def checked_sub_def trim_plain_name [OF n])
  with ends(3) have "from_str s = type_of_name n (parse_args (Some args))"
    by (simp add: from_str_def Let_def trim upper)
  then show ?thesis by (simp only: s_def)
qed

lemma plain_names:
  "plain_name ''INT''" "plain_name ''BIGINT''" "plain_name ''BOOLEAN''" "plain_name ''DATETIME''"
  "plain_name ''FLOAT''" "plain_name ''VARCHAR''" "plain_name ''DECIMAL''" "plain_name ''BLOB''"
  "plain_name ''UNKNOWN''"
  by (simp_all add: plain_name_def graphic_def ascii_upper_def)

lemma parse_args_one: "parse_args (Some (show_nat n)) = [show_nat n]"
proof -
  have "CHR '','' \<notin> set (show_nat n)" by (rule show_nat_no_char) (simp add: is_digit_def)
  then show ?thesis by (simp add: parse_args_def split_char_none)
qed

lemma parse_args_two:
  "parse_args (Some (show_nat m @ '', '' @ show_nat n)) = [show_nat m, show_nat n]"
proof -
  have c: "CHR '','' \<notin> set (show_nat k)" for k
    by (rule show_nat_no_char) (simp add: is_digit_def)
  have "split_char CHR '','' (show_nat m @ '', '' @ show_nat n) = [show_nat m, CHR '' '' # show_nat n]"
    using split_char_append [OF c, of m "CHR '' '' # show_nat n"] c [of n]
    by (simp add: split_char_none)
  moreover have "trim (show_nat m @ '', '' @ show_nat n) = show_nat m @ '', '' @ show_nat n"
    using show_nat_hd [of m] show_nat_last [of n] by (intro trim_graphic) auto
  ultimately show ?thesis by (simp add: parse_args_def trim_space)
qed

lemma upper_two:
  "to_ascii_uppercase (show_nat m @ '', '' @ show_nat n) = show_nat m @ '', '' @ show_nat n"
  using upper_show_nat [of m] upper_show_nat [of n]
  by (simp add: to_ascii_uppercase_def) (simp add: ascii_upper_def)

text \<open>
  C26: what parsing the printed form of a data type gives, for every data type: the type itself, except
  that \<open>UNKNOWN\<close> is not the name of a type for the parser, and that a decimal whose scale is larger
  than its precision, which can be built without the constructor, is refused.
\<close>

theorem from_str_type_to_string:
  "from_str (type_to_string t) = Some (case t of
     T_Unknown \<Rightarrow> Err (UnknownType ''UNKNOWN'')
   | T_Decimal p s \<Rightarrow> if s \<le> p then Ok t else Err (InvalidScale p s)
   | _ \<Rightarrow> Ok t)"
proof (cases t)
  case (T_Varchar len)
  have "parse_unsigned 65535 (show_nat (unat len)) = Some (unat len)"
    using unat_u16_less [of len] by (intro parse_show_nat) simp
  then show ?thesis
    using from_str_args [OF plain_names(6) upper_show_nat]
    by (simp add: T_Varchar parse_args_one type_of_name_def)
next
  case (T_Blob len)
  have "parse_unsigned 4294967295 (show_nat (unat len)) = Some (unat len)"
    using unat_u32_less [of len] by (intro parse_show_nat) simp
  then show ?thesis
    using from_str_args [OF plain_names(8) upper_show_nat]
    by (simp add: T_Blob parse_args_one type_of_name_def)
next
  case (T_Decimal p s)
  have "parse_unsigned 255 (show_nat (unat k)) = Some (unat k)" for k :: u8
    using unat_u8_less [of k] by (intro parse_show_nat) simp
  then show ?thesis
    using from_str_args [OF plain_names(7) upper_two [of "unat p" "unat s"]]
    by (simp add: T_Decimal parse_args_two [simplified] type_of_name_def decimal_def not_le)
qed (use from_str_plain plain_names in \<open>simp_all add: type_of_name_def no_args_def\<close>)

section \<open>Primary key columns\<close>

lemma those_map_Some: "(\<And>x. x \<in> set xs \<Longrightarrow> f x = Some (g x)) \<Longrightarrow> those (map f xs) = Some (map g xs)"
  by (induction xs) auto

lemma find_first_name:
  "n \<in> col_name ` set cols \<Longrightarrow>
   \<exists>c. find (\<lambda>c. col_name c = n) cols = Some c \<and> c \<in> set cols \<and> col_name c = n"
  by (induction cols) auto

lemma primary_key_columns_found:
  assumes "primary_key_ok t pk"
  shows "\<exists>cols. get_primary_key_columns t = Some (Some cols) \<and> map col_name cols = pk \<and>
    set cols \<subseteq> set (td_columns t)"
proof -
  let ?f = "\<lambda>n. find (\<lambda>c. col_name c = n) (td_columns t)"
  have f: "\<And>n. n \<in> set pk \<Longrightarrow> ?f n = Some (the (?f n)) \<and> the (?f n) \<in> set (td_columns t) \<and>
      col_name (the (?f n)) = n"
  proof -
    fix n
    assume "n \<in> set pk"
    with assms have "n \<in> col_name ` set (td_columns t)" by (auto simp: primary_key_ok_def)
    from find_first_name [OF this] show "?f n = Some (the (?f n)) \<and>
        the (?f n) \<in> set (td_columns t) \<and> col_name (the (?f n)) = n"
      by auto
  qed
  from assms obtain n where "get_primary_key_constraint t = Some (PrimaryKey n pk)"
    by (auto simp: primary_key_ok_def split: option.splits constraint.splits)
  with those_map_Some [of pk ?f "\<lambda>n. the (?f n)"] f
  have "get_primary_key_columns t = Some (Some (map (\<lambda>n. the (?f n)) pk))"
    by (simp add: get_primary_key_columns_def)
  with f show ?thesis by (auto simp: map_idI)
qed

definition example_table :: table_definition where
  "example_table =
     \<lparr>td_table_id = 0, td_name = ''users'',
      td_columns =
        [\<lparr>col_name = ''id'', col_data_type = T_Int, col_is_nullable = False,
          col_default_value = None\<rparr>,
         \<lparr>col_name = ''name'', col_data_type = T_Varchar 50, col_is_nullable = True,
          col_default_value = None\<rparr>],
      td_constraints = [PrimaryKey ''pk'' [''id'']]\<rparr>"

end
