(* ===== verification/Comparison.thy ===== *)
theory Comparison
  imports Prelude
begin

text \<open>
  The contract of Rust's \<open>Ord\<close> together with \<open>Eq\<close>: \<open>cmp\<close> is a total preorder and \<open>==\<close> is its
  equivalence. The values compared by this program are not compared by HOL equality (two NaNs
  are equal, \<open>-0.0\<close> equals \<open>0.0\<close>, \<open>1.0\<close> equals \<open>1.00\<close>), so the contract is a locale over the two
  functions, and slices, keys and records inherit it from their elements.
\<close>

datatype ordering = Less | Equal | Greater

fun reverse_ord :: "ordering \<Rightarrow> ordering" where
  "reverse_ord Less = Greater"
| "reverse_ord Equal = Equal"
| "reverse_ord Greater = Less"

text \<open>\<open>Ordering::then\<close>: the next criterion decides when the first one is equal.\<close>

fun then_ord :: "ordering \<Rightarrow> ordering \<Rightarrow> ordering" where
  "then_ord Equal r = r"
| "then_ord Less r = Less"
| "then_ord Greater r = Greater"

definition int_cmp :: "int \<Rightarrow> int \<Rightarrow> ordering" where
  "int_cmp a b = (if a < b then Less else if a = b then Equal else Greater)"

definition nat_cmp :: "nat \<Rightarrow> nat \<Rightarrow> ordering" where
  "nat_cmp a b = (if a < b then Less else if a = b then Equal else Greater)"

text \<open>\<open>Ord\<close> and \<open>PartialEq\<close> of slices.\<close>

fun slice_cmp :: "('a \<Rightarrow> 'a \<Rightarrow> ordering) \<Rightarrow> 'a list \<Rightarrow> 'a list \<Rightarrow> ordering" where
  "slice_cmp c [] [] = Equal"
| "slice_cmp c [] (y # ys) = Less"
| "slice_cmp c (x # xs) [] = Greater"
| "slice_cmp c (x # xs) (y # ys) = then_ord (c x y) (slice_cmp c xs ys)"

definition slice_eq :: "('a \<Rightarrow> 'a \<Rightarrow> bool) \<Rightarrow> 'a list \<Rightarrow> 'a list \<Rightarrow> bool" where
  "slice_eq e xs ys \<longleftrightarrow> list_all2 e xs ys"

lemma then_ord_Equal_iff [simp]: "then_ord a b = Equal \<longleftrightarrow> a = Equal \<and> b = Equal"
  by (cases a) auto

lemma then_ord_Less_iff: "then_ord a b = Less \<longleftrightarrow> a = Less \<or> (a = Equal \<and> b = Less)"
  by (cases a) auto

lemma reverse_then_ord [simp]: "reverse_ord (then_ord a b) = then_ord (reverse_ord a) (reverse_ord b)"
  by (cases a) auto

lemma reverse_ord_eq_iff [simp]:
  "reverse_ord a = Equal \<longleftrightarrow> a = Equal" "reverse_ord a = Less \<longleftrightarrow> a = Greater"
  "reverse_ord a = Greater \<longleftrightarrow> a = Less"
  by (cases a; simp)+

locale total_cmp =
  fixes cmp :: "'a \<Rightarrow> 'a \<Rightarrow> ordering"
    and eq :: "'a \<Rightarrow> 'a \<Rightarrow> bool"
  assumes cmp_refl: "cmp x x = Equal"
    and cmp_swap: "cmp y x = reverse_ord (cmp x y)"
    and cmp_less_trans: "cmp x y = Less \<Longrightarrow> cmp y z = Less \<Longrightarrow> cmp x z = Less"
    and cmp_equal_left: "cmp x y = Equal \<Longrightarrow> cmp x z = cmp y z"
    and eq_iff_cmp: "eq x y \<longleftrightarrow> cmp x y = Equal"
begin

lemma cmp_equal_right: "cmp y z = Equal \<Longrightarrow> cmp x y = cmp x z"
proof -
  assume "cmp y z = Equal"
  then have "cmp y x = cmp z x" by (rule cmp_equal_left)
  then show "cmp x y = cmp x z" using cmp_swap [of x y] cmp_swap [of x z] by simp
qed

lemma cmp_greater_iff: "cmp x y = Greater \<longleftrightarrow> cmp y x = Less"
  by (subst cmp_swap) simp

lemma cmp_equal_sym: "cmp x y = Equal \<longleftrightarrow> cmp y x = Equal"
  using cmp_swap [of x y] by simp

lemma cmp_less_irrefl: "cmp x x \<noteq> Less"
  by (simp add: cmp_refl)

lemma cmp_less_asym: "cmp x y = Less \<Longrightarrow> cmp y x \<noteq> Less"
  using cmp_swap [of x y] by simp

lemma eq_refl: "eq x x"
  by (simp add: eq_iff_cmp cmp_refl)

lemma eq_sym: "eq x y \<Longrightarrow> eq y x"
  using cmp_equal_sym by (simp add: eq_iff_cmp)

lemma eq_trans: "eq x y \<Longrightarrow> eq y z \<Longrightarrow> eq x z"
  using cmp_equal_left [of x y z] by (simp add: eq_iff_cmp)

text \<open>A position in a strictly increasing list is determined by its element.\<close>

lemma increasing_position:
  assumes "sorted_wrt (\<lambda>a b. cmp a b = Less) ks" and "i < length ks"
  shows "j < i \<Longrightarrow> cmp (ks ! j) (ks ! i) = Less"
  using assms by (simp add: sorted_wrt_iff_nth_less)

lemma increasing_unique:
  assumes "sorted_wrt (\<lambda>a b. cmp a b = Less) ks" and "i < length ks" "j < length ks"
    and "eq k (ks ! i)" and "eq k (ks ! j)"
  shows "i = j"
proof (rule ccontr)
  assume "i \<noteq> j"
  have "cmp (ks ! i) (ks ! j) = Equal"
    using eq_trans [OF eq_sym [OF assms(4)] assms(5)] by (simp add: eq_iff_cmp)
  moreover from \<open>i \<noteq> j\<close> have "cmp (ks ! i) (ks ! j) = Less \<or> cmp (ks ! j) (ks ! i) = Less"
    using increasing_position [OF assms(1)] assms(2,3) by (cases "i < j") auto
  ultimately show False using cmp_swap [of "ks ! i" "ks ! j"] by auto
qed

text \<open>A comparison with one key of the list decides those on one side of it.\<close>

lemma increasing_halves:
  assumes "sorted_wrt (\<lambda>a b. cmp a b = Less) ks" and "m < length ks"
  shows "cmp k (ks ! m) = Greater \<Longrightarrow> j \<le> m \<Longrightarrow> cmp (ks ! j) k = Less"
    and "cmp k (ks ! m) = Less \<Longrightarrow> m \<le> j \<Longrightarrow> j < length ks \<Longrightarrow> cmp k (ks ! j) = Less"
proof -
  show "cmp (ks ! j) k = Less" if "cmp k (ks ! m) = Greater" "j \<le> m"
    using that increasing_position [OF assms, of j] cmp_less_trans cmp_greater_iff by (cases "j = m") auto
  show "cmp k (ks ! j) = Less" if "cmp k (ks ! m) = Less" "m \<le> j" "j < length ks"
    using that increasing_position [OF assms(1) that(3), of m] cmp_less_trans by (cases "j = m") auto
qed

text \<open>Inserting a key at its insertion point keeps the list strictly increasing.\<close>

lemma increasing_insert:
  assumes "sorted_wrt (\<lambda>a b. cmp a b = Less) ks" and "i \<le> length ks"
    and "\<And>j. j < i \<Longrightarrow> cmp (ks ! j) k = Less"
    and "\<And>j. i \<le> j \<Longrightarrow> j < length ks \<Longrightarrow> cmp k (ks ! j) = Less"
  shows "sorted_wrt (\<lambda>a b. cmp a b = Less) (take i ks @ k # drop i ks)"
proof -
  let ?P = "\<lambda>a b. cmp a b = Less"
  have "sorted_wrt ?P (take i ks @ drop i ks)" using assms(1) by simp
  then have split: "sorted_wrt ?P (take i ks)" "sorted_wrt ?P (drop i ks)"
    "\<And>a b. a \<in> set (take i ks) \<Longrightarrow> b \<in> set (drop i ks) \<Longrightarrow> ?P a b"
    by (auto simp only: sorted_wrt_append)
  have "?P a k" if "a \<in> set (take i ks)" for a
    using that assms(2,3) by (auto simp: in_set_conv_nth)
  moreover have "?P k b" if "b \<in> set (drop i ks)" for b
    using that assms(2,4) by (auto simp: in_set_conv_nth)
  ultimately show ?thesis using split by (auto simp: sorted_wrt_append)
qed

text \<open>Replacing a key by an equal one keeps it strictly increasing, too.\<close>

lemma increasing_replace:
  assumes "sorted_wrt (\<lambda>a b. cmp a b = Less) ks" and "i < length ks" and "eq k (ks ! i)"
  shows "sorted_wrt (\<lambda>a b. cmp a b = Less) (ks[i := k])"
proof -
  have "cmp k (ks ! i) = Equal" using assms(3) by (simp add: eq_iff_cmp)
  then have "cmp k x = cmp (ks ! i) x" "cmp x k = cmp x (ks ! i)" for x
    using cmp_equal_left cmp_equal_right by blast+
  then show ?thesis
    using assms(1,2) by (auto simp: sorted_wrt_iff_nth_less nth_list_update)
qed

end

lemma slice_cmp_refl: "(\<And>x. c x x = Equal) \<Longrightarrow> slice_cmp c xs xs = Equal"
  by (induction xs) auto

lemma slice_cmp_swap:
  "(\<And>x y. c y x = reverse_ord (c x y)) \<Longrightarrow> slice_cmp c ys xs = reverse_ord (slice_cmp c xs ys)"
proof (induction c xs ys rule: slice_cmp.induct)
  case (4 c x xs y ys)
  have "slice_cmp c ys xs = reverse_ord (slice_cmp c xs ys)" by (rule "4.IH") (rule "4.prems")
  then show ?case
    by (simp only: slice_cmp.simps reverse_then_ord "4.prems" [where x = x and y = y])
qed auto

lemma slice_cmp_equal_iff: "slice_cmp c xs ys = Equal \<longleftrightarrow> list_all2 (\<lambda>x y. c x y = Equal) xs ys"
  by (induction c xs ys rule: slice_cmp.induct) auto

lemma slice_cmp_equal_left:
  assumes "\<And>x y z. c x y = Equal \<Longrightarrow> c x z = c y z"
  shows "list_all2 (\<lambda>x y. c x y = Equal) xs ys \<Longrightarrow> slice_cmp c xs zs = slice_cmp c ys zs"
proof (induction xs ys arbitrary: zs rule: list_all2_induct)
  case Nil
  then show ?case by simp
next
  case (Cons x xs y ys)
  then show ?case by (cases zs) (auto simp: assms [OF Cons.hyps(1)])
qed

lemma slice_cmp_less_trans:
  assumes "total_cmp c e"
  shows "slice_cmp c xs ys = Less \<Longrightarrow> slice_cmp c ys zs = Less \<Longrightarrow> slice_cmp c xs zs = Less"
proof (induction xs arbitrary: ys zs)
  case Nil
  then show ?case by (cases ys; cases zs) auto
next
  case (Cons x xs)
  from Cons.prems obtain y ys' where ys: "ys = y # ys'" by (cases ys) auto
  with Cons.prems obtain z zs' where zs: "zs = z # zs'" by (cases zs) auto
  have xy: "c x y = Less \<or> c x y = Equal \<and> slice_cmp c xs ys' = Less"
    using Cons.prems(1) by (simp add: ys then_ord_Less_iff)
  have yz: "c y z = Less \<or> c y z = Equal \<and> slice_cmp c ys' zs' = Less"
    using Cons.prems(2) by (simp add: ys zs then_ord_Less_iff)
  show ?case
    using xy yz Cons.IH [of ys' zs'] total_cmp.cmp_less_trans [OF assms, of x y z]
      total_cmp.cmp_equal_left [OF assms, of x y z] total_cmp.cmp_equal_right [OF assms, of y z x]
    by (auto simp: zs then_ord_Less_iff)
qed

lemma slice_total_cmp:
  assumes "total_cmp c e"
  shows "total_cmp (slice_cmp c) (slice_eq e)"
proof
  note c = assms [THEN total_cmp.cmp_refl] assms [THEN total_cmp.cmp_swap]
    assms [THEN total_cmp.cmp_equal_left]
  show "slice_cmp c x x = Equal" for x by (rule slice_cmp_refl) (rule c)
  show "slice_cmp c y x = reverse_ord (slice_cmp c x y)" for x y by (rule slice_cmp_swap) (rule c)
  show "slice_cmp c x y = Less \<Longrightarrow> slice_cmp c y z = Less \<Longrightarrow> slice_cmp c x z = Less" for x y z
    by (rule slice_cmp_less_trans [OF assms])
  show "slice_cmp c x y = Equal \<Longrightarrow> slice_cmp c x z = slice_cmp c y z" for x y z
    by (rule slice_cmp_equal_left) (auto simp: slice_cmp_equal_iff intro: c)
  show "slice_eq e x y \<longleftrightarrow> slice_cmp c x y = Equal" for x y
  proof -
    have "e = (\<lambda>a b. c a b = Equal)" by (intro ext) (rule total_cmp.eq_iff_cmp [OF assms])
    then show ?thesis by (simp only: slice_eq_def slice_cmp_equal_iff)
  qed
qed

interpretation int_order: total_cmp int_cmp "(=)"
  by unfold_locales (auto simp: int_cmp_def split: if_splits)

interpretation nat_order: total_cmp nat_cmp "(=)"
  by unfold_locales (auto simp: nat_cmp_def split: if_splits)

text \<open>A comparison by an integer image inherits the contract.\<close>

lemma image_total_cmp: "total_cmp (\<lambda>x y. int_cmp (f x) (f y)) (\<lambda>x y. f x = f y)"
  by unfold_locales (auto simp: int_cmp_def split: if_splits)

end
