(* ===== verification/Ordered_Float.thy ===== *)
theory Ordered_Float
  imports Comparison
begin

text \<open>
  \<open>crates/data_model/src/ordered_float.rs\<close>: the wrapper of \<open>f64\<close> with a total order, equality and
  hash. An \<open>f64\<close> is its IEEE 754 binary64 bit pattern; its operations used here are \<open>is_nan\<close>,
  \<open>==\<close> and \<open>partial_cmp\<close>, defined from the value the pattern denotes.
\<close>

section \<open>The operations of f64\<close>

type_synonym f64 = u64

text \<open>The number of fraction patterns, \<open>2 ^ 52\<close>.\<close>

definition fraction_size :: nat where "fraction_size = 2 ^ 52"

definition f64_sign :: "f64 \<Rightarrow> bool" where "f64_sign b \<longleftrightarrow> 2 ^ 63 \<le> unat b"
definition f64_magnitude :: "f64 \<Rightarrow> nat" where "f64_magnitude b = unat b mod 2 ^ 63"

text \<open>Exponent field and fraction field of the low 63 bits.\<close>

definition f64_exponent :: "f64 \<Rightarrow> nat" where "f64_exponent b = f64_magnitude b div fraction_size"
definition f64_fraction :: "f64 \<Rightarrow> nat" where "f64_fraction b = f64_magnitude b mod fraction_size"

definition is_nan :: "f64 \<Rightarrow> bool" where
  "is_nan b \<longleftrightarrow> f64_exponent b = 2047 \<and> f64_fraction b \<noteq> 0"

text \<open>
  The absolute value in units of \<open>2 ^ -1074\<close>, an integer for every finite pattern; the pattern of
  infinity gets a number above all of them.
\<close>

definition scaled :: "nat \<Rightarrow> nat" where
  "scaled m =
     (if m div fraction_size = 0 then m mod fraction_size
      else (fraction_size + m mod fraction_size) * 2 ^ (m div fraction_size - 1))"

definition f64_value :: "f64 \<Rightarrow> int" where
  "f64_value b = (if f64_sign b then - int (scaled (f64_magnitude b)) else int (scaled (f64_magnitude b)))"

definition f64_eq :: "f64 \<Rightarrow> f64 \<Rightarrow> bool" where
  "f64_eq a b \<longleftrightarrow> \<not> is_nan a \<and> \<not> is_nan b \<and> f64_value a = f64_value b"

definition f64_partial_cmp :: "f64 \<Rightarrow> f64 \<Rightarrow> ordering option" where
  "f64_partial_cmp a b =
     (if is_nan a \<or> is_nan b then None else Some (int_cmp (f64_value a) (f64_value b)))"

definition f64_nan :: f64 where "f64_nan = 0x7FF8000000000000"
definition f64_zero :: f64 where "f64_zero = 0"
definition f64_neg_zero :: f64 where "f64_neg_zero = 0x8000000000000000"

section \<open>OrderedFloat\<close>

definition ordered_float_eq :: "f64 \<Rightarrow> f64 \<Rightarrow> bool" where
  "ordered_float_eq a b = (if is_nan a \<and> is_nan b then True else f64_eq a b)"

definition ordered_float_cmp :: "f64 \<Rightarrow> f64 \<Rightarrow> ordering" where
  "ordered_float_cmp a b =
     (case f64_partial_cmp a b of
        Some ord \<Rightarrow> ord
      | None \<Rightarrow> if is_nan a then (if is_nan b then Equal else Greater) else Less)"

definition ordered_float_partial_cmp :: "f64 \<Rightarrow> f64 \<Rightarrow> ordering option" where
  "ordered_float_partial_cmp a b = Some (ordered_float_cmp a b)"

text \<open>The 64-bit value \<open>hash\<close> feeds to the hasher.\<close>

definition ordered_float_hash :: "f64 \<Rightarrow> u64" where
  "ordered_float_hash a =
     (let coerced_value =
        (if f64_eq a f64_neg_zero then f64_zero else if is_nan a then f64_nan else a)
      in coerced_value)"

section \<open>The order of the values follows the bit patterns\<close>

lemma fraction_size_pos: "0 < fraction_size"
  by (simp add: fraction_size_def)

lemma scaled_zero: "scaled m = 0 \<longleftrightarrow> m = 0"
  using fraction_size_pos by (auto simp: scaled_def div_eq_0_iff)

lemma scaled_upper: "scaled m < fraction_size * 2 ^ (m div fraction_size)"
proof (cases "m div fraction_size")
  case 0
  then show ?thesis by (simp add: scaled_def fraction_size_pos)
next
  case (Suc k)
  have "m mod fraction_size < fraction_size" by (simp add: fraction_size_pos)
  then have "(fraction_size + m mod fraction_size) * 2 ^ k < (fraction_size + fraction_size) * 2 ^ k"
    by (intro mult_strict_right_mono) simp_all
  then show ?thesis by (simp add: scaled_def Suc)
qed

lemma scaled_lower:
  "0 < m div fraction_size \<Longrightarrow> fraction_size * 2 ^ (m div fraction_size - 1) \<le> scaled m"
  by (auto simp: scaled_def)

lemma scaled_strict_mono:
  assumes "m < n"
  shows "scaled m < scaled n"
proof (cases "m div fraction_size = n div fraction_size")
  case True
  have "m mod fraction_size < n mod fraction_size"
    using assms True by (metis add_less_cancel_left div_mult_mod_eq)
  then show ?thesis using True by (simp add: scaled_def)
next
  case False
  with assms have lt: "m div fraction_size < n div fraction_size"
    by (simp add: div_le_mono le_neq_trans)
  have "scaled m < fraction_size * 2 ^ (m div fraction_size)" by (rule scaled_upper)
  also have "\<dots> \<le> fraction_size * 2 ^ (n div fraction_size - 1)"
    using lt by (intro mult_left_mono power_increasing) auto
  also have "\<dots> \<le> scaled n" using lt by (intro scaled_lower) simp
  finally show ?thesis .
qed

lemma scaled_inj: "scaled m = scaled n \<longleftrightarrow> m = n"
  using scaled_strict_mono [of m n] scaled_strict_mono [of n m] by (cases m n rule: linorder_cases) auto

lemma f64_split: "unat b = (if f64_sign b then 2 ^ 63 else 0) + f64_magnitude b"
proof (cases "f64_sign b")
  case True
  have "unat b < 2 ^ 64" by (rule unat_u64_less)
  with True have "unat b mod 2 ^ 63 = unat b - 2 ^ 63"
    by (simp add: f64_sign_def le_mod_geq)
  with True show ?thesis by (simp add: f64_magnitude_def f64_sign_def)
next
  case False
  then show ?thesis by (simp add: f64_magnitude_def f64_sign_def)
qed

text \<open>Equal values are the same pattern, but for the two zeros.\<close>

lemma f64_value_eq_iff:
  "f64_value a = f64_value b \<longleftrightarrow> a = b \<or> f64_magnitude a = 0 \<and> f64_magnitude b = 0"
proof -
  have same: "a = b \<longleftrightarrow> f64_sign a = f64_sign b \<and> f64_magnitude a = f64_magnitude b"
  proof
    assume "f64_sign a = f64_sign b \<and> f64_magnitude a = f64_magnitude b"
    then have "unat a = unat b" by (simp only: f64_split [of a] f64_split [of b])
    then show "a = b" by (simp add: word_unat_eq_iff)
  qed simp
  show ?thesis
  proof (cases "f64_sign a = f64_sign b")
    case True
    then show ?thesis by (auto simp: same f64_value_def scaled_inj)
  next
    case False
    then have "f64_value a = f64_value b \<longleftrightarrow>
        scaled (f64_magnitude a) = 0 \<and> scaled (f64_magnitude b) = 0"
      by (auto simp: f64_value_def)
    with False show ?thesis by (auto simp: same scaled_zero)
  qed
qed

section \<open>The contract of Ord and Hash\<close>

interpretation float_order: total_cmp ordered_float_cmp ordered_float_eq
proof
  fix x y z :: f64
  show "ordered_float_cmp x x = Equal"
    by (simp add: ordered_float_cmp_def f64_partial_cmp_def int_cmp_def)
  show "ordered_float_cmp y x = reverse_ord (ordered_float_cmp x y)"
    by (auto simp: ordered_float_cmp_def f64_partial_cmp_def int_cmp_def)
  show "ordered_float_cmp x y = Less \<Longrightarrow> ordered_float_cmp y z = Less \<Longrightarrow> ordered_float_cmp x z = Less"
    by (auto simp: ordered_float_cmp_def f64_partial_cmp_def int_cmp_def split: if_splits)
  show "ordered_float_cmp x y = Equal \<Longrightarrow> ordered_float_cmp x z = ordered_float_cmp y z"
    by (auto simp: ordered_float_cmp_def f64_partial_cmp_def int_cmp_def split: if_splits)
  show "ordered_float_eq x y \<longleftrightarrow> ordered_float_cmp x y = Equal"
    by (auto simp: ordered_float_eq_def f64_eq_def ordered_float_cmp_def f64_partial_cmp_def
        int_cmp_def split: if_splits)
qed

lemma nan_constants: "is_nan f64_nan" "\<not> is_nan f64_zero" "\<not> is_nan f64_neg_zero"
  by (simp_all add: is_nan_def f64_exponent_def f64_fraction_def f64_magnitude_def fraction_size_def f64_nan_def
      f64_zero_def f64_neg_zero_def)

lemma magnitude_zeros: "f64_magnitude f64_neg_zero = 0" "f64_magnitude f64_zero = 0"
  by (simp_all add: f64_magnitude_def f64_zero_def f64_neg_zero_def)

lemma zero_magnitude_not_nan: "f64_magnitude a = 0 \<Longrightarrow> \<not> is_nan a"
  by (simp add: is_nan_def f64_exponent_def)

lemma hash_cases:
  "ordered_float_hash a =
     (if f64_magnitude a = 0 then f64_zero else if is_nan a then f64_nan else a)"
  using f64_value_eq_iff [of a f64_neg_zero]
  by (auto simp: ordered_float_hash_def f64_eq_def nan_constants magnitude_zeros Let_def
      zero_magnitude_not_nan)

text \<open>
  C28: equality of \<open>OrderedFloat\<close> and its hash agree in both directions: two values are equal
  exactly when the hasher is fed the same 64 bits.
\<close>

theorem ordered_float_hash_iff:
  "ordered_float_eq a b \<longleftrightarrow> ordered_float_hash a = ordered_float_hash b"
proof -
  have "ordered_float_eq a b \<longleftrightarrow>
      (is_nan a \<and> is_nan b) \<or>
      (\<not> is_nan a \<and> \<not> is_nan b \<and> (a = b \<or> f64_magnitude a = 0 \<and> f64_magnitude b = 0))"
    by (auto simp: ordered_float_eq_def f64_eq_def f64_value_eq_iff)
  then show ?thesis
    using nan_constants magnitude_zeros zero_magnitude_not_nan
    by (auto simp: hash_cases split: if_splits)
qed

text \<open>
  NaN is the greatest value: it compares greater than every number, infinities included, and
  equal to every other NaN.
\<close>

lemma ordered_float_nan_greatest:
  "ordered_float_cmp f64_nan b = (if is_nan b then Equal else Greater)"
  by (simp add: ordered_float_cmp_def f64_partial_cmp_def nan_constants)

end
