(* ===== verification/Data_Model.thy ===== *)
theory Data_Model
  imports Schema Ordered_Float
begin

text \<open>
  The crate \<open>data_model\<close>: data values, keys and records (\<open>data_value.rs\<close>, \<open>key.rs\<close>,
  \<open>record.rs\<close>). The \<open>Decimal\<close> of the crate \<open>rust_decimal\<close> is a type parameter with a record of the
  operations the code calls; \<open>decimal_laws\<close> states what their documentation promises. A
  \<open>SmallVec\<close> is a list.
\<close>

section \<open>Definitions\<close>

record 'd decimal_ops =
  dec_eq :: "'d \<Rightarrow> 'd \<Rightarrow> bool"
  dec_cmp :: "'d \<Rightarrow> 'd \<Rightarrow> ordering"
  dec_scale :: "'d \<Rightarrow> nat"
  dec_trunc :: "'d \<Rightarrow> 'd"
  dec_abs :: "'d \<Rightarrow> 'd"
  dec_mantissa :: "'d \<Rightarrow> int"
  dec_serialize :: "'d \<Rightarrow> bytes"
  dec_deserialize :: "bytes \<Rightarrow> 'd"
  dec_to_string :: "'d \<Rightarrow> string"

datatype 'd data_value =
    V_Null
  | V_Int i32
  | V_BigInt i64
  | V_Boolean bool
  | V_Float f64
  | V_Text string
  | V_Blob bytes
  | V_DateTime i64
  | V_Decimal 'd

text \<open>The derived \<open>PartialEq\<close>, and the derived \<open>Ord\<close>: the variant first, then the payload.\<close>

primrec data_value_eq :: "'d decimal_ops \<Rightarrow> 'd data_value \<Rightarrow> 'd data_value \<Rightarrow> bool" where
  "data_value_eq D V_Null b = (case b of V_Null \<Rightarrow> True | _ \<Rightarrow> False)"
| "data_value_eq D (V_Int a) b = (case b of V_Int x \<Rightarrow> a = x | _ \<Rightarrow> False)"
| "data_value_eq D (V_BigInt a) b = (case b of V_BigInt x \<Rightarrow> a = x | _ \<Rightarrow> False)"
| "data_value_eq D (V_Boolean a) b = (case b of V_Boolean x \<Rightarrow> a = x | _ \<Rightarrow> False)"
| "data_value_eq D (V_Float a) b = (case b of V_Float x \<Rightarrow> ordered_float_eq a x | _ \<Rightarrow> False)"
| "data_value_eq D (V_Text a) b = (case b of V_Text x \<Rightarrow> a = x | _ \<Rightarrow> False)"
| "data_value_eq D (V_Blob a) b = (case b of V_Blob x \<Rightarrow> a = x | _ \<Rightarrow> False)"
| "data_value_eq D (V_DateTime a) b = (case b of V_DateTime x \<Rightarrow> a = x | _ \<Rightarrow> False)"
| "data_value_eq D (V_Decimal a) b = (case b of V_Decimal x \<Rightarrow> dec_eq D a x | _ \<Rightarrow> False)"

primrec variant :: "'d data_value \<Rightarrow> nat" where
  "variant V_Null = 0"
| "variant (V_Int _) = 1"
| "variant (V_BigInt _) = 2"
| "variant (V_Boolean _) = 3"
| "variant (V_Float _) = 4"
| "variant (V_Text _) = 5"
| "variant (V_Blob _) = 6"
| "variant (V_DateTime _) = 7"
| "variant (V_Decimal _) = 8"

definition char_cmp :: "char \<Rightarrow> char \<Rightarrow> ordering" where
  "char_cmp a b = nat_cmp (of_char a) (of_char b)"

definition byte_cmp :: "u8 \<Rightarrow> u8 \<Rightarrow> ordering" where
  "byte_cmp a b = nat_cmp (unat a) (unat b)"

definition bool_cmp :: "bool \<Rightarrow> bool \<Rightarrow> ordering" where
  "bool_cmp a b = nat_cmp (of_bool a) (of_bool b)"

primrec payload_cmp :: "'d decimal_ops \<Rightarrow> 'd data_value \<Rightarrow> 'd data_value \<Rightarrow> ordering" where
  "payload_cmp D V_Null b = Equal"
| "payload_cmp D (V_Int a) b = (case b of V_Int x \<Rightarrow> int_cmp (sint a) (sint x) | _ \<Rightarrow> Equal)"
| "payload_cmp D (V_BigInt a) b = (case b of V_BigInt x \<Rightarrow> int_cmp (sint a) (sint x) | _ \<Rightarrow> Equal)"
| "payload_cmp D (V_Boolean a) b = (case b of V_Boolean x \<Rightarrow> bool_cmp a x | _ \<Rightarrow> Equal)"
| "payload_cmp D (V_Float a) b = (case b of V_Float x \<Rightarrow> ordered_float_cmp a x | _ \<Rightarrow> Equal)"
| "payload_cmp D (V_Text a) b = (case b of V_Text x \<Rightarrow> slice_cmp char_cmp a x | _ \<Rightarrow> Equal)"
| "payload_cmp D (V_Blob a) b = (case b of V_Blob x \<Rightarrow> slice_cmp byte_cmp a x | _ \<Rightarrow> Equal)"
| "payload_cmp D (V_DateTime a) b = (case b of V_DateTime x \<Rightarrow> int_cmp (sint a) (sint x) | _ \<Rightarrow> Equal)"
| "payload_cmp D (V_Decimal a) b = (case b of V_Decimal x \<Rightarrow> dec_cmp D a x | _ \<Rightarrow> Equal)"

definition data_value_cmp :: "'d decimal_ops \<Rightarrow> 'd data_value \<Rightarrow> 'd data_value \<Rightarrow> ordering" where
  "data_value_cmp D a b = then_ord (nat_cmp (variant a) (variant b)) (payload_cmp D a b)"

text \<open>\<open>checked_ilog10\<close>: the logarithm rounded down, for positive numbers.\<close>

fun ilog10 :: "nat \<Rightarrow> nat" where
  "ilog10 n = (if n < 10 then 0 else Suc (ilog10 (n div 10)))"

declare ilog10.simps [simp del]

definition checked_ilog10 :: "int \<Rightarrow> nat option" where
  "checked_ilog10 i = (if 0 < i then Some (ilog10 (nat i)) else None)"

text \<open>
  \<open>is_compatible\<close>; the subtraction \<open>p - s\<close> of two \<open>u8\<close> panics for a type with a scale above its
  precision.
\<close>

primrec is_compatible ::
  "'d decimal_ops \<Rightarrow> 'd data_value \<Rightarrow> primitive_data_type \<Rightarrow> bool option" where
  "is_compatible D V_Null schema_type = Some True"
| "is_compatible D (V_Int _) schema_type =
     Some (case schema_type of T_Int \<Rightarrow> True | T_BigInt \<Rightarrow> True | _ \<Rightarrow> False)"
| "is_compatible D (V_BigInt _) schema_type =
     Some (case schema_type of T_BigInt \<Rightarrow> True | _ \<Rightarrow> False)"
| "is_compatible D (V_Boolean _) schema_type =
     Some (case schema_type of T_Boolean \<Rightarrow> True | _ \<Rightarrow> False)"
| "is_compatible D (V_Float _) schema_type =
     Some (case schema_type of T_Float \<Rightarrow> True | _ \<Rightarrow> False)"
| "is_compatible D (V_Text val) schema_type =
     Some (case schema_type of T_Varchar max_len \<Rightarrow> length val \<le> unat max_len | _ \<Rightarrow> False)"
| "is_compatible D (V_Blob val) schema_type =
     Some (case schema_type of T_Blob max_len \<Rightarrow> length val \<le> unat max_len | _ \<Rightarrow> False)"
| "is_compatible D (V_DateTime _) schema_type =
     Some (case schema_type of T_DateTime \<Rightarrow> True | _ \<Rightarrow> False)"
| "is_compatible D (V_Decimal val) schema_type =
     (case schema_type of
        T_Decimal p s \<Rightarrow>
          (let scale = dec_scale D val in
           if scale > unat s then Some False
           else
             let integer_part = dec_mantissa D (dec_abs D (dec_trunc D val)) in
             if integer_part = 0 then Some True
             else
               let integer_digit_count =
                 (case checked_ilog10 integer_part of Some n \<Rightarrow> n | None \<Rightarrow> 0) + 1
               in do {
                 int_digits \<leftarrow> checked_sub (unat p) (unat s);
                 Some (scale \<le> unat s \<and> integer_digit_count \<le> int_digits)
               })
      | _ \<Rightarrow> Some False)"

text \<open>\<open>impl fmt::Display for DataValue\<close>; the decimal expansion of an \<open>f64\<close> is a parameter.\<close>

primrec data_value_to_string ::
  "(f64 \<Rightarrow> string) \<Rightarrow> 'd decimal_ops \<Rightarrow> 'd data_value \<Rightarrow> string" where
  "data_value_to_string fmt_f64 D (V_BigInt val) = show_int (sint val)"
| "data_value_to_string fmt_f64 D (V_Int val) = show_int (sint val)"
| "data_value_to_string fmt_f64 D (V_Blob val) = ''<BLOB length='' @ show_nat (length val) @ ''>''"
| "data_value_to_string fmt_f64 D (V_Boolean val) = (if val then ''true'' else ''false'')"
| "data_value_to_string fmt_f64 D (V_DateTime val) = show_int (sint val)"
| "data_value_to_string fmt_f64 D (V_Decimal val) = dec_to_string D val"
| "data_value_to_string fmt_f64 D (V_Float val) = fmt_f64 val"
| "data_value_to_string fmt_f64 D (V_Text val) = val"
| "data_value_to_string fmt_f64 D V_Null = ''NULL''"

subsection \<open>Keys and records\<close>

type_synonym 'd key = "'d data_value list"
type_synonym 'd record_values = "'d data_value list"

text \<open>The conversions \<open>From<DataValue>\<close> and \<open>From<Vec<DataValue>>\<close> of keys and records.\<close>

definition key_from_value :: "'d data_value \<Rightarrow> 'd key" where "key_from_value v = [v]"
definition key_from_vec :: "'d data_value list \<Rightarrow> 'd key" where "key_from_vec vs = vs"
definition record_from_value :: "'d data_value \<Rightarrow> 'd record_values" where "record_from_value v = [v]"
definition record_from_vec :: "'d data_value list \<Rightarrow> 'd record_values" where "record_from_vec vs = vs"

text \<open>The derived comparisons of \<open>Key\<close> (and of \<open>Record\<close>).\<close>

definition key_eq :: "'d decimal_ops \<Rightarrow> 'd key \<Rightarrow> 'd key \<Rightarrow> bool" where
  "key_eq D = slice_eq (data_value_eq D)"

definition key_cmp :: "'d decimal_ops \<Rightarrow> 'd key \<Rightarrow> 'd key \<Rightarrow> ordering" where
  "key_cmp D = slice_cmp (data_value_cmp D)"

text \<open>The loop of both \<open>Display\<close> implementations: a separator before every value but the first.\<close>

fun fmt_values_loop :: "('v \<Rightarrow> string) \<Rightarrow> nat \<Rightarrow> 'v list \<Rightarrow> string" where
  "fmt_values_loop show_v i [] = []"
| "fmt_values_loop show_v i (v # vs) =
     (if i > 0 then '', '' else []) @ show_v v @ fmt_values_loop show_v (Suc i) vs"

definition key_to_string :: "(f64 \<Rightarrow> string) \<Rightarrow> 'd decimal_ops \<Rightarrow> 'd key \<Rightarrow> string" where
  "key_to_string fmt_f64 D k =
     ''('' @ fmt_values_loop (data_value_to_string fmt_f64 D) 0 k @ '')''"

definition record_to_string :: "(f64 \<Rightarrow> string) \<Rightarrow> 'd decimal_ops \<Rightarrow> 'd record_values \<Rightarrow> string" where
  "record_to_string fmt_f64 D r =
     ''('' @ fmt_values_loop (data_value_to_string fmt_f64 D) 0 r @ '')''"

text \<open>
  \<open>Record::get_primary_key\<close>: the map from a key column to its position in the key (a later
  duplicate overwrites an earlier one), the loop over the columns of the table, and the
  positional \<open>insert\<close> into the growing vector of key values.
\<close>

definition pk_reverse_lookup :: "string list \<Rightarrow> string \<Rightarrow> nat option" where
  "pk_reverse_lookup pk_cols = map_of (rev (zip pk_cols [0..<length pk_cols]))"

fun primary_key_loop ::
  "string list \<Rightarrow> 'd record_values \<Rightarrow> column_definition list \<Rightarrow> nat \<Rightarrow> 'd data_value list \<Rightarrow>
   'd data_value list option" where
  "primary_key_loop pk_cols r [] i key_values = Some key_values"
| "primary_key_loop pk_cols r (c # cs) i key_values =
     (if col_name c \<in> set pk_cols then do {
        key_col_index \<leftarrow> pk_reverse_lookup pk_cols (col_name c);
        v \<leftarrow> index r i;
        kvs \<leftarrow> vec_insert key_values key_col_index v;
        primary_key_loop pk_cols r cs (Suc i) kvs
      }
      else primary_key_loop pk_cols r cs (Suc i) key_values)"

definition get_primary_key :: "'d record_values \<Rightarrow> table_definition \<Rightarrow> 'd key option" where
  "get_primary_key r t =
     (case get_primary_key_constraint t of
        None \<Rightarrow> panic
      | Some c \<Rightarrow>
          (case col_names c of
             Some pk_cols \<Rightarrow> map_option key_from_vec (primary_key_loop pk_cols r (td_columns t) 0 [])
           | None \<Rightarrow> Some (key_from_vec [])))"

text \<open>
  The documented behaviour of \<open>rust_decimal\<close> the code relies on: its \<open>Ord\<close> and \<open>Eq\<close> obey their
  contract, and the 16-byte serialization is reversible.
\<close>

definition decimal_laws :: "'d decimal_ops \<Rightarrow> bool" where
  "decimal_laws D \<longleftrightarrow> total_cmp (dec_cmp D) (dec_eq D) \<and>
     (\<forall>d. length (dec_serialize D d) = 16 \<and> dec_deserialize D (dec_serialize D d) = d)"

section \<open>The order of data values and keys\<close>

lemma char_total_cmp: "total_cmp char_cmp (=)"
  by unfold_locales (auto simp: char_cmp_def nat_cmp_def split: if_splits)

lemma byte_total_cmp: "total_cmp byte_cmp (=)"
  by unfold_locales
    (auto simp: byte_cmp_def nat_cmp_def word_unat_eq_iff split: if_splits)

lemma slice_eq_HOL: "slice_eq (=) = (=)"
  by (intro ext) (simp add: slice_eq_def list.rel_eq)

interpretation text_order: total_cmp "slice_cmp char_cmp" "(=)"
  using slice_total_cmp [OF char_total_cmp] by (simp only: slice_eq_HOL)

interpretation blob_order: total_cmp "slice_cmp byte_cmp" "(=)"
  using slice_total_cmp [OF byte_total_cmp] by (simp only: slice_eq_HOL)

lemma signed_total_cmp: "total_cmp (\<lambda>a b :: 'a::len word. int_cmp (sint a) (sint b)) (=)"
  by unfold_locales (auto simp: int_cmp_def intro: signed_word_eqI split: if_splits)

interpretation i32_order: total_cmp "\<lambda>a b :: i32. int_cmp (sint a) (sint b)" "(=)"
  by (rule signed_total_cmp)

interpretation i64_order: total_cmp "\<lambda>a b :: i64. int_cmp (sint a) (sint b)" "(=)"
  by (rule signed_total_cmp)

interpretation bool_order: total_cmp bool_cmp "(=)"
  by unfold_locales (auto simp: bool_cmp_def nat_cmp_def of_bool_def split: if_splits)

text \<open>The contract for values of one variant.\<close>

lemma payload_refl: "total_cmp (dec_cmp D) (dec_eq D) \<Longrightarrow> payload_cmp D a a = Equal"
  by (cases a) (simp_all add: i32_order.cmp_refl i64_order.cmp_refl bool_order.cmp_refl
      float_order.cmp_refl text_order.cmp_refl blob_order.cmp_refl total_cmp.cmp_refl)

lemma payload_swap:
  "total_cmp (dec_cmp D) (dec_eq D) \<Longrightarrow> variant a = variant b \<Longrightarrow>
   payload_cmp D b a = reverse_ord (payload_cmp D a b)"
  by (cases a; cases b; simp)
    (rule i32_order.cmp_swap i64_order.cmp_swap bool_order.cmp_swap float_order.cmp_swap
      text_order.cmp_swap blob_order.cmp_swap total_cmp.cmp_swap; assumption?)+

lemma payload_less_trans:
  "total_cmp (dec_cmp D) (dec_eq D) \<Longrightarrow> variant a = variant b \<Longrightarrow> variant b = variant c \<Longrightarrow>
   payload_cmp D a b = Less \<Longrightarrow> payload_cmp D b c = Less \<Longrightarrow> payload_cmp D a c = Less"
  by (cases a; cases b; simp; cases c; simp)
    (blast intro: i32_order.cmp_less_trans i64_order.cmp_less_trans bool_order.cmp_less_trans
      float_order.cmp_less_trans text_order.cmp_less_trans blob_order.cmp_less_trans
      total_cmp.cmp_less_trans)+

lemma payload_equal_left:
  "total_cmp (dec_cmp D) (dec_eq D) \<Longrightarrow> variant a = variant b \<Longrightarrow> variant b = variant c \<Longrightarrow>
   payload_cmp D a b = Equal \<Longrightarrow> payload_cmp D a c = payload_cmp D b c"
  by (cases a; cases b; simp; cases c; simp)
    (blast intro: i32_order.cmp_equal_left i64_order.cmp_equal_left bool_order.cmp_equal_left
      float_order.cmp_equal_left text_order.cmp_equal_left blob_order.cmp_equal_left
      total_cmp.cmp_equal_left)+

lemma payload_equal_iff:
  "total_cmp (dec_cmp D) (dec_eq D) \<Longrightarrow>
   data_value_eq D a b \<longleftrightarrow> variant a = variant b \<and> payload_cmp D a b = Equal"
  by (cases a; cases b; simp add: i32_order.eq_iff_cmp i64_order.eq_iff_cmp bool_order.eq_iff_cmp
      float_order.eq_iff_cmp text_order.eq_iff_cmp blob_order.eq_iff_cmp total_cmp.eq_iff_cmp)

lemma nat_cmp_iff [simp]:
  "nat_cmp a b = Equal \<longleftrightarrow> a = b" "nat_cmp a b = Less \<longleftrightarrow> a < b" "nat_cmp a a = Equal"
  by (auto simp: nat_cmp_def)

lemma data_value_total_cmp:
  assumes dec: "total_cmp (dec_cmp D) (dec_eq D)"
  shows "total_cmp (data_value_cmp D) (data_value_eq D)"
proof
  fix a b c :: "'a data_value"
  show "data_value_cmp D a a = Equal"
    by (simp add: data_value_cmp_def payload_refl [OF dec])
  show "data_value_cmp D b a = reverse_ord (data_value_cmp D a b)"
    using payload_swap [OF dec, of a b]
    by (cases "variant a" "variant b" rule: linorder_cases) (auto simp: data_value_cmp_def nat_cmp_def)
  show "data_value_cmp D a b = Less \<Longrightarrow> data_value_cmp D b c = Less \<Longrightarrow> data_value_cmp D a c = Less"
    using payload_less_trans [OF dec, of a b c] by (auto simp: data_value_cmp_def then_ord_Less_iff)
  show "data_value_cmp D a b = Equal \<Longrightarrow> data_value_cmp D a c = data_value_cmp D b c"
    using payload_equal_left [OF dec, of a b c]
    by (cases "variant b = variant c") (auto simp: data_value_cmp_def, auto simp: nat_cmp_def)
  show "data_value_eq D a b \<longleftrightarrow> data_value_cmp D a b = Equal"
    by (auto simp: payload_equal_iff [OF dec] data_value_cmp_def)
qed

lemma key_total_cmp: "decimal_laws D \<Longrightarrow> total_cmp (key_cmp D) (key_eq D)"
  unfolding key_cmp_def key_eq_def decimal_laws_def
  by (intro slice_total_cmp data_value_total_cmp) simp

text \<open>
  C23: the order of keys obeys the contract of \<open>Ord\<close> and \<open>Eq\<close>, for every implementation of the
  decimals that does: keys are equal exactly when they compare equal, swapping the arguments
  reverses the result, and less-than is transitive.
\<close>

theorem key_cmp_contract:
  assumes "decimal_laws D"
  shows "(key_eq D a b \<longleftrightarrow> key_cmp D a b = Equal) \<and>
    key_cmp D b a = reverse_ord (key_cmp D a b) \<and>
    (key_cmp D a b = Less \<and> key_cmp D b c = Less \<longrightarrow> key_cmp D a c = Less) \<and>
    (key_eq D a b \<longrightarrow> key_cmp D a c = key_cmp D b c)"
proof -
  note keys = key_total_cmp [OF assms]
  show ?thesis
    using total_cmp.eq_iff_cmp [OF keys, of a b] total_cmp.cmp_swap [OF keys, of b a]
      total_cmp.cmp_less_trans [OF keys, of a b c] total_cmp.cmp_equal_left [OF keys, of a b c]
    by blast
qed

section \<open>A concrete decimal type\<close>

text \<open>
  An instance of the decimal operations for the witnesses: sign, scale and 96-bit mantissa, with
  the 16-byte layout flags, low, middle and high word.
\<close>

type_synonym example_dec = "bool \<times> u8 \<times> 96 word"

definition example_dec_value :: "example_dec \<Rightarrow> int" where
  "example_dec_value d = (case d of (neg, scale, m) \<Rightarrow>
     (if neg then -1 else 1) * (uint m * 10 ^ (255 - unat scale)))"

definition example_dec_serialize :: "example_dec \<Rightarrow> bytes" where
  "example_dec_serialize d = (case d of (neg, scale, m) \<Rightarrow>
     [0, 0, scale, if neg then 128 else 0] @ to_le 12 (unat m))"

definition example_dec_deserialize :: "bytes \<Rightarrow> example_dec" where
  "example_dec_deserialize bs = (bs ! 3 = 128, bs ! 2, of_nat (from_le (drop 4 bs)))"

definition example_decimal :: "example_dec decimal_ops" where
  "example_decimal =
     \<lparr>dec_eq = (\<lambda>a b. example_dec_value a = example_dec_value b),
      dec_cmp = (\<lambda>a b. int_cmp (example_dec_value a) (example_dec_value b)),
      dec_scale = (\<lambda>(neg, scale, m). unat scale),
      dec_trunc = (\<lambda>(neg, scale, m). (neg, 0, of_nat (unat m div 10 ^ unat scale))),
      dec_abs = (\<lambda>(neg, scale, m). (False, scale, m)),
      dec_mantissa = (\<lambda>(neg, scale, m). if neg then - uint m else uint m),
      dec_serialize = example_dec_serialize,
      dec_deserialize = example_dec_deserialize,
      dec_to_string = (\<lambda>(neg, scale, m). (if neg then ''-'' else []) @ show_nat (unat m) @ ''e-'' @
        show_nat (unat scale))\<rparr>"

lemma example_decimal_laws: "decimal_laws example_decimal"
proof -
  have "total_cmp (dec_cmp example_decimal) (dec_eq example_decimal)"
    unfolding example_decimal_def by simp (rule image_total_cmp)
  moreover have "length (example_dec_serialize d) = 16" for d
    by (simp add: example_dec_serialize_def split: prod.splits)
  moreover have "example_dec_deserialize (example_dec_serialize d) = d" for d
  proof -
    obtain neg scale m where d: "d = (neg, scale, m)" by (cases d)
    have "unat m < 256 ^ 12" using unsigned_less [where w = m] by simp
    then show ?thesis
      by (simp add: d example_dec_serialize_def example_dec_deserialize_def from_le_to_le)
  qed
  ultimately show ?thesis by (simp add: decimal_laws_def) (simp add: example_decimal_def)
qed

interpretation example_keys: total_cmp "key_cmp example_decimal" "key_eq example_decimal"
  by (rule key_total_cmp) (rule example_decimal_laws)

theorem key_cmp_contract_witness:
  "decimal_laws example_decimal \<and>
   key_cmp example_decimal [V_Int 2] [V_Int 1] =
   reverse_ord (key_cmp example_decimal [V_Int 1] [V_Int 2])"
  using key_cmp_contract [OF example_decimal_laws, of "[V_Int 1]" "[V_Int 2]"]
    example_decimal_laws by blast

section \<open>The primary key of a record\<close>

lemma pk_reverse_lookup_nth:
  assumes "distinct pk" and "j < length pk"
  shows "pk_reverse_lookup pk (pk ! j) = Some j"
proof -
  have "map_of (zip pk [0..<length pk]) (pk ! j) = Some ([0..<length pk] ! j)"
    using assms by (intro map_of_zip_nth) auto
  moreover have "map_of (rev (zip pk [0..<length pk])) = map_of (zip pk [0..<length pk])"
    using assms(1) by (intro map_of_inject_set [THEN iffD2]) (auto simp: rev_map [symmetric])
  ultimately show ?thesis using assms(2) by (simp add: pk_reverse_lookup_def)
qed

text \<open>The columns of the key, in the order of the table, with their values.\<close>

definition table_order_values :: "string list \<Rightarrow> column_definition list \<Rightarrow> 'd record_values \<Rightarrow> 'd key" where
  "table_order_values pk cols r = map snd (filter (\<lambda>(c, v). col_name c \<in> set pk) (zip cols r))"

lemma primary_key_loop_result:
  assumes "distinct pk" and "set (map col_name cols) \<inter> set f = {}" and "distinct (map col_name cols)"
    and "prefix f pk" and "length kvs = length f" and "i + length cols \<le> length r"
  shows "primary_key_loop pk r cols i kvs =
    (if prefix (f @ filter (\<lambda>n. n \<in> set pk) (map col_name cols)) pk
     then Some (kvs @ table_order_values pk cols (drop i r)) else None)"
  using assms(2-)
proof (induction cols arbitrary: i kvs f)
  case Nil
  then show ?case by (simp add: table_order_values_def)
next
  case (Cons c cs)
  let ?n = "col_name c"
  have r: "drop i r = r ! i # drop (Suc i) r" and i: "i < length r"
    using Cons.prems(5) by (simp_all add: Cons_nth_drop_Suc)
  show ?case
  proof (cases "?n \<in> set pk")
    case False
    then show ?thesis
      using Cons.IH [of f kvs "Suc i"] Cons.prems by (simp add: r table_order_values_def)
  next
    case True
    from Cons.prems(3) obtain zs where pk: "pk = f @ zs" by (auto elim: prefixE)
    with True Cons.prems(1) obtain k where k: "k < length zs" "zs ! k = ?n"
      by (auto simp: in_set_conv_nth)
    have "pk_reverse_lookup pk ?n = Some (length f + k)"
      using pk_reverse_lookup_nth [OF assms(1), of "length f + k"] k by (simp add: pk nth_append)
    with True i have step: "primary_key_loop pk r (c # cs) i kvs =
        vec_insert kvs (length f + k) (r ! i) \<bind> primary_key_loop pk r cs (Suc i)"
      by simp
    show ?thesis
    proof (cases k)
      case 0
      then have "prefix (f @ [?n]) pk" using k by (cases zs) (auto simp: pk)
      moreover have "vec_insert kvs (length f + k) (r ! i) = Some (kvs @ [r ! i])"
        using 0 Cons.prems(4) by (simp add: vec_insert_def)
      ultimately show ?thesis
        unfolding step
        using Cons.IH [of "f @ [?n]" "kvs @ [r ! i]" "Suc i"] Cons.prems(1,2,4,5) True
        by (simp add: r table_order_values_def)
    next
      case (Suc l)
      then have "vec_insert kvs (length f + k) (r ! i) = None"
        using Cons.prems(4) by (simp add: vec_insert_def)
      moreover have "hd zs \<noteq> ?n"
        using k Suc assms(1) by (cases zs) (auto simp: pk dest: nth_mem)
      then have "\<not> prefix (f @ ?n # xs) pk" for xs
        by (cases zs) (auto simp: pk)
      ultimately show ?thesis unfolding step using True by simp
    qed
  qed
qed

lemma primary_key_of_record:
  assumes "primary_key_ok t pk" and "length (td_columns t) \<le> length r"
  shows "get_primary_key r t =
    (if filter (\<lambda>n. n \<in> set pk) (map col_name (td_columns t)) = pk
     then Some (table_order_values pk (td_columns t) r) else None)"
proof -
  let ?g = "filter (\<lambda>n. n \<in> set pk) (map col_name (td_columns t))"
  from assms(1) obtain n where c: "get_primary_key_constraint t = Some (PrimaryKey n pk)"
    and d: "distinct pk" "distinct (map col_name (td_columns t))"
    and sub: "set pk \<subseteq> set (map col_name (td_columns t))"
    by (auto simp: primary_key_ok_def split: option.splits constraint.splits)
  have "set ?g = set pk" using sub by auto
  moreover have "distinct ?g" using d(2) by (rule distinct_filter)
  ultimately have len: "length ?g = length pk"
    using d(1) distinct_card [of ?g] distinct_card [of pk] by simp
  have pre: "prefix ?g pk \<longleftrightarrow> ?g = pk"
  proof
    assume "prefix ?g pk"
    then obtain zs where zs: "pk = ?g @ zs" by (rule prefixE)
    have "length pk = length ?g + length zs" by (subst zs) (rule length_append)
    with len have "zs = []" by simp
    with zs show "?g = pk" by simp
  qed simp
  have "primary_key_loop pk r (td_columns t) 0 [] =
      (if ?g = pk then Some (table_order_values pk (td_columns t) r) else None)"
    using primary_key_loop_result [OF d(1), of "td_columns t" "[]" "[]" 0 r] d(2) assms(2)
    by (simp only: append_Nil pre) simp
  then show ?thesis by (simp add: get_primary_key_def c key_from_vec_def)
qed

text \<open>
  C24: for a well-formed primary key, extracting the key of a record succeeds exactly when the key
  lists its columns in the order of the table, and then yields their values in that order; for a
  key declared in another order the positional \<open>insert\<close> panics.
\<close>

theorem get_primary_key_iff:
  assumes "primary_key_ok t pk" and "length (td_columns t) \<le> length r"
  shows "get_primary_key r t =
    (if filter (\<lambda>n. n \<in> set pk) (map col_name (td_columns t)) = pk
     then Some (table_order_values pk (td_columns t) r) else None)"
  using assms by (rule primary_key_of_record)

theorem get_primary_key_iff_witness:
  "get_primary_key [V_Int 7, V_Text ''Bob''] example_table = Some [V_Int 7 :: unit data_value]"
  by (subst get_primary_key_iff [where pk = "[''id'']"])
    (simp_all add: primary_key_ok_def example_table_def get_primary_key_constraint_def
      table_order_values_def)

end
