(* ===== verification/Serializer.thy ===== *)
theory Serializer
  imports Data_Model
begin

text \<open>
  \<open>crates/storage/src/record_serializer.rs\<close>: the byte format of records,
  \<open>| null bitmap | fixed-length data | variable-length data |\<close>.
  Every function of the file is modelled; a slice out of range, a \<open>copy_from_slice\<close> of the wrong
  length, an index out of bounds and an \<open>unwrap\<close> of nothing are the panic \<open>None\<close>.
\<close>

section \<open>Definitions\<close>

datatype serialization_error =
    DataTypeMismatch
  | PrimaryKeyNotFound
  | NullPrimaryKeyColumnValue
  | NullValueForNonNullColumnFound

definition get_null_bitmap_size :: "column_definition list \<Rightarrow> usize" where
  "get_null_bitmap_size columns = (length columns + 7) div 8"

definition is_col_value_null :: "bytes \<Rightarrow> usize \<Rightarrow> bool option" where
  "is_col_value_null null_bitmap i = do {
     null_bitmap_byte \<leftarrow> index null_bitmap (i div 8);
     Some (null_bitmap_byte AND push_bit (i mod 8) 1 \<noteq> 0)
   }"

text \<open>\<open>[u8; N]::try_from(slice).unwrap()\<close>.\<close>

definition to_array :: "usize \<Rightarrow> bytes \<Rightarrow> bytes option" where
  "to_array n bs = (if length bs = n then Some bs else panic)"

subsection \<open>Sizes\<close>

text \<open>The state of the loop: total size, sizes of the variable-length values, fixed size.\<close>

fun record_size_loop ::
  "column_definition list \<Rightarrow> usize \<Rightarrow> 'd record_values \<Rightarrow> usize \<times> usize list \<times> usize \<Rightarrow>
   (usize \<times> usize list \<times> usize) option" where
  "record_size_loop [] i r st = Some st"
| "record_size_loop (c # cs) i r (total_size, sizes, fixed) = do {
     row_value \<leftarrow> index r i;
     (if row_value = V_Null then record_size_loop cs (Suc i) r (total_size, sizes, fixed)
      else (case get_fixed_size (col_data_type c) of
        Some fixed_size \<Rightarrow>
          record_size_loop cs (Suc i) r (total_size + fixed_size, sizes, fixed + fixed_size)
      | None \<Rightarrow>
          (case row_value of
             V_Blob val \<Rightarrow>
               record_size_loop cs (Suc i) r (total_size + 4 + length val, sizes @ [length val], fixed)
           | V_Text val \<Rightarrow>
               record_size_loop cs (Suc i) r
                 (total_size + 4 + length (as_bytes val), sizes @ [length (as_bytes val)], fixed)
           | _ \<Rightarrow> record_size_loop cs (Suc i) r (total_size + 4, sizes, fixed))))
   }"

definition calculate_serialized_record_size ::
  "column_definition list \<Rightarrow> 'd record_values \<Rightarrow> (usize \<times> usize list \<times> usize) option" where
  "calculate_serialized_record_size columns r =
     record_size_loop columns 0 r (get_null_bitmap_size columns, [], 0)"

fun variable_offset_loop ::
  "column_definition list \<Rightarrow> usize \<Rightarrow> bytes \<Rightarrow> usize \<Rightarrow> usize option" where
  "variable_offset_loop [] i null_bitmap offset = Some offset"
| "variable_offset_loop (c # cs) i null_bitmap offset = do {
     null \<leftarrow> is_col_value_null null_bitmap i;
     (if null then variable_offset_loop cs (Suc i) null_bitmap offset
      else if is_fixed_type c then do {
        n \<leftarrow> get_fixed_size (col_data_type c);
        variable_offset_loop cs (Suc i) null_bitmap (offset + n)
      }
      else variable_offset_loop cs (Suc i) null_bitmap offset)
   }"

definition get_variable_length_data_offset ::
  "column_definition list \<Rightarrow> bytes \<Rightarrow> usize \<Rightarrow> usize option" where
  "get_variable_length_data_offset columns null_bitmap null_bitmap_size =
     variable_offset_loop columns 0 null_bitmap null_bitmap_size"

subsection \<open>Serialization\<close>

definition serialize_fixed ::
  "'d decimal_ops \<Rightarrow> bytes \<Rightarrow> usize \<Rightarrow> usize \<Rightarrow> 'd data_value \<Rightarrow>
   (serialization_error, bytes) rust_result option" where
  "serialize_fixed D bytes off fixed_size v =
     (case v of
        V_BigInt val \<Rightarrow> map_option Ok (copy_from_slice bytes off (off + fixed_size) (u64_to_le_bytes val))
      | V_Boolean val \<Rightarrow> map_option Ok (set_index bytes off (of_bool val))
      | V_DateTime val \<Rightarrow> map_option Ok (copy_from_slice bytes off (off + fixed_size) (u64_to_le_bytes val))
      | V_Decimal val \<Rightarrow> map_option Ok (copy_from_slice bytes off (off + fixed_size) (dec_serialize D val))
      | V_Float val \<Rightarrow> map_option Ok (copy_from_slice bytes off (off + fixed_size) (u64_to_le_bytes val))
      | V_Int val \<Rightarrow> map_option Ok (copy_from_slice bytes off (off + fixed_size) (u32_to_le_bytes val))
      | _ \<Rightarrow> Some (Err DataTypeMismatch))"

definition write_variable :: "bytes \<Rightarrow> usize \<Rightarrow> usize \<Rightarrow> bytes \<Rightarrow> bytes option" where
  "write_variable bytes length_offset variable_length val = do {
     b \<leftarrow> copy_from_slice bytes length_offset (length_offset + 4)
            (u32_to_le_bytes (of_nat variable_length));
     copy_from_slice b (length_offset + 4) (length_offset + 4 + variable_length) val
   }"

definition serialize_variable ::
  "bytes \<Rightarrow> usize \<Rightarrow> usize \<Rightarrow> 'd data_value \<Rightarrow> (serialization_error, bytes) rust_result option" where
  "serialize_variable bytes off variable_length v =
     (case v of
        V_Blob val \<Rightarrow> map_option Ok (write_variable bytes off variable_length val)
      | V_Text val \<Rightarrow> map_option Ok (write_variable bytes off variable_length (as_bytes val))
      | _ \<Rightarrow> Some (Err DataTypeMismatch))"

text \<open>
  The loop over the zipped columns and values; its state is the buffer, the offset of the next
  fixed value, the offset of the next variable value and the index of the next variable size.
\<close>

fun serialize_loop ::
  "'d decimal_ops \<Rightarrow> usize list \<Rightarrow> usize \<Rightarrow> (column_definition \<times> 'd data_value) list \<Rightarrow>
   bytes \<Rightarrow> usize \<Rightarrow> usize \<Rightarrow> usize \<Rightarrow> (serialization_error, bytes) rust_result option" where
  "serialize_loop D sizes i [] bytes foff voff vidx = Some (Ok bytes)"
| "serialize_loop D sizes i ((c, v) # cvs) bytes foff voff vidx =
     (if v = V_Null then do {
        b \<leftarrow> index bytes (i div 8);
        bytes' \<leftarrow> set_index bytes (i div 8) (b OR push_bit (i mod 8) 1);
        serialize_loop D sizes (Suc i) cvs bytes' foff voff vidx
      }
      else (case get_fixed_size (col_data_type c) of
        Some fixed_size \<Rightarrow> do {
          res \<leftarrow> serialize_fixed D bytes foff fixed_size v;
          (case res of
             Err e \<Rightarrow> Some (Err e)
           | Ok bytes' \<Rightarrow> serialize_loop D sizes (Suc i) cvs bytes' (foff + fixed_size) voff vidx)
        }
      | None \<Rightarrow> do {
          variable_length \<leftarrow> index sizes vidx;
          res \<leftarrow> serialize_variable bytes voff variable_length v;
          (case res of
             Err e \<Rightarrow> Some (Err e)
           | Ok bytes' \<Rightarrow>
               serialize_loop D sizes (Suc i) cvs bytes' foff (voff + (4 + variable_length)) (Suc vidx))
        }))"

definition serialize ::
  "'d decimal_ops \<Rightarrow> column_definition list \<Rightarrow> 'd record_values \<Rightarrow>
   (serialization_error, bytes) rust_result option" where
  "serialize D columns r = do {
     (total_record_size, sizes, fixed_length_size) \<leftarrow> calculate_serialized_record_size columns r;
     let null_bitmap_size = get_null_bitmap_size columns;
     serialize_loop D sizes 0 (zip columns r) (replicate total_record_size 0)
       null_bitmap_size (null_bitmap_size + fixed_length_size) 0
   }"

subsection \<open>Deserialization\<close>

definition deserialize_fixed_sized_col_value ::
  "'d decimal_ops \<Rightarrow> column_definition \<Rightarrow> bytes \<Rightarrow> usize \<Rightarrow> usize \<Rightarrow>
   (serialization_error, 'd data_value) rust_result option" where
  "deserialize_fixed_sized_col_value D c bytes off data_size = do {
     data_value \<leftarrow> slice bytes off (off + data_size);
     (case col_data_type c of
        T_BigInt \<Rightarrow> map_option (\<lambda>a. Ok (V_BigInt (u64_from_le_bytes a))) (to_array 8 data_value)
      | T_Boolean \<Rightarrow> map_option (\<lambda>b. Ok (V_Boolean (b \<noteq> 0))) (index data_value 0)
      | T_DateTime \<Rightarrow> map_option (\<lambda>a. Ok (V_DateTime (u64_from_le_bytes a))) (to_array 8 data_value)
      | T_Decimal _ _ \<Rightarrow>
          (case to_array 16 data_value of
             None \<Rightarrow> Some (Err DataTypeMismatch)
           | Some arr \<Rightarrow> Some (Ok (V_Decimal (dec_deserialize D arr))))
      | T_Float \<Rightarrow> map_option (\<lambda>a. Ok (V_Float (u64_from_le_bytes a))) (to_array 8 data_value)
      | T_Int \<Rightarrow> map_option (\<lambda>a. Ok (V_Int (u32_from_le_bytes a))) (to_array 4 data_value)
      | _ \<Rightarrow> Some (Err DataTypeMismatch))
   }"

definition deserialize_variable_sized_col_value ::
  "column_definition \<Rightarrow> bytes \<Rightarrow> i32 \<Rightarrow> (serialization_error, 'd data_value) rust_result option" where
  "deserialize_variable_sized_col_value c bytes data_size = do {
     data_bytes \<leftarrow> slice bytes 0 (i32_as_usize data_size);
     (case col_data_type c of
        T_Blob _ \<Rightarrow> Some (Ok (V_Blob data_bytes))
      | T_Varchar _ \<Rightarrow> map_option (\<lambda>s. Ok (V_Text s)) (from_utf8 data_bytes)
      | _ \<Rightarrow> Some (Err DataTypeMismatch))
   }"

text \<open>The length prefix of a variable value and the bytes after it.\<close>

definition read_length :: "bytes \<Rightarrow> usize \<Rightarrow> (i32 \<times> bytes) option" where
  "read_length bytes off = do {
     variable_data_bytes \<leftarrow> slice bytes off (length bytes);
     (data_size_bytes, rest) \<leftarrow> split_at variable_data_bytes 4;
     Some (u32_from_le_bytes data_size_bytes, rest)
   }"

text \<open>Returns the value and the two advanced offsets.\<close>

definition deserialize_col_value ::
  "'d decimal_ops \<Rightarrow> column_definition \<Rightarrow> bytes \<Rightarrow> usize \<Rightarrow> usize \<Rightarrow>
   ('d data_value \<times> usize \<times> usize) option" where
  "deserialize_col_value D c bytes foff voff =
     (if is_fixed_size (col_data_type c) then do {
        data_size \<leftarrow> get_fixed_size (col_data_type c);
        res \<leftarrow> deserialize_fixed_sized_col_value D c bytes foff data_size;
        v \<leftarrow> unwrap res;
        Some (v, foff + data_size, voff)
      }
      else do {
        (data_size, rest) \<leftarrow> read_length bytes voff;
        res \<leftarrow> deserialize_variable_sized_col_value c rest data_size;
        voff' \<leftarrow> checked_add (voff + 4) (i32_as_usize data_size);
        v \<leftarrow> unwrap res;
        Some (v, foff, voff')
      })"

fun deserialize_loop ::
  "'d decimal_ops \<Rightarrow> bytes \<Rightarrow> bytes \<Rightarrow> usize \<Rightarrow> column_definition list \<Rightarrow> 'd data_value list \<Rightarrow>
   usize \<Rightarrow> usize \<Rightarrow> (serialization_error, 'd data_value list) rust_result option" where
  "deserialize_loop D null_bitmap bytes i [] data_values foff voff = Some (Ok data_values)"
| "deserialize_loop D null_bitmap bytes i (c # cs) data_values foff voff = do {
     null \<leftarrow> is_col_value_null null_bitmap i;
     (if null then
        (if \<not> col_is_nullable c then Some (Err NullValueForNonNullColumnFound)
         else do {
           vs \<leftarrow> set_index data_values i V_Null;
           deserialize_loop D null_bitmap bytes (Suc i) cs vs foff voff
         })
      else do {
        (v, foff', voff') \<leftarrow> deserialize_col_value D c bytes foff voff;
        vs \<leftarrow> set_index data_values i v;
        deserialize_loop D null_bitmap bytes (Suc i) cs vs foff' voff'
      })
   }"

definition deserialize ::
  "'d decimal_ops \<Rightarrow> column_definition list \<Rightarrow> bytes \<Rightarrow>
   (serialization_error, 'd record_values) rust_result option" where
  "deserialize D columns bytes = do {
     let null_bitmap_size = get_null_bitmap_size columns;
     null_bitmap \<leftarrow> slice bytes 0 null_bitmap_size;
     voff \<leftarrow> get_variable_length_data_offset columns null_bitmap null_bitmap_size;
     res \<leftarrow> deserialize_loop D null_bitmap bytes 0 columns (replicate (length columns) V_Null)
              null_bitmap_size voff;
     Some (case res of Err e \<Rightarrow> Err e | Ok vs \<Rightarrow> Ok (record_from_vec vs))
   }"

text \<open>\<open>iter().position(..)\<close>.\<close>

primrec position :: "('a \<Rightarrow> bool) \<Rightarrow> 'a list \<Rightarrow> usize option" where
  "position P [] = None"
| "position P (x # xs) = (if P x then Some 0 else map_option Suc (position P xs))"

text \<open>
  The loop of \<open>deserialize_key\<close>; \<open>None\<close> as the position of a column in the key is \<open>is_key_col\<close>
  being false. The result is the vector of key values.
\<close>

fun deserialize_key_loop ::
  "'d decimal_ops \<Rightarrow> column_definition list \<Rightarrow> bytes \<Rightarrow> bytes \<Rightarrow> usize \<Rightarrow> column_definition list \<Rightarrow>
   usize \<Rightarrow> 'd data_value list \<Rightarrow> usize \<Rightarrow> usize \<Rightarrow>
   (serialization_error, 'd data_value list) rust_result option" where
  "deserialize_key_loop D key_cols null_bitmap bytes i [] found row_values foff voff =
     Some (Ok row_values)"
| "deserialize_key_loop D key_cols null_bitmap bytes i (c # cs) found row_values foff voff =
     (if found \<ge> length key_cols then Some (Ok row_values)
      else
        let is_key_col = list_ex (\<lambda>k. col_name k = col_name c) key_cols in do {
          key_col_index \<leftarrow>
            (if is_key_col then position (\<lambda>k. col_name k = col_name c) key_cols else Some 0);
          let found' = (if is_key_col then found + 1 else found);
          null \<leftarrow> is_col_value_null null_bitmap i;
          (if null then
             (if is_key_col then Some (Err NullPrimaryKeyColumnValue)
              else deserialize_key_loop D key_cols null_bitmap bytes (Suc i) cs found' row_values foff voff)
           else if is_fixed_type c then do {
             data_size \<leftarrow> get_fixed_size (col_data_type c);
             row_values' \<leftarrow>
               (if is_key_col then do {
                  res \<leftarrow> deserialize_fixed_sized_col_value D c bytes foff data_size;
                  v \<leftarrow> unwrap res;
                  set_index row_values key_col_index v
                } else Some row_values);
             deserialize_key_loop D key_cols null_bitmap bytes (Suc i) cs found' row_values'
               (foff + data_size) voff
           }
           else do {
             (data_size, rest) \<leftarrow> read_length bytes voff;
             row_values' \<leftarrow>
               (if is_key_col then do {
                  res \<leftarrow> deserialize_variable_sized_col_value c rest data_size;
                  v \<leftarrow> unwrap res;
                  set_index row_values key_col_index v
                } else Some row_values);
             voff' \<leftarrow> checked_add (voff + 4) (i32_as_usize data_size);
             deserialize_key_loop D key_cols null_bitmap bytes (Suc i) cs found' row_values' foff voff'
           })
        })"

definition deserialize_key ::
  "'d decimal_ops \<Rightarrow> column_definition list \<Rightarrow> column_definition list \<Rightarrow> bytes \<Rightarrow>
   (serialization_error, 'd key) rust_result option" where
  "deserialize_key D record_cols key_cols record_bytes = do {
     let null_bitmap_size = (length record_cols + 7) div 8;
     null_bitmap \<leftarrow> slice record_bytes 0 null_bitmap_size;
     voff \<leftarrow> get_variable_length_data_offset record_cols null_bitmap null_bitmap_size;
     res \<leftarrow> deserialize_key_loop D key_cols null_bitmap record_bytes 0 record_cols 0
              (replicate (length key_cols) V_Null) null_bitmap_size voff;
     Some (case res of Err e \<Rightarrow> Err e | Ok vs \<Rightarrow> Ok (key_from_vec vs))
   }"

definition deserialize_primary_key ::
  "'d decimal_ops \<Rightarrow> table_definition \<Rightarrow> bytes \<Rightarrow> (serialization_error, 'd key) rust_result option"
where
  "deserialize_primary_key D t record_bytes = do {
     result \<leftarrow> get_primary_key_columns t;
     (case result of
        Some key_cols \<Rightarrow> deserialize_key D (td_columns t) key_cols record_bytes
      | None \<Rightarrow> Some (Err PrimaryKeyNotFound))
   }"

section \<open>The layout\<close>

text \<open>
  The values a column can store: a null (whether the column is nullable is only checked when the
  record is read), the variant of its type exactly, texts and blobs short enough for the signed
  32-bit length prefix.
\<close>

primrec value_ok :: "column_definition \<Rightarrow> 'd data_value \<Rightarrow> bool" where
  "value_ok c V_Null = True"
| "value_ok c (V_Int _) = (case col_data_type c of T_Int \<Rightarrow> True | _ \<Rightarrow> False)"
| "value_ok c (V_BigInt _) = (case col_data_type c of T_BigInt \<Rightarrow> True | _ \<Rightarrow> False)"
| "value_ok c (V_Boolean _) = (case col_data_type c of T_Boolean \<Rightarrow> True | _ \<Rightarrow> False)"
| "value_ok c (V_Float _) = (case col_data_type c of T_Float \<Rightarrow> True | _ \<Rightarrow> False)"
| "value_ok c (V_Text s) =
     (case col_data_type c of T_Varchar _ \<Rightarrow> is_str s \<and> length s < 2 ^ 31 | _ \<Rightarrow> False)"
| "value_ok c (V_Blob b) = (case col_data_type c of T_Blob _ \<Rightarrow> length b < 2 ^ 31 | _ \<Rightarrow> False)"
| "value_ok c (V_DateTime _) = (case col_data_type c of T_DateTime \<Rightarrow> True | _ \<Rightarrow> False)"
| "value_ok c (V_Decimal _) = (case col_data_type c of T_Decimal _ _ \<Rightarrow> True | _ \<Rightarrow> False)"

definition record_ok :: "column_definition list \<Rightarrow> 'd record_values \<Rightarrow> bool" where
  "record_ok cols r \<longleftrightarrow> list_all2 value_ok cols r"

definition null_allowed :: "column_definition \<Rightarrow> 'd data_value \<Rightarrow> bool" where
  "null_allowed c v \<longleftrightarrow> (v = V_Null \<longrightarrow> col_is_nullable c)"

lemma null_allowed_simps [simp]:
  "null_allowed c V_Null \<longleftrightarrow> col_is_nullable c"
  "v \<noteq> V_Null \<Longrightarrow> null_allowed c v"
  by (simp_all add: null_allowed_def)

text \<open>The bytes of one value in the fixed part and in the variable part of the record.\<close>

primrec fixed_bytes :: "'d decimal_ops \<Rightarrow> 'd data_value \<Rightarrow> bytes" where
  "fixed_bytes D V_Null = []"
| "fixed_bytes D (V_Int a) = u32_to_le_bytes a"
| "fixed_bytes D (V_BigInt a) = u64_to_le_bytes a"
| "fixed_bytes D (V_Boolean b) = [of_bool b]"
| "fixed_bytes D (V_Float a) = u64_to_le_bytes a"
| "fixed_bytes D (V_Text s) = []"
| "fixed_bytes D (V_Blob b) = []"
| "fixed_bytes D (V_DateTime a) = u64_to_le_bytes a"
| "fixed_bytes D (V_Decimal d) = dec_serialize D d"

primrec var_data :: "'d data_value \<Rightarrow> bytes list" where
  "var_data V_Null = []"
| "var_data (V_Int a) = []"
| "var_data (V_BigInt a) = []"
| "var_data (V_Boolean b) = []"
| "var_data (V_Float a) = []"
| "var_data (V_Text s) = [as_bytes s]"
| "var_data (V_Blob b) = [b]"
| "var_data (V_DateTime a) = []"
| "var_data (V_Decimal d) = []"

definition prefixed :: "bytes \<Rightarrow> bytes" where
  "prefixed b = u32_to_le_bytes (of_nat (length b)) @ b"

definition fixed_part :: "'d decimal_ops \<Rightarrow> 'd record_values \<Rightarrow> bytes" where
  "fixed_part D r = concat (map (fixed_bytes D) r)"

definition var_parts :: "'d record_values \<Rightarrow> bytes list" where
  "var_parts r = concat (map var_data r)"

definition var_part :: "'d record_values \<Rightarrow> bytes" where
  "var_part r = concat (map prefixed (var_parts r))"

text \<open>The null bitmap: bit \<open>b\<close> of byte \<open>k\<close> says that value \<open>8 * k + b\<close> is null.\<close>

definition bitmap_byte :: "(nat \<Rightarrow> bool) \<Rightarrow> nat \<Rightarrow> u8" where
  "bitmap_byte f k = horner_sum of_bool 2 (map (\<lambda>b. f (8 * k + b)) [0..<8])"

definition nulls :: "'d record_values \<Rightarrow> nat \<Rightarrow> bool" where
  "nulls r i \<longleftrightarrow> i < length r \<and> r ! i = V_Null"

definition null_bitmap_of :: "nat \<Rightarrow> 'd record_values \<Rightarrow> bytes" where
  "null_bitmap_of n r = map (bitmap_byte (nulls r)) [0..<n]"

text \<open>The format as one expression: what \<open>serialize\<close> should produce.\<close>

definition record_layout :: "'d decimal_ops \<Rightarrow> 'd record_values \<Rightarrow> bytes" where
  "record_layout D r = null_bitmap_of ((length r + 7) div 8) r @ fixed_part D r @ var_part r"

lemma parts_simps [simp]:
  "fixed_part D [] = []" "var_parts [] = []" "var_part [] = []"
  "fixed_part D (v # r) = fixed_bytes D v @ fixed_part D r"
  "var_parts (v # r) = var_data v @ var_parts r"
  "fixed_part D (r @ s) = fixed_part D r @ fixed_part D s"
  "var_parts (r @ s) = var_parts r @ var_parts s"
  "var_part (r @ s) = var_part r @ var_part s"
  "var_part (v # r) = concat (map prefixed (var_data v)) @ var_part r"
  by (simp_all add: fixed_part_def var_parts_def var_part_def)

lemma length_prefixed [simp]: "length (prefixed b) = 4 + length b"
  by (simp add: prefixed_def)

lemma length_null_bitmap [simp]: "length (null_bitmap_of n r) = n"
  by (simp add: null_bitmap_of_def)

section \<open>The null bitmap\<close>

lemma bit_bitmap_byte: "bit (bitmap_byte f k) b \<longleftrightarrow> b < 8 \<and> f (8 * k + b)"
  by (auto simp: bitmap_byte_def bit_horner_sum_bit_word_iff)

lemma nulls_append:
  "nulls (ps @ [v]) i \<longleftrightarrow> (if i = length ps then v = V_Null else nulls ps i)"
  by (auto simp: nulls_def nth_append)

lemma null_bitmap_skip:
  "v \<noteq> V_Null \<Longrightarrow> null_bitmap_of n (ps @ [v]) = null_bitmap_of n ps"
proof -
  assume "v \<noteq> V_Null"
  then have "nulls (ps @ [v]) = nulls ps" by (intro ext) (simp add: nulls_append, simp add: nulls_def)
  then show ?thesis by (simp add: null_bitmap_of_def)
qed

lemma bitmap_bit_set:
  "bitmap_byte (nulls ps) (length ps div 8) OR push_bit (length ps mod 8) 1 =
   bitmap_byte (nulls (ps @ [V_Null])) (length ps div 8)"
proof (rule bit_eqI)
  fix b
  have "8 * (length ps div 8) + b = length ps \<longleftrightarrow> b = length ps mod 8"
    using div_mult_mod_eq [of "length ps" 8] by (simp add: mult.commute) presburger
  then show "bit (bitmap_byte (nulls ps) (length ps div 8) OR push_bit (length ps mod 8) 1) b \<longleftrightarrow>
      bit (bitmap_byte (nulls (ps @ [V_Null])) (length ps div 8)) b"
    by (auto simp: bit_or_iff bit_bitmap_byte nulls_append bit_exp_iff)
qed

lemma bitmap_byte_other:
  "k \<noteq> length ps div 8 \<Longrightarrow> bitmap_byte (nulls (ps @ [v])) k = bitmap_byte (nulls ps) k"
  by (rule bit_eqI) (auto simp: bit_bitmap_byte nulls_append)

lemma null_bitmap_set:
  assumes "length ps div 8 < n"
  shows "(null_bitmap_of n ps)[length ps div 8 :=
      null_bitmap_of n ps ! (length ps div 8) OR push_bit (length ps mod 8) 1] =
    null_bitmap_of n (ps @ [V_Null])"
  using assms bitmap_bit_set [of ps]
  by (intro nth_equalityI) (auto simp: null_bitmap_of_def nth_list_update bitmap_byte_other)

lemma is_null_bitmap:
  assumes "i < 8 * n"
  shows "is_col_value_null (null_bitmap_of n r) i = Some (nulls r i)"
proof -
  have i: "i div 8 < n" "8 * (i div 8) + i mod 8 = i" using assms by auto
  have "bitmap_byte (nulls r) (i div 8) AND push_bit (i mod 8) 1 \<noteq> 0 \<longleftrightarrow>
      bit (bitmap_byte (nulls r) (i div 8)) (i mod 8)"
    by (simp add: bit_iff_and_push_bit_not_eq_0)
  then show ?thesis
    using i by (simp add: is_col_value_null_def null_bitmap_of_def bit_bitmap_byte)
qed
section \<open>One value\<close>

lemma value_ok_fixed:
  assumes "value_ok c v" and "v \<noteq> V_Null" and "get_fixed_size (col_data_type c) = Some n"
    and "decimal_laws D"
  shows "length (fixed_bytes D v) = n" and "var_data v = []"
    and "is_fixed_size (col_data_type c)" and "is_fixed_type c"
    and "off + n \<le> length bytes \<Longrightarrow>
      serialize_fixed D bytes off n v = Some (Ok (put bytes off (fixed_bytes D v)))"
    and "off + n \<le> length bytes \<Longrightarrow> range_of bytes off n = fixed_bytes D v \<Longrightarrow>
      deserialize_fixed_sized_col_value D c bytes off n = Some (Ok v)"
  using assms
  by (cases v; auto simp: decimal_laws_def serialize_fixed_def copy_from_slice_ok set_index_def
      list_update_put is_fixed_type_def deserialize_fixed_sized_col_value_def to_array_def
      split: primitive_data_type.splits)+

lemma value_ok_var:
  assumes "value_ok c v" and "v \<noteq> V_Null" and "get_fixed_size (col_data_type c) = None"
  obtains b where "var_data v = [b]" and "fixed_bytes D v = []" and "length b < 2 ^ 31"
    and "\<not> is_fixed_size (col_data_type c)" and "\<not> is_fixed_type c"
    and "\<And>bytes off. serialize_variable bytes off (length b) v =
      map_option Ok (write_variable bytes off (length b) b)"
    and "\<And>rest. deserialize_variable_sized_col_value c (b @ rest) (of_nat (length b)) = Some (Ok v)"
  using assms
  by (cases v; auto simp: serialize_variable_def is_fixed_type_def
      deserialize_variable_sized_col_value_def i32_as_usize_nonneg range_of_def from_utf8_as_bytes
      split: primitive_data_type.splits)

lemma write_variable_put:
  assumes "off + 4 + length b \<le> length bytes"
  shows "write_variable bytes off (length b) b = Some (put bytes off (prefixed b))"
proof -
  let ?l = "u32_to_le_bytes (of_nat (length b))"
  have "copy_from_slice bytes off (off + 4) ?l = Some (put bytes off ?l)"
    using assms by (intro copy_from_slice_ok) auto
  moreover have "copy_from_slice (put bytes off ?l) (off + 4) (off + 4 + length b) b =
      Some (put (put bytes off ?l) (off + 4) b)"
    using assms by (intro copy_from_slice_ok) auto
  moreover have "put (put bytes off ?l) (off + length ?l) b = put bytes off (?l @ b)"
    using assms by (intro put_put_adjacent) simp
  ultimately show ?thesis by (simp add: write_variable_def prefixed_def)
qed

section \<open>Serialization produces the layout\<close>

lemma record_size_loop_ok:
  assumes "record_ok cs vs" and "decimal_laws D"
  shows "record_size_loop cs (length ps) (ps @ vs) (t, s, f) =
    Some (t + length (fixed_part D vs) + length (var_part vs), s @ map length (var_parts vs),
      f + length (fixed_part D vs))"
  using assms(1) unfolding record_ok_def
proof (induction cs vs arbitrary: ps t s f rule: list_all2_induct)
  case Nil
  then show ?case by simp
next
  case (Cons c cs v vs)
  note IH = Cons.IH [of "ps @ [v]", simplified]
  show ?case
  proof (cases "v = V_Null")
    case True
    show ?thesis using IH by (simp add: True)
  next
    case nn: False
    show ?thesis
    proof (cases "get_fixed_size (col_data_type c)")
      case None
      with Cons.hyps(1) nn obtain b where "var_data v = [b]" "fixed_bytes D v = []"
        by (rule value_ok_var)
      then show ?thesis using None nn IH [of "t + 4 + length b" "s @ [length b]" f] Cons.hyps(1)
        by (cases v) (auto simp: add_ac)
    next
      case (Some n)
      then show ?thesis
        using nn value_ok_fixed(1,2) [OF Cons.hyps(1) nn Some assms(2)] by (simp add: IH)
    qed
  qed
qed

lemma bitmap_byte_empty: "bitmap_byte (nulls []) k = 0"
  by (rule bit_eqI) (simp add: bit_bitmap_byte nulls_def)

lemma null_bitmap_Nil: "null_bitmap_of n [] = replicate n 0"
  by (rule nth_equalityI) (auto simp: null_bitmap_of_def bitmap_byte_empty)

text \<open>Writing into a stretch of zeros.\<close>

lemma put_zeros:
  "length src \<le> n \<Longrightarrow> off = length A \<Longrightarrow>
   put (A @ replicate n 0 @ B) off src = A @ src @ replicate (n - length src) 0 @ B"
  by (simp add: put_def)

text \<open>One column of the loop.\<close>

lemma serialize_step:
  assumes ok: "value_ok c v" and D: "decimal_laws D" and i: "length ps div 8 < nb"
    and R: "R = ps @ v # vs"
  shows "serialize_loop D (map length (var_parts R)) (length ps) ((c, v) # cvs)
      (null_bitmap_of nb ps @ fixed_part D ps @ replicate (length (fixed_part D (v # vs))) 0 @
       var_part ps @ replicate (length (var_part (v # vs))) 0)
      (nb + length (fixed_part D ps)) (nb + length (fixed_part D R) + length (var_part ps))
      (length (var_parts ps)) =
    serialize_loop D (map length (var_parts R)) (Suc (length ps)) cvs
      (null_bitmap_of nb (ps @ [v]) @ fixed_part D (ps @ [v]) @ replicate (length (fixed_part D vs)) 0 @
       var_part (ps @ [v]) @ replicate (length (var_part vs)) 0)
      (nb + length (fixed_part D (ps @ [v]))) (nb + length (fixed_part D R) + length (var_part (ps @ [v])))
      (length (var_parts (ps @ [v])))"
proof -
  consider "v = V_Null" | n where "v \<noteq> V_Null" "get_fixed_size (col_data_type c) = Some n"
    | "v \<noteq> V_Null" "get_fixed_size (col_data_type c) = None" by fastforce
  then show ?thesis
  proof cases
    case 1
    let ?rest = "fixed_part D ps @ replicate (length (fixed_part D (v # vs))) 0 @
      var_part ps @ replicate (length (var_part (v # vs))) 0"
    have "index (null_bitmap_of nb ps @ ?rest) (length ps div 8) =
        Some (null_bitmap_of nb ps ! (length ps div 8))"
      using i by (simp add: nth_append)
    moreover have "set_index (null_bitmap_of nb ps @ ?rest) (length ps div 8)
        (null_bitmap_of nb ps ! (length ps div 8) OR push_bit (length ps mod 8) 1) =
        Some (null_bitmap_of nb (ps @ [V_Null]) @ ?rest)"
      using i null_bitmap_set [OF i] by (simp add: set_index_def list_update_append)
    ultimately show ?thesis using 1 by simp
  next
    case 2
    note fx = value_ok_fixed [OF ok 2 D] and skip = null_bitmap_skip [OF 2(1), of nb ps]
    let ?A = "null_bitmap_of nb ps @ fixed_part D ps"
    let ?B = "var_part ps @ replicate (length (var_part vs)) 0"
    have "put (?A @ replicate (n + length (fixed_part D vs)) 0 @ ?B)
        (nb + length (fixed_part D ps)) (fixed_bytes D v) =
      ?A @ fixed_bytes D v @ replicate (length (fixed_part D vs)) 0 @ ?B"
      using fx(1) by (subst put_zeros) simp_all
    then have "serialize_fixed D (?A @ replicate (n + length (fixed_part D vs)) 0 @ ?B)
        (nb + length (fixed_part D ps)) n v =
      Some (Ok (?A @ fixed_bytes D v @ replicate (length (fixed_part D vs)) 0 @ ?B))"
      by (subst fx(5)) simp_all
    then show ?thesis using 2 fx(1,2) by (simp add: skip add.assoc)
  next
    case 3
    from value_ok_var [OF ok 3] obtain b where
      v: "var_data v = [b]" "fixed_bytes D v = []" and
      ser: "\<And>bytes off. serialize_variable bytes off (length b) v =
        map_option Ok (write_variable bytes off (length b) b)"
      by metis
    let ?A = "null_bitmap_of nb ps @ fixed_part D ps @ replicate (length (fixed_part D vs)) 0 @
      var_part ps"
    have "write_variable (?A @ replicate (4 + length b + length (var_part vs)) 0) (length ?A)
        (length b) b =
      Some (?A @ prefixed b @ replicate (length (var_part vs)) 0)"
      using put_zeros [of "prefixed b" "4 + length b + length (var_part vs)" _ ?A "[]"]
      by (subst write_variable_put) simp_all
    moreover have "index (map length (var_parts R)) (length (var_parts ps)) = Some (length b)"
      using v by (simp add: R nth_append)
    ultimately show ?thesis using 3 v by (simp add: null_bitmap_skip [OF 3(1), of nb ps] ser add.assoc R)
  qed
qed

lemma serialize_loop_ok:
  assumes "record_ok cs vs" and "decimal_laws D"
    and "length ps + length vs \<le> 8 * nb"
  shows "serialize_loop D (map length (var_parts (ps @ vs))) (length ps) (zip cs vs)
      (null_bitmap_of nb ps @ fixed_part D ps @ replicate (length (fixed_part D vs)) 0 @
       var_part ps @ replicate (length (var_part vs)) 0)
      (nb + length (fixed_part D ps))
      (nb + length (fixed_part D (ps @ vs)) + length (var_part ps))
      (length (var_parts ps)) =
    Some (Ok (null_bitmap_of nb (ps @ vs) @ fixed_part D (ps @ vs) @ var_part (ps @ vs)))"
  using assms(1,3) unfolding record_ok_def
proof (induction cs vs arbitrary: ps rule: list_all2_induct)
  case Nil
  then show ?case by simp
next
  case (Cons c cs v vs)
  have "length ps div 8 < nb" using Cons.prems by simp
  then show ?case
    using serialize_step [OF Cons.hyps(1) assms(2) _ refl, of ps nb vs "zip cs vs"] Cons.IH [of "ps @ [v]"] Cons.prems
    by simp
qed

lemma serialize_ok:
  assumes "decimal_laws D" and "record_ok cols r"
  shows "serialize D cols r = Some (Ok (record_layout D r))"
proof -
  let ?nb = "(length r + 7) div 8"
  have len: "length cols = length r" using assms(2) by (simp add: record_ok_def list_all2_lengthD)
  have size: "calculate_serialized_record_size cols r =
      Some (?nb + length (fixed_part D r) + length (var_part r), map length (var_parts r),
        length (fixed_part D r))"
    using record_size_loop_ok [OF assms(2,1), of "[]"]
    by (simp add: calculate_serialized_record_size_def get_null_bitmap_size_def len)
  have "length r \<le> 8 * ?nb" by presburger
  then show ?thesis
    using serialize_loop_ok [OF assms(2,1), of "[]" ?nb]
    by (simp add: null_bitmap_Nil serialize_def size get_null_bitmap_size_def len record_layout_def
        replicate_add add.assoc Let_def)
qed

section \<open>Reading the layout back\<close>

text \<open>
  The two offsets of the deserialization loops when the values \<open>ps\<close> of the record \<open>r\<close> have been read.
\<close>

definition fixed_off :: "'d decimal_ops \<Rightarrow> usize \<Rightarrow> 'd record_values \<Rightarrow> usize" where
  "fixed_off D nb ps = nb + length (fixed_part D ps)"

definition var_off :: "'d decimal_ops \<Rightarrow> usize \<Rightarrow> 'd record_values \<Rightarrow> 'd record_values \<Rightarrow> usize" where
  "var_off D nb r ps = nb + length (fixed_part D r) + length (var_part ps)"

lemma range_of_append: "off = length A \<Longrightarrow> n = length b \<Longrightarrow> range_of (A @ b @ C) off n = b"
  by (simp add: range_of_def)

lemma layout_fixed:
  assumes "value_ok c v" and "v \<noteq> V_Null" and "get_fixed_size (col_data_type c) = Some n"
    and "decimal_laws D" and "length B = nb"
  shows "deserialize_fixed_sized_col_value D c (B @ fixed_part D (ps @ v # vs) @ W) (fixed_off D nb ps) n =
      Some (Ok v)"
    and "fixed_off D nb (ps @ [v]) = fixed_off D nb ps + n"
    and "var_off D nb r (ps @ [v]) = var_off D nb r ps"
proof -
  note fx = value_ok_fixed [OF assms(1-4)]
  have "range_of ((B @ fixed_part D ps) @ fixed_bytes D v @ (fixed_part D vs @ W)) (fixed_off D nb ps) n =
      fixed_bytes D v"
    using fx(1) assms(5) by (intro range_of_append) (simp_all add: fixed_off_def)
  then show "deserialize_fixed_sized_col_value D c (B @ fixed_part D (ps @ v # vs) @ W)
      (fixed_off D nb ps) n = Some (Ok v)"
    using fx(1) assms(5) by (intro fx(6)) (simp_all add: fixed_off_def)
  show "fixed_off D nb (ps @ [v]) = fixed_off D nb ps + n"
    and "var_off D nb r (ps @ [v]) = var_off D nb r ps"
    using fx(1,2) by (simp_all add: fixed_off_def var_off_def)
qed

lemma from_le_length: "n < 2 ^ 31 \<Longrightarrow> i32_as_usize (of_nat n) = n"
  by (simp add: i32_as_usize_nonneg)

lemma layout_variable:
  assumes "value_ok c v" and "v \<noteq> V_Null" and "get_fixed_size (col_data_type c) = None"
    and "r = ps @ v # vs" and "length B = nb"
    and "length (B @ fixed_part D r @ var_part r) < 2 ^ 63"
  obtains sz rest where
    "read_length (B @ fixed_part D r @ var_part r) (var_off D nb r ps) = Some (sz, rest)"
    and "deserialize_variable_sized_col_value c rest sz = Some (Ok v)"
    and "checked_add (var_off D nb r ps + 4) (i32_as_usize sz) = Some (var_off D nb r (ps @ [v]))"
    and "fixed_off D nb (ps @ [v]) = fixed_off D nb ps"
    and "\<not> is_fixed_size (col_data_type c)" and "\<not> is_fixed_type c"
proof -
  from value_ok_var [OF assms(1-3)] obtain b where
    b: "var_data v = [b]" "fixed_bytes D v = []" "length b < 2 ^ 31" and
    nf: "\<not> is_fixed_size (col_data_type c)" "\<not> is_fixed_type c" and
    de: "\<And>rest. deserialize_variable_sized_col_value c (b @ rest) (of_nat (length b)) = Some (Ok v)"
    by metis
  let ?A = "B @ fixed_part D r @ var_part ps" and ?rest = "b @ var_part vs"
  have off: "var_off D nb r ps = length ?A" using assms(5) by (simp add: var_off_def)
  have "B @ fixed_part D r @ var_part r = ?A @ u32_to_le_bytes (of_nat (length b)) @ ?rest"
    using b(1) by (simp add: assms(4) prefixed_def)
  then have "read_length (B @ fixed_part D r @ var_part r) (var_off D nb r ps) =
      Some (of_nat (length b), ?rest)"
    by (simp add: read_length_def off range_of_def split_at_def)
  moreover have "checked_add (var_off D nb r ps + 4) (i32_as_usize (of_nat (length b))) =
      Some (var_off D nb r (ps @ [v]))"
    using assms(4-6) b by (simp add: from_le_length var_off_def)
  moreover have "fixed_off D nb (ps @ [v]) = fixed_off D nb ps" using b(2) by (simp add: fixed_off_def)
  ultimately show thesis using that de nf by blast
qed

lemma null_offsets:
  "fixed_off D nb (ps @ [V_Null]) = fixed_off D nb ps"
  "var_off D nb r (ps @ [V_Null]) = var_off D nb r ps"
  by (simp_all add: fixed_off_def var_off_def)

lemma layout_null:
  "i < 8 * n \<Longrightarrow> length ps = i \<Longrightarrow>
   is_col_value_null (null_bitmap_of n (ps @ v # vs)) i = Some (v = V_Null)"
  by (simp add: is_null_bitmap nulls_def nth_append)

lemma variable_offset_loop_ok:
  assumes "record_ok cs vs" and "decimal_laws D" and "length (ps @ vs) \<le> 8 * nb"
  shows "variable_offset_loop cs (length ps) (null_bitmap_of nb (ps @ vs)) off =
    Some (off + length (fixed_part D vs))"
  using assms(1,3) unfolding record_ok_def
proof (induction cs vs arbitrary: ps off rule: list_all2_induct)
  case Nil
  then show ?case by simp
next
  case (Cons c cs v vs)
  note IH = Cons.IH [of "ps @ [v]", simplified]
  have null: "is_col_value_null (null_bitmap_of nb (ps @ v # vs)) (length ps) = Some (v = V_Null)"
    using Cons.prems by (intro layout_null) simp_all
  show ?case
  proof (cases "v = V_Null")
    case True
    then show ?thesis using null IH Cons.prems by simp
  next
    case nn: False
    show ?thesis
    proof (cases "get_fixed_size (col_data_type c)")
      case None
      with Cons.hyps(1) nn have "fixed_bytes D v = [] \<and> \<not> is_fixed_type c"
        by (metis value_ok_var)
      then show ?thesis using null nn IH Cons.prems by simp
    next
      case (Some n)
      then show ?thesis
        using null nn value_ok_fixed(1,4) [OF Cons.hyps(1) nn Some assms(2)] IH Cons.prems by simp
    qed
  qed
qed

text \<open>Reading one value back.\<close>

lemma deserialize_col_layout:
  assumes ok: "value_ok c v" and nn: "v \<noteq> V_Null" and D: "decimal_laws D" and r: "r = ps @ v # vs"
    and L: "L = null_bitmap_of nb r @ fixed_part D r @ var_part r" and "length L < 2 ^ 63"
  shows "deserialize_col_value D c L (fixed_off D nb ps) (var_off D nb r ps) =
    Some (v, fixed_off D nb (ps @ [v]), var_off D nb r (ps @ [v]))"
proof (cases "get_fixed_size (col_data_type c)")
  case None
  note lv = layout_variable [OF ok nn None r length_null_bitmap assms(6) [unfolded L], folded L]
  obtain sz rest where
    "read_length L (var_off D nb r ps) = Some (sz, rest)"
    "deserialize_variable_sized_col_value c rest sz = Some (Ok v)"
    "checked_add (var_off D nb r ps + 4) (i32_as_usize sz) = Some (var_off D nb r (ps @ [v]))"
    "fixed_off D nb (ps @ [v]) = fixed_off D nb ps"
    "\<not> is_fixed_size (col_data_type c)"
    by (rule lv)
  then show ?thesis by (simp del: checked_add_Some add: deserialize_col_value_def unwrap_def)
next
  case (Some n)
  note fx = layout_fixed [OF ok nn Some D length_null_bitmap]
  have "deserialize_fixed_sized_col_value D c L (fixed_off D nb ps) n = Some (Ok v)"
    using fx(1) [of nb r ps vs "var_part r"] r by (simp add: L)
  then show ?thesis
    using Some fx(2,3) value_ok_fixed(3) [OF ok nn Some D]
    by (simp add: deserialize_col_value_def unwrap_def)
qed

lemma deserialize_loop_ok:
  assumes "record_ok cs vs" and "decimal_laws D" and "r = ps @ vs" and "length r \<le> 8 * nb"
    and L: "L = null_bitmap_of nb r @ fixed_part D r @ var_part r" and "length L < 2 ^ 63"
  shows "deserialize_loop D (null_bitmap_of nb r) L (length ps) cs
      (ps @ replicate (length vs) V_Null) (fixed_off D nb ps) (var_off D nb r ps) =
    Some (if list_all2 null_allowed cs vs then Ok r else Err NullValueForNonNullColumnFound)"
  using assms(1,3) unfolding record_ok_def
proof (induction cs vs arbitrary: ps rule: list_all2_induct)
  case Nil
  then show ?case by simp
next
  case (Cons c cs v vs)
  have IH: "deserialize_loop D (null_bitmap_of nb r) L (Suc (length ps)) cs
      (ps @ v # replicate (length vs) V_Null) (fixed_off D nb (ps @ [v])) (var_off D nb r (ps @ [v])) =
    Some (if list_all2 null_allowed cs vs then Ok r else Err NullValueForNonNullColumnFound)"
    using Cons.IH [of "ps @ [v]"] Cons.prems by simp
  have null: "is_col_value_null (null_bitmap_of nb r) (length ps) = Some (v = V_Null)"
    using layout_null [of "length ps" nb ps v vs] Cons.prems assms(4) by simp
  have set: "set_index (ps @ replicate (length (v # vs)) V_Null) (length ps) v =
      Some (ps @ v # replicate (length vs) V_Null)"
    by (simp add: set_index_def list_update_append)
  show ?case
  proof (cases "v = V_Null")
    case True
    then show ?thesis using null set IH by (simp add: null_offsets)
  next
    case False
    then show ?thesis
      using deserialize_col_layout [OF Cons.hyps(1) False assms(2) Cons.prems(1) L assms(6)] null set IH by simp
  qed
qed

lemma deserialize_layout:
  assumes "decimal_laws D" and "record_ok cols r" and "length (record_layout D r) < 2 ^ 63"
  shows "deserialize D cols (record_layout D r) =
    Some (if list_all2 null_allowed cols r then Ok r else Err NullValueForNonNullColumnFound)"
proof -
  let ?nb = "(length r + 7) div 8"
  have len: "length cols = length r" using assms(2) by (simp add: record_ok_def list_all2_lengthD)
  have fits: "length r \<le> 8 * ?nb" by presburger
  have bm: "range_of (null_bitmap_of ?nb r @ fixed_part D r @ var_part r) 0 ?nb = null_bitmap_of ?nb r"
    by (simp add: range_of_def)
  show ?thesis
    using variable_offset_loop_ok [OF assms(2,1), of "[]" ?nb ?nb]
      deserialize_loop_ok [OF assms(2,1), of r "[]" ?nb] assms(3) fits
    by (simp add: deserialize_def get_null_bitmap_size_def get_variable_length_data_offset_def len bm
        Let_def record_from_vec_def record_layout_def fixed_off_def var_off_def)
qed

section \<open>Reading only the key\<close>

text \<open>The values of the columns named by \<open>pk\<close>, in the order of \<open>pk\<close>.\<close>

definition column_value :: "column_definition list \<Rightarrow> 'd record_values \<Rightarrow> string \<Rightarrow> 'd data_value" where
  "column_value cols r n = the (map_of (zip (map col_name cols) r) n)"

definition key_values :: "string list \<Rightarrow> column_definition list \<Rightarrow> 'd record_values \<Rightarrow> 'd key" where
  "key_values pk cols r = map (column_value cols r) pk"

text \<open>
  After the columns in \<open>S\<close> the loop has counted the key columns among them and has their values in
  place, in the order of the key.
\<close>

definition key_count :: "string list \<Rightarrow> string set \<Rightarrow> nat" where
  "key_count pk S = length (filter (\<lambda>n. n \<in> S) pk)"

definition key_row :: "(string \<Rightarrow> 'd data_value) \<Rightarrow> string list \<Rightarrow> string set \<Rightarrow> 'd data_value list" where
  "key_row val pk S = map (\<lambda>n. if n \<in> S then val n else V_Null) pk"

lemma key_count_empty: "key_count pk {} = 0"
  by (simp add: key_count_def)

lemma key_count_insert:
  "distinct pk \<Longrightarrow> n \<notin> S \<Longrightarrow> key_count pk (insert n S) = key_count pk S + (if n \<in> set pk then 1 else 0)"
  unfolding key_count_def by (induction pk) auto

lemma key_count_all: "length pk \<le> key_count pk S \<longleftrightarrow> set pk \<subseteq> S"
proof (cases "set pk \<subseteq> S")
  case True
  then have "filter (\<lambda>n. n \<in> S) pk = pk" by (intro filter_True) auto
  with True show ?thesis by (simp add: key_count_def)
next
  case False
  then obtain x where "x \<in> set pk" "x \<notin> S" by auto
  then have "length (filter (\<lambda>n. n \<in> S) pk) < length pk" by (intro length_filter_less) auto
  with False show ?thesis by (simp add: key_count_def)
qed

lemma key_row_empty: "key_row val pk {} = replicate (length pk) V_Null"
  by (simp add: key_row_def map_replicate_const)

lemma key_row_all: "set pk \<subseteq> S \<Longrightarrow> key_row val pk S = map val pk"
  unfolding key_row_def by (intro map_cong) auto

lemma key_row_skip: "n \<notin> set pk \<Longrightarrow> key_row val pk (insert n S) = key_row val pk S"
  unfolding key_row_def by (intro map_cong) auto

lemma key_row_update:
  "distinct pk \<Longrightarrow> j < length pk \<Longrightarrow> pk ! j = n \<Longrightarrow> (key_row val pk S)[j := val n] = key_row val pk (insert n S)"
  unfolding key_row_def by (intro nth_equalityI) (auto simp: nth_list_update nth_eq_iff_index_eq)

lemma position_name:
  "n \<in> col_name ` set ks \<Longrightarrow>
   \<exists>j < length ks. position (\<lambda>k. col_name k = n) ks = Some j \<and> col_name (ks ! j) = n"
proof (induction ks)
  case (Cons k ks)
  then show ?case by (cases "col_name k = n") fastforce+
qed simp

lemma key_row_slot:
  assumes "distinct (map col_name ks)" and "n \<in> col_name ` set ks"
  shows "\<exists>j. position (\<lambda>k. col_name k = n) ks = Some j \<and>
    set_index (key_row val (map col_name ks) S) j (val n) = Some (key_row val (map col_name ks) (insert n S))"
proof -
  obtain j where j: "position (\<lambda>k. col_name k = n) ks = Some j" "j < length ks" "map col_name ks ! j = n"
    using position_name [OF assms(2)] by auto
  have "(key_row val (map col_name ks) S)[j := val n] = key_row val (map col_name ks) (insert n S)"
    using key_row_update [OF assms(1) _ j(3)] j(2) by simp
  then show ?thesis using j(1,2) by (simp add: set_index_def key_row_def)
qed

text \<open>One column of the loop over the key.\<close>

lemma deserialize_key_step:
  assumes ok: "value_ok c v" and D: "decimal_laws D" and r: "r = ps @ v # vs" and "length r \<le> 8 * nb"
    and L: "L = null_bitmap_of nb r @ fixed_part D r @ var_part r" and small: "length L < 2 ^ 63"
    and d: "distinct (map col_name key_cols)" and new: "col_name c \<notin> S" and v: "val (col_name c) = v"
    and pk: "pk = map col_name key_cols" and more: "\<not> set pk \<subseteq> S"
  shows "deserialize_key_loop D key_cols (null_bitmap_of nb r) L (length ps) (c # cs)
      (key_count pk S) (key_row val pk S) (fixed_off D nb ps) (var_off D nb r ps) =
    (if col_name c \<in> set pk \<and> v = V_Null then Some (Err NullPrimaryKeyColumnValue)
     else deserialize_key_loop D key_cols (null_bitmap_of nb r) L (Suc (length ps)) cs
       (key_count pk (insert (col_name c) S)) (key_row val pk (insert (col_name c) S))
       (fixed_off D nb (ps @ [v])) (var_off D nb r (ps @ [v])))"
proof -
  let ?n = "col_name c"
  have more: "\<not> length key_cols \<le> key_count pk S" using more key_count_all [of pk S] by (simp add: pk)
  have null: "is_col_value_null (null_bitmap_of nb r) (length ps) = Some (v = V_Null)"
    using layout_null [of "length ps" nb ps v vs] assms(3,4) by simp
  have key: "list_ex (\<lambda>k. col_name k = ?n) key_cols \<longleftrightarrow> ?n \<in> set pk" unfolding pk list_ex_iff by (simp add: image_iff) metis
  have cnt: "key_count pk (insert ?n S) = key_count pk S + (if ?n \<in> set pk then 1 else 0)"
    using key_count_insert new d pk by blast
  have slot: "?n \<in> set pk \<Longrightarrow> \<exists>j. position (\<lambda>k. col_name k = ?n) key_cols = Some j \<and>
      set_index (key_row val pk S) j v = Some (key_row val pk (insert ?n S))"
    using key_row_slot [OF d, of ?n val S] v by (simp add: pk)
  note unroll = deserialize_key_loop.simps(2) [of D key_cols "null_bitmap_of nb r" L "length ps" c cs]
    key null cnt Let_def unwrap_def
  consider "v = V_Null" | n where "v \<noteq> V_Null" "get_fixed_size (col_data_type c) = Some n"
    | "v \<noteq> V_Null" "get_fixed_size (col_data_type c) = None" by fastforce
  then show ?thesis
  proof cases
    case 1
    then show ?thesis using slot more key_row_skip [of ?n pk val S]
      by (cases "?n \<in> set pk") (auto simp: unroll null_offsets)
  next
    case 2
    note fx = layout_fixed [OF ok 2 D length_null_bitmap]
    have "deserialize_fixed_sized_col_value D c L (fixed_off D nb ps) n = Some (Ok v)"
      using fx(1) [of nb r ps vs "var_part r"] r by (simp add: L)
    then show ?thesis
      using 2 fx(2,3) value_ok_fixed(4) [OF ok 2 D] slot more key_row_skip [of ?n pk val S]
      by (cases "?n \<in> set pk") (auto simp: unroll)
  next
    case 3
    note lv = layout_variable [OF ok 3 r length_null_bitmap small [unfolded L], folded L]
    obtain sz rest where
      "read_length L (var_off D nb r ps) = Some (sz, rest)"
      "deserialize_variable_sized_col_value c rest sz = Some (Ok v)"
      "checked_add (var_off D nb r ps + 4) (i32_as_usize sz) = Some (var_off D nb r (ps @ [v]))"
      "fixed_off D nb (ps @ [v]) = fixed_off D nb ps" "\<not> is_fixed_type c"
      by (rule lv)
    then show ?thesis using 3 slot more key_row_skip [of ?n pk val S]
      by (cases "?n \<in> set pk") (auto simp: unroll simp del: checked_add_Some)
  qed
qed

lemma deserialize_key_loop_ok:
  assumes "record_ok cs vs" and D: "decimal_laws D" and "r = ps @ vs" and fits: "length r \<le> 8 * nb"
    and L: "L = null_bitmap_of nb r @ fixed_part D r @ var_part r" and small: "length L < 2 ^ 63"
    and d: "distinct (map col_name key_cols)" and "distinct (map col_name cs)"
    and "S \<inter> col_name ` set cs = {}" and pk: "pk = map col_name key_cols" and "set pk \<subseteq> S \<union> col_name ` set cs"
    and "\<And>n. n \<in> S \<Longrightarrow> n \<in> set pk \<Longrightarrow> val n \<noteq> V_Null"
    and "list_all2 (\<lambda>c v. val (col_name c) = v) cs vs"
  shows "deserialize_key_loop D key_cols (null_bitmap_of nb r) L (length ps) cs
      (key_count pk S) (key_row val pk S) (fixed_off D nb ps) (var_off D nb r ps) =
    Some (if V_Null \<in> val ` set pk then Err NullPrimaryKeyColumnValue else Ok (map val pk))"
  using assms(1,3,8,9,11-13) unfolding record_ok_def
proof (induction cs vs arbitrary: ps S rule: list_all2_induct)
  case Nil
  then show ?case using key_row_all [of pk S val] by fastforce
next
  case (Cons c cs v vs)
  let ?n = "col_name c"
  show ?case
  proof (cases "set pk \<subseteq> S")
    case True
    moreover have "length key_cols \<le> key_count pk S" using True key_count_all [of pk S] by (simp add: pk)
    moreover have "V_Null \<notin> val ` set pk" using True Cons.prems(5) by fastforce
    ultimately show ?thesis using key_row_all [of pk S val] by simp
  next
    case more: False
    have nS: "?n \<notin> S" and val: "val ?n = v" using Cons.prems by auto
    note step = deserialize_key_step [where val = val and S = S and c = c, OF Cons.hyps(1) D Cons.prems(1) fits L small d nS val pk more, of cs]
    show ?thesis
    proof (cases "?n \<in> set pk \<and> v = V_Null")
      case True
      then have "V_Null \<in> val ` set pk" using val by force
      then show ?thesis using step True by simp
    next
      case False
      then have nonnull: "val m \<noteq> V_Null" if "m \<in> insert ?n S" "m \<in> set pk" for m
        using Cons.prems(5) [of m] that val by auto
      have "r = (ps @ [v]) @ vs" "distinct (map col_name cs)" "insert ?n S \<inter> col_name ` set cs = {}"
        "set pk \<subseteq> insert ?n S \<union> col_name ` set cs" "list_all2 (\<lambda>c v. val (col_name c) = v) cs vs"
        using Cons.prems(1-4,6) by auto
      from Cons.IH [OF this(1-4) nonnull this(5)] show ?thesis using step False by simp
    qed
  qed
qed

lemma column_value_nth:
  assumes "distinct (map col_name cols)" and "length cols = length r"
  shows "list_all2 (\<lambda>c v. column_value cols r (col_name c) = v) cols r"
proof -
  have "map_of (zip (map col_name cols) r) (col_name (cols ! i)) = Some (r ! i)"
    if "i < length r" for i
    using map_of_zip_nth [of "map col_name cols" r i] assms that by simp
  with assms(2) show ?thesis by (simp add: list_all2_conv_all_nth column_value_def)
qed

text \<open>
  C12: a record that fits its columns is serialized without error or panic into its null bitmap,
  its fixed-length and its length-prefixed values, and reading the bytes gives the record back
  unchanged, unless a column that is not nullable holds a null: then reading reports exactly that.
\<close>

theorem deserialize_serialize:
  assumes "decimal_laws D" and "record_ok cols r" and "length (record_layout D r) < 2 ^ 63"
  shows "serialize D cols r = Some (Ok (record_layout D r)) \<and>
    deserialize D cols (record_layout D r) =
      Some (if list_all2 null_allowed cols r then Ok r else Err NullValueForNonNullColumnFound)"
  using serialize_ok [OF assms(1,2)] deserialize_layout [OF assms] by (rule conjI)

definition example_record :: "example_dec record_values" where
  "example_record = [V_Int 7, V_Text ''Bob'']"

lemma example_record_fits:
  "record_ok (td_columns example_table) example_record"
  "list_all2 null_allowed (td_columns example_table) example_record"
  "length (record_layout example_decimal example_record) < 2 ^ 63"
  by (simp_all add: record_ok_def example_table_def example_record_def is_str_def null_allowed_def
      record_layout_def)

theorem deserialize_serialize_witness:
  "serialize example_decimal (td_columns example_table) example_record =
     Some (Ok (record_layout example_decimal example_record)) \<and>
   deserialize example_decimal (td_columns example_table)
     (record_layout example_decimal example_record) = Some (Ok example_record)"
  using deserialize_serialize [OF example_decimal_laws example_record_fits(1,3)]
  by (simp only: example_record_fits(2) if_True)

lemma deserialize_key_of_layout:
  assumes "decimal_laws D" and "primary_key_ok t pk" and "record_ok (td_columns t) r"
    and "length (record_layout D r) < 2 ^ 63"
  shows "deserialize_primary_key D t (record_layout D r) =
    Some (if V_Null \<in> set (key_values pk (td_columns t) r) then Err NullPrimaryKeyColumnValue
          else Ok (key_values pk (td_columns t) r))"
proof -
  let ?nb = "(length r + 7) div 8" and ?cols = "td_columns t"
  have len: "length ?cols = length r" using assms(3) by (simp add: record_ok_def list_all2_lengthD)
  have fits: "length r \<le> 8 * ?nb" by presburger
  obtain key_cols where k: "get_primary_key_columns t = Some (Some key_cols)"
    "map col_name key_cols = pk" "set key_cols \<subseteq> set ?cols"
    using primary_key_columns_found [OF assms(2)] by blast
  have d: "distinct (map col_name key_cols)" "distinct (map col_name ?cols)"
    using assms(2) k(2) by (auto simp: primary_key_ok_def)
  have bm: "range_of (null_bitmap_of ?nb r @ fixed_part D r @ var_part r) 0 ?nb = null_bitmap_of ?nb r"
    by (simp add: range_of_def)
  have off: "variable_offset_loop ?cols 0 (null_bitmap_of ?nb r) ?nb =
      Some (?nb + length (fixed_part D r))"
    using variable_offset_loop_ok [OF assms(3,1), of "[]" ?nb ?nb] fits by simp
  have names: "set pk \<subseteq> col_name ` set ?cols" using image_mono [OF k(3), of col_name] by (simp add: k(2) [symmetric])
  have loop: "deserialize_key_loop D key_cols (null_bitmap_of ?nb r) (record_layout D r) 0 ?cols 0
      (replicate (length key_cols) V_Null) ?nb (?nb + length (fixed_part D r)) =
    Some (if V_Null \<in> set (key_values pk ?cols r) then Err NullPrimaryKeyColumnValue
          else Ok (key_values pk ?cols r))"
    using deserialize_key_loop_ok [OF assms(3,1) _ fits record_layout_def assms(4) d _ k(2) [symmetric],
        where S = "{}" and ps = "[]" and val = "column_value ?cols r"]
      names column_value_nth [OF d(2) len] arg_cong [OF k(2), of length]
    by (simp add: fixed_off_def var_off_def key_values_def key_count_empty key_row_empty)
  show ?thesis
    using loop off
    by (simp add: deserialize_primary_key_def deserialize_key_def k(1) len bm
        record_layout_def get_variable_length_data_offset_def key_from_vec_def Let_def)
qed

text \<open>
  C20: from the bytes of a record of a table with a well-formed primary key, the key alone is read
  without a panic: the values of the key columns in the order of the key, whatever the order of
  the columns in the table, or the error for a key column that is null.
\<close>

theorem deserialize_primary_key_ok:
  assumes "decimal_laws D" and "primary_key_ok t pk" and "record_ok (td_columns t) r"
    and "length (record_layout D r) < 2 ^ 63"
  shows "deserialize_primary_key D t (record_layout D r) =
    Some (if V_Null \<in> set (key_values pk (td_columns t) r) then Err NullPrimaryKeyColumnValue
          else Ok (key_values pk (td_columns t) r))"
  using assms by (rule deserialize_key_of_layout)

lemma example_primary_key: "primary_key_ok example_table [''id'']"
  by (simp add: primary_key_ok_def example_table_def get_primary_key_constraint_def)

theorem deserialize_primary_key_ok_witness:
  "deserialize_primary_key example_decimal example_table (record_layout example_decimal example_record) =
   Some (Ok [V_Int 7])"
  using deserialize_primary_key_ok [OF example_decimal_laws example_primary_key
      example_record_fits(1,3)]
  by (simp add: key_values_def column_value_def example_table_def example_record_def)

text \<open>
  The compatibility rule of \<open>DataValue\<close> and the serializer disagree: a 32-bit integer is
  declared compatible with a \<open>BIGINT\<close> column, but serializing it panics, because four bytes are
  copied into the eight of the column.
\<close>

lemma serialize_int_in_bigint:
  "is_compatible D (V_Int a) T_BigInt = Some True \<and>
   serialize D [\<lparr>col_name = n, col_data_type = T_BigInt, col_is_nullable = b, col_default_value = d\<rparr>]
     [V_Int a] = None"
  by (simp add: serialize_def calculate_serialized_record_size_def get_null_bitmap_size_def
      serialize_fixed_def copy_from_slice_def)

text \<open>
  On a column of a variable-length type, a value of a type without variable length
  gets no entry in the list of sizes, so serializing it panics instead of reporting the mismatch
  (a fixed-length column reports it).
\<close>

lemma serialize_mismatch:
  "serialize D [\<lparr>col_name = n, col_data_type = T_Varchar l, col_is_nullable = b, col_default_value = d\<rparr>]
     [V_Int a] = None \<and>
   serialize D [\<lparr>col_name = n, col_data_type = T_Int, col_is_nullable = b, col_default_value = d\<rparr>]
     [V_Text s] = Some (Err DataTypeMismatch)"
  by (simp add: serialize_def calculate_serialized_record_size_def get_null_bitmap_size_def
      serialize_fixed_def)

text \<open>What a column can hold: the variant of its type, and a null only if it is nullable.\<close>

lemma from_utf8_str: "from_utf8 bs = Some s \<Longrightarrow> is_str s \<and> length s = length bs"
proof -
  have "unat b mod 256 = unat b" for b :: u8 using unat_u8_less [of b] by simp
  then show "from_utf8 bs = Some s \<Longrightarrow> is_str s \<and> length s = length bs"
    by (auto simp: from_utf8_def is_str_def comp_def split: if_splits)
qed

lemma slice_i32_bound:
  assumes "slice bs 0 (i32_as_usize n) = Some d" and "length bs < 2 ^ 63"
  shows "length d < 2 ^ 31"
proof -
  have l: "i32_as_usize n \<le> length bs" "length d = i32_as_usize n"
    using assms(1) by (auto simp: slice_def range_of_def split: if_splits)
  have "0 \<le> sint n"
  proof (rule ccontr)
    assume "\<not> 0 \<le> sint n"
    then have "sint n mod 2 ^ 64 = sint n + 2 ^ 64"
      using sint_ge [of n] mod_pos_pos_trivial [of "sint n + 2 ^ 64" "2 ^ 64"] by simp
    then show False using l assms(2) sint_ge [of n] by (simp add: i32_as_usize_def)
  qed
  then show ?thesis using l sint_lt [of n] by (simp add: i32_as_usize_def)
qed

lemma deserialize_col_value_typed:
  assumes "deserialize_col_value D c bytes foff voff = Some (v, foff', voff')" and "length bytes < 2 ^ 63"
  shows "value_ok c v \<and> v \<noteq> V_Null"
proof (cases "is_fixed_size (col_data_type c)")
  case True
  then show ?thesis using assms(1)
    by (auto simp: deserialize_col_value_def deserialize_fixed_sized_col_value_def unwrap_def
        split: Option.bind_splits sum.splits primitive_data_type.splits option.splits)
next
  case False
  then obtain n rest res where r: "read_length bytes voff = Some (n, rest)"
    "deserialize_variable_sized_col_value c rest n = Some res" "unwrap res = Some v"
    using assms(1) by (auto simp: deserialize_col_value_def split: Option.bind_splits)
  have "length rest \<le> length bytes"
    using r(1) by (auto simp: read_length_def split_at_def slice_def range_of_def split: Option.bind_splits if_splits)
  then obtain d where d: "slice rest 0 (i32_as_usize n) = Some d" "length d < 2 ^ 31"
    using r(2) slice_i32_bound [of rest n] assms(2)
    by (auto simp: deserialize_variable_sized_col_value_def split: Option.bind_splits)
  show ?thesis using r(2,3) d from_utf8_str [of d]
    by (auto simp: deserialize_variable_sized_col_value_def unwrap_def split: primitive_data_type.splits sum.splits)
qed

lemma deserialize_loop_typed:
  assumes len: "length bytes < 2 ^ 63"
  shows "deserialize_loop D nb bytes i cs vs foff voff = Some (Ok r) \<Longrightarrow> length vs = i + length cs \<Longrightarrow>
    length r = length vs \<and> take i r = take i vs \<and> list_all2 (\<lambda>c v. value_ok c v \<and> null_allowed c v) cs (drop i r)"
proof (induction cs arbitrary: i vs foff voff)
  case Nil
  then show ?case by simp
next
  case (Cons c cs)
  obtain null where null: "is_col_value_null nb i = Some null" using Cons.prems(1) by (auto split: Option.bind_splits)
  obtain v ws foff' voff' where v: "value_ok c v" "null_allowed c v" and ws: "set_index vs i v = Some ws"
    and rest: "deserialize_loop D nb bytes (Suc i) cs ws foff' voff' = Some (Ok r)"
  proof (cases null)
    case True
    then show thesis using that [of V_Null] Cons.prems(1) null by (auto split: Option.bind_splits if_splits)
  next
    case False
    then obtain v ff vo where val: "deserialize_col_value D c bytes foff voff = Some (v, ff, vo)"
      using Cons.prems(1) null by (auto split: Option.bind_splits)
    then show thesis using that [of v] Cons.prems(1) null False deserialize_col_value_typed [OF val len]
      by (auto split: Option.bind_splits)
  qed
  have ws: "ws = vs[i := v]" "i < length vs" using ws by (auto simp: set_index_def split: if_splits)
  have IH: "length r = length vs" "take (Suc i) r = take (Suc i) (vs[i := v])"
    "list_all2 (\<lambda>c v. value_ok c v \<and> null_allowed c v) cs (drop (Suc i) r)"
    using Cons.IH [OF rest] ws Cons.prems(2) by simp_all
  have "take i (take (Suc i) r) = take i (take (Suc i) (vs[i := v]))" using IH(2) by simp
  then have "take i r = take i vs" by simp
  moreover have "drop i r = v # drop (Suc i) r"
    using arg_cong [OF IH(2), of "\<lambda>l. l ! i"] ws(2) IH(1) by (simp add: Cons_nth_drop_Suc [symmetric])
  ultimately show ?case using IH v by simp
qed

lemma deserialize_fits:
  assumes "length bytes < 2 ^ 63" and "deserialize D cols bytes = Some (Ok r)"
  shows "record_ok cols r \<and> list_all2 null_allowed cols r"
proof -
  obtain nb voff where "deserialize_loop D nb bytes 0 cols (replicate (length cols) V_Null)
      (get_null_bitmap_size cols) voff = Some (Ok r)"
    using assms(2) by (auto simp: deserialize_def record_from_vec_def Let_def split: Option.bind_splits sum.splits)
  from deserialize_loop_typed [OF assms(1) this]
  have "list_all2 (\<lambda>c v. value_ok c v \<and> null_allowed c v) cols r" by simp
  then show ?thesis unfolding record_ok_def by (blast intro: list_all2_mono)
qed

text \<open>
  C13: Whatever bytes are read, a record that deserialization returns is one of the table: it has one
  value for every column, of the type of the column, a null only where the column is nullable. So it
  can be serialized again, without error or panic.
\<close>

theorem deserialize_typed:
  assumes "decimal_laws D" and "length bytes < 2 ^ 63" and "deserialize D cols bytes = Some (Ok r)"
  shows "length r = length cols \<and> (\<forall>i < length cols. value_ok (cols ! i) (r ! i) \<and> null_allowed (cols ! i) (r ! i)) \<and>
    serialize D cols r = Some (Ok (record_layout D r))"
  using deserialize_fits [OF assms(2,3)] serialize_ok [OF assms(1)]
  by (auto simp: record_ok_def list_all2_conv_all_nth)

theorem deserialize_typed_witness:
  "\<exists>bytes. deserialize example_decimal (td_columns example_table) bytes = Some (Ok example_record) \<and>
     length example_record = 2 \<and> value_ok (td_columns example_table ! 1) (example_record ! 1) \<and>
     serialize example_decimal (td_columns example_table) example_record =
       Some (Ok (record_layout example_decimal example_record))"
proof -
  have run: "deserialize example_decimal (td_columns example_table) (record_layout example_decimal example_record) =
      Some (Ok example_record)"
    using deserialize_layout [OF example_decimal_laws example_record_fits(1,3)] by (simp only: example_record_fits(2) if_True)
  have "length (td_columns example_table) = 2" by (simp add: example_table_def)
  then show ?thesis using deserialize_typed [OF example_decimal_laws example_record_fits(3) run] run by auto
qed

end
