(* ===== verification/Page_Id.thy ===== *)
theory Page_Id
  imports Prelude Rust_Str
begin

text \<open>
  \<open>crates/storage/src/page_id.rs\<close>: the size of a page and the identifier of a page, shared by the
  page layout, the disk manager and the buffer pool.
\<close>

definition PAGE_SIZE :: usize where "PAGE_SIZE = 8192"

record page_id =
  pid_table_id :: u32
  pid_page_index :: u32

definition page_id_new :: "u32 \<Rightarrow> u32 \<Rightarrow> page_id" where
  "page_id_new table_id page_index = \<lparr>pid_table_id = table_id, pid_page_index = page_index\<rparr>"

definition page_id_to_string :: "page_id \<Rightarrow> string" where
  "page_id_to_string p =
     ''Table: '' @ show_nat (unat (pid_table_id p)) @ '', Page: '' @ show_nat (unat (pid_page_index p))"

lemma PAGE_SIZE_pos [simp]: "0 < PAGE_SIZE" "PAGE_SIZE \<noteq> 0"
  by (simp_all add: PAGE_SIZE_def)

end
