(* ===== verification/Slotted_Page.thy ===== *)
theory Slotted_Page
  imports Prelude Rust_Str Page_Id
begin

text \<open>
  \<open>crates/storage/src/page.rs\<close>, \<open>slot.rs\<close>, \<open>storage_error.rs\<close> and
  \<open>slotted_page_view.rs\<close>: the layout of a page, and the view of a page buffer as an ordered array
  of slots that point to the records in a heap at the end of the page. A view is its buffer; an
  operation takes the buffer and returns the buffer it leaves, \<open>None\<close> being a panic.
  The abstraction \<open>records\<close> of a page is the list of its records in slot order.
\<close>

section \<open>Definitions\<close>

subsection \<open>The layout of a page\<close>

definition PAGE_HEADER_SIZE :: usize where "PAGE_HEADER_SIZE = 32"
definition PAGE_HEADER_LSN_OFFSET :: usize where "PAGE_HEADER_LSN_OFFSET = 0"
definition PAGE_HEADER_PARENT_INDEX_OFFSET :: usize where "PAGE_HEADER_PARENT_INDEX_OFFSET = 8"
definition PAGE_HEADER_ROOT_PAGE_OFFSET :: usize where "PAGE_HEADER_ROOT_PAGE_OFFSET = 12"
definition PAGE_HEADER_RIGHTMOST_CHILD_POINTER_OFFSET :: usize where
  "PAGE_HEADER_RIGHTMOST_CHILD_POINTER_OFFSET = 12"
definition PAGE_HEADER_PREV_SIBLING_LEAF_PAGE_INDEX_OFFSET :: usize where
  "PAGE_HEADER_PREV_SIBLING_LEAF_PAGE_INDEX_OFFSET = 12"
definition PAGE_HEADER_NEXT_SIBLING_LEAF_PAGE_INDEX_OFFSET :: usize where
  "PAGE_HEADER_NEXT_SIBLING_LEAF_PAGE_INDEX_OFFSET = 16"
definition PAGE_HEADER_ITEM_COUNT_OFFSET :: usize where "PAGE_HEADER_ITEM_COUNT_OFFSET = 20"
definition PAGE_HEADER_DATA_HEAP_END_OFFSET_OFFSET :: usize where
  "PAGE_HEADER_DATA_HEAP_END_OFFSET_OFFSET = 22"
definition PAGE_HEADER_PAGE_TYPE_OFFSET :: usize where "PAGE_HEADER_PAGE_TYPE_OFFSET = 24"
definition INVALID_PAGE_INDEX :: u32 where "INVALID_PAGE_INDEX = - 1"
definition SLOT_SIZE :: usize where "SLOT_SIZE = 2 + 2"

lemmas page_consts =
  PAGE_HEADER_SIZE_def PAGE_HEADER_PARENT_INDEX_OFFSET_def PAGE_HEADER_ROOT_PAGE_OFFSET_def
  PAGE_HEADER_RIGHTMOST_CHILD_POINTER_OFFSET_def PAGE_HEADER_PREV_SIBLING_LEAF_PAGE_INDEX_OFFSET_def
  PAGE_HEADER_NEXT_SIBLING_LEAF_PAGE_INDEX_OFFSET_def PAGE_HEADER_ITEM_COUNT_OFFSET_def
  PAGE_HEADER_DATA_HEAP_END_OFFSET_OFFSET_def PAGE_HEADER_PAGE_TYPE_OFFSET_def PAGE_SIZE_def
  SLOT_SIZE_def

datatype page_type = PT_Invalid | PT_LeafNode | PT_InternalNode | PT_TableHeader

primrec page_type_as_u8 :: "page_type \<Rightarrow> u8" where
  "page_type_as_u8 PT_Invalid = 0"
| "page_type_as_u8 PT_LeafNode = 1"
| "page_type_as_u8 PT_InternalNode = 2"
| "page_type_as_u8 PT_TableHeader = 3"

definition page_type_from :: "u8 \<Rightarrow> page_type" where
  "page_type_from value =
     (if value = 1 then PT_LeafNode
      else if value = 2 then PT_InternalNode
      else if value = 3 then PT_TableHeader
      else PT_Invalid)"

datatype storage_error =
    DuplicateKey
  | KeyNotFound
  | InsertRecordFailed
  | InsufficientSpaceForMerge
  | InvalidSlotIndex
  | NewRightSiblingNotEmpty
  | PageFull

subsection \<open>Header fields and slots\<close>

definition get_page_header_u8_value :: "bytes \<Rightarrow> usize \<Rightarrow> u8 option" where
  "get_page_header_u8_value buffer offset =
     map_option (\<lambda>bs. bs ! 0) (slice buffer offset (offset + 1))"

definition get_page_header_u16_value :: "bytes \<Rightarrow> usize \<Rightarrow> u16 option" where
  "get_page_header_u16_value buffer offset =
     map_option u16_from_le_bytes (slice buffer offset (offset + 2))"

definition get_page_header_u32_value :: "bytes \<Rightarrow> usize \<Rightarrow> u32 option" where
  "get_page_header_u32_value buffer offset =
     map_option u32_from_le_bytes (slice buffer offset (offset + 4))"

definition get_page_header_u64_value :: "bytes \<Rightarrow> usize \<Rightarrow> u64 option" where
  "get_page_header_u64_value buffer offset =
     map_option u64_from_le_bytes (slice buffer offset (offset + 8))"

definition set_page_header_u16_value :: "bytes \<Rightarrow> usize \<Rightarrow> u16 \<Rightarrow> bytes option" where
  "set_page_header_u16_value buffer offset value =
     copy_from_slice buffer offset (offset + 2) (u16_to_le_bytes value)"

definition set_page_header_u32_value :: "bytes \<Rightarrow> usize \<Rightarrow> u32 \<Rightarrow> bytes option" where
  "set_page_header_u32_value buffer offset value =
     copy_from_slice buffer offset (offset + 4) (u32_to_le_bytes value)"

definition set_page_header_u64_value :: "bytes \<Rightarrow> usize \<Rightarrow> u64 \<Rightarrow> bytes option" where
  "set_page_header_u64_value buffer offset value =
     copy_from_slice buffer offset (offset + 8) (u64_to_le_bytes value)"

definition get_slot :: "bytes \<Rightarrow> u16 \<Rightarrow> (usize \<times> usize) option" where
  "get_slot buffer i = do {
     let slot_offset = PAGE_HEADER_SIZE + unat i * SLOT_SIZE;
     record_offset_bytes \<leftarrow> slice buffer slot_offset (slot_offset + 2);
     record_size_bytes \<leftarrow> slice buffer (slot_offset + 2) (slot_offset + 4);
     Some (unat (u16_from_le_bytes record_offset_bytes), unat (u16_from_le_bytes record_size_bytes))
   }"

definition set_slot :: "bytes \<Rightarrow> u16 \<Rightarrow> u16 \<Rightarrow> u16 \<Rightarrow> bytes option" where
  "set_slot buffer i record_offset record_size = do {
     let slot_offset = PAGE_HEADER_SIZE + unat i * SLOT_SIZE;
     b \<leftarrow> copy_from_slice buffer slot_offset (slot_offset + 2) (u16_to_le_bytes record_offset);
     copy_from_slice b (slot_offset + 2) (slot_offset + 4) (u16_to_le_bytes record_size)
   }"

definition get_item_count :: "bytes \<Rightarrow> u16 option" where
  "get_item_count buffer =
     map_option u16_from_le_bytes
       (slice buffer PAGE_HEADER_ITEM_COUNT_OFFSET (PAGE_HEADER_ITEM_COUNT_OFFSET + 2))"

definition get_page_type :: "bytes \<Rightarrow> page_type option" where
  "get_page_type buffer = map_option page_type_from (index buffer PAGE_HEADER_PAGE_TYPE_OFFSET)"

definition get_data_start_offset :: "bytes \<Rightarrow> u16 option" where
  "get_data_start_offset buffer =
     get_page_header_u16_value buffer PAGE_HEADER_DATA_HEAP_END_OFFSET_OFFSET"

text \<open>The values of \<open>i\<close> in \<open>for i in 0..n\<close>.\<close>

definition upto_u16 :: "u16 \<Rightarrow> u16 list" where
  "upto_u16 n = map of_nat [0..<unat n]"

subsection \<open>Initialization\<close>

definition initialize :: "bytes \<Rightarrow> page_type \<Rightarrow> u64 option \<Rightarrow> bytes option" where
  "initialize buffer page_type parent_page_index = do {
     b \<leftarrow> fill_range buffer 0 (length buffer) 0;
     b \<leftarrow> set_index b PAGE_HEADER_PAGE_TYPE_OFFSET (page_type_as_u8 page_type);
     b \<leftarrow> set_page_header_u16_value b PAGE_HEADER_ITEM_COUNT_OFFSET 0;
     let parent_index = (case parent_page_index of Some i \<Rightarrow> i | None \<Rightarrow> - 1);
     b \<leftarrow> set_page_header_u64_value b PAGE_HEADER_PARENT_INDEX_OFFSET parent_index;
     b \<leftarrow> set_page_header_u32_value b PAGE_HEADER_RIGHTMOST_CHILD_POINTER_OFFSET INVALID_PAGE_INDEX;
     b \<leftarrow> set_page_header_u32_value b PAGE_HEADER_NEXT_SIBLING_LEAF_PAGE_INDEX_OFFSET
            INVALID_PAGE_INDEX;
     b \<leftarrow> set_page_header_u32_value b PAGE_HEADER_PREV_SIBLING_LEAF_PAGE_INDEX_OFFSET
            INVALID_PAGE_INDEX;
     copy_from_slice b PAGE_HEADER_DATA_HEAP_END_OFFSET_OFFSET
       (PAGE_HEADER_DATA_HEAP_END_OFFSET_OFFSET + 2) (u16_to_le_bytes (of_nat PAGE_SIZE))
   }"

subsection \<open>Free space\<close>

definition get_free_space_contiguous :: "bytes \<Rightarrow> usize option" where
  "get_free_space_contiguous buffer = do {
     item_count \<leftarrow> get_item_count buffer;
     let slot_array_size = unat item_count * SLOT_SIZE;
     data_heap_offset \<leftarrow>
       get_page_header_u16_value buffer PAGE_HEADER_DATA_HEAP_END_OFFSET_OFFSET;
     data_heap_size \<leftarrow> checked_sub PAGE_SIZE (unat data_heap_offset);
     free \<leftarrow> checked_sub (PAGE_SIZE - PAGE_HEADER_SIZE) slot_array_size;
     checked_sub free data_heap_size
   }"

primrec used_space_loop :: "bytes \<Rightarrow> u16 list \<Rightarrow> usize \<Rightarrow> usize option" where
  "used_space_loop buffer [] total_used_data_space = Some total_used_data_space"
| "used_space_loop buffer (i # is) total_used_data_space = do {
     (_, record_size) \<leftarrow> get_slot buffer i;
     used_space_loop buffer is (total_used_data_space + record_size)
   }"

definition get_free_space :: "bytes \<Rightarrow> usize option" where
  "get_free_space buffer = do {
     item_count \<leftarrow> get_item_count buffer;
     let slot_array_size = unat item_count * SLOT_SIZE;
     data_heap_offset \<leftarrow>
       get_page_header_u16_value buffer PAGE_HEADER_DATA_HEAP_END_OFFSET_OFFSET;
     data_heap_size \<leftarrow> checked_sub PAGE_SIZE (unat data_heap_offset);
     free \<leftarrow> checked_sub (PAGE_SIZE - PAGE_HEADER_SIZE) slot_array_size;
     free_space_contiguous \<leftarrow> checked_sub free data_heap_size;
     total_used_data_space \<leftarrow> used_space_loop buffer (upto_u16 item_count) 0;
     fragmented \<leftarrow> checked_sub data_heap_size total_used_data_space;
     Some (free_space_contiguous + fragmented)
   }"

subsection \<open>Records\<close>

text \<open>\<open>None\<close> is a panic, \<open>Some None\<close> the answer that there is no such record.\<close>

definition get_record :: "bytes \<Rightarrow> u16 \<Rightarrow> bytes option option" where
  "get_record buffer i = do {
     item_count \<leftarrow> get_item_count buffer;
     (if item_count \<le> i then Some None
      else do {
        (record_offset, record_size) \<leftarrow> get_slot buffer i;
        map_option Some (slice buffer record_offset (record_offset + record_size))
      })
   }"

definition delete_record :: "bytes \<Rightarrow> u16 \<Rightarrow> bytes option" where
  "delete_record buffer i = do {
     item_count \<leftarrow> get_item_count buffer;
     (if item_count \<le> i then Some buffer
      else do {
        let slot_offset = PAGE_HEADER_SIZE + unat i * SLOT_SIZE;
        num_bytes_to_shift \<leftarrow> checked_sub (unat item_count * SLOT_SIZE) ((unat i + 1) * SLOT_SIZE);
        b \<leftarrow> (if num_bytes_to_shift > 0
              then copy_within buffer (slot_offset + SLOT_SIZE)
                     (slot_offset + SLOT_SIZE + num_bytes_to_shift) slot_offset
              else Some buffer);
        new_count \<leftarrow> checked_sub_u16 item_count 1;
        set_page_header_u16_value b PAGE_HEADER_ITEM_COUNT_OFFSET new_count
      })
   }"

definition try_insert_record ::
  "bytes \<Rightarrow> u16 \<Rightarrow> bytes \<Rightarrow> ((storage_error, u16) rust_result \<times> bytes) option" where
  "try_insert_record buffer i record_data = do {
     free_space \<leftarrow> get_free_space_contiguous buffer;
     (if free_space < length record_data + SLOT_SIZE then Some (Err PageFull, buffer)
      else do {
        initial_item_count \<leftarrow> get_item_count buffer;
        (if initial_item_count < i then Some (Err InvalidSlotIndex, buffer)
         else do {
           let record_size = length record_data;
           data_heap_offset \<leftarrow>
             get_page_header_u16_value buffer PAGE_HEADER_DATA_HEAP_END_OFFSET_OFFSET;
           new_data_heap_offset \<leftarrow> checked_sub_u16 data_heap_offset (of_nat record_size);
           b \<leftarrow> copy_from_slice buffer (unat new_data_heap_offset)
                  (unat new_data_heap_offset + record_size) record_data;
           b \<leftarrow> set_page_header_u16_value b PAGE_HEADER_DATA_HEAP_END_OFFSET_OFFSET
                  new_data_heap_offset;
           let slot_insertion_offset = PAGE_HEADER_SIZE + SLOT_SIZE * unat i;
           slots_to_shift \<leftarrow> checked_sub_u16 initial_item_count i;
           b \<leftarrow> (if slots_to_shift > 0
                 then copy_within b slot_insertion_offset
                        (slot_insertion_offset + unat slots_to_shift * SLOT_SIZE)
                        (slot_insertion_offset + SLOT_SIZE)
                 else Some b);
           b \<leftarrow> copy_from_slice b slot_insertion_offset (slot_insertion_offset + 2)
                  (u16_to_le_bytes new_data_heap_offset);
           b \<leftarrow> copy_from_slice b (slot_insertion_offset + 2) (slot_insertion_offset + 4)
                  (u16_to_le_bytes (of_nat record_size));
           item_count \<leftarrow> checked_add_u16 initial_item_count 1;
           b \<leftarrow> set_page_header_u16_value b PAGE_HEADER_ITEM_COUNT_OFFSET item_count;
           Some (Ok i, b)
         })
      })
   }"

definition try_update_record ::
  "bytes \<Rightarrow> u16 \<Rightarrow> bytes \<Rightarrow> ((storage_error, u16) rust_result \<times> bytes) option" where
  "try_update_record buffer i record_data = do {
     item_count \<leftarrow> get_item_count buffer;
     (if item_count \<le> i then Some (Err InvalidSlotIndex, buffer)
      else do {
        (record_offset, orig_record_size) \<leftarrow> get_slot buffer i;
        let updated_record_size = length record_data;
        (if updated_record_size \<le> orig_record_size then do {
           b \<leftarrow> copy_from_slice buffer record_offset (record_offset + updated_record_size) record_data;
           b \<leftarrow> (if updated_record_size < orig_record_size
                 then set_slot b i (of_nat record_offset) (of_nat updated_record_size)
                 else Some b);
           Some (Ok i, b)
         }
         else do {
           free_space \<leftarrow> get_free_space_contiguous buffer;
           (if updated_record_size > free_space then Some (Err PageFull, buffer)
            else do {
              data_heap_offset \<leftarrow>
                get_page_header_u16_value buffer PAGE_HEADER_DATA_HEAP_END_OFFSET_OFFSET;
              new_data_heap_offset \<leftarrow> checked_sub_u16 data_heap_offset (of_nat updated_record_size);
              b \<leftarrow> copy_from_slice buffer (unat new_data_heap_offset)
                     (unat new_data_heap_offset + updated_record_size) record_data;
              b \<leftarrow> set_slot b i new_data_heap_offset (of_nat updated_record_size);
              b \<leftarrow> set_page_header_u16_value b PAGE_HEADER_DATA_HEAP_END_OFFSET_OFFSET
                     new_data_heap_offset;
              Some (Ok i, b)
            })
         })
      })
   }"

subsection \<open>Compaction\<close>

text \<open>The first loop of \<open>compact\<close> collects the records, the second writes them back from the end.\<close>

primrec collect_loop :: "bytes \<Rightarrow> u16 list \<Rightarrow> bytes \<Rightarrow> bytes option" where
  "collect_loop buffer [] compacted_data_block = Some compacted_data_block"
| "collect_loop buffer (i # is) compacted_data_block = do {
     r \<leftarrow> get_record buffer i;
     record_data \<leftarrow> r;
     collect_loop buffer is (compacted_data_block @ record_data)
   }"

primrec rewrite_loop ::
  "bytes \<Rightarrow> u16 list \<Rightarrow> bytes \<Rightarrow> usize \<Rightarrow> usize \<Rightarrow> (bytes \<times> usize) option" where
  "rewrite_loop block [] buffer heap_offset block_offset = Some (buffer, heap_offset)"
| "rewrite_loop block (i # is) buffer heap_offset block_offset = do {
     (_, record_size) \<leftarrow> get_slot buffer i;
     record_data \<leftarrow> slice block block_offset (block_offset + record_size);
     let block_offset' = block_offset + record_size;
     heap_offset' \<leftarrow> checked_sub heap_offset record_size;
     b \<leftarrow> copy_from_slice buffer heap_offset' (heap_offset' + record_size) record_data;
     b \<leftarrow> set_slot b i (of_nat heap_offset') (of_nat record_size);
     rewrite_loop block is b heap_offset' block_offset'
   }"

definition compact :: "bytes \<Rightarrow> bytes option" where
  "compact buffer = do {
     free_space \<leftarrow> get_free_space buffer;
     contiguous \<leftarrow> get_free_space_contiguous buffer;
     (if free_space = contiguous then Some buffer
      else do {
        item_count \<leftarrow> get_item_count buffer;
        total_free_and_data_space \<leftarrow>
          checked_sub (PAGE_SIZE - PAGE_HEADER_SIZE) (unat item_count * SLOT_SIZE);
        total_data_heap_size \<leftarrow> checked_sub total_free_and_data_space free_space;
        block \<leftarrow> collect_loop buffer (upto_u16 item_count) [];
        (b, heap_offset) \<leftarrow> rewrite_loop block (upto_u16 item_count) buffer PAGE_SIZE 0;
        let free_space_offset = PAGE_HEADER_SIZE + unat item_count * SLOT_SIZE;
        b \<leftarrow> fill_range b free_space_offset (free_space_offset + free_space) 0;
        set_page_header_u16_value b PAGE_HEADER_DATA_HEAP_END_OFFSET_OFFSET (of_nat heap_offset)
      })
   }"

section \<open>The abstraction of a page\<close>

definition u16_at :: "bytes \<Rightarrow> nat \<Rightarrow> u16" where
  "u16_at b off = u16_from_le_bytes (range_of b off 2)"

definition u32_at :: "bytes \<Rightarrow> nat \<Rightarrow> u32" where
  "u32_at b off = u32_from_le_bytes (range_of b off 4)"

definition u64_at :: "bytes \<Rightarrow> nat \<Rightarrow> u64" where
  "u64_at b off = u64_from_le_bytes (range_of b off 8)"

definition items :: "bytes \<Rightarrow> nat" where "items b = unat (u16_at b 20)"
definition heap_start :: "bytes \<Rightarrow> nat" where "heap_start b = unat (u16_at b 22)"

definition slot :: "bytes \<Rightarrow> nat \<Rightarrow> nat \<times> nat" where
  "slot b i = (unat (u16_at b (32 + 4 * i)), unat (u16_at b (34 + 4 * i)))"

definition slots :: "bytes \<Rightarrow> (nat \<times> nat) list" where
  "slots b = map (slot b) [0..<items b]"

definition cell :: "bytes \<Rightarrow> nat \<times> nat \<Rightarrow> bytes" where
  "cell b s = range_of b (fst s) (snd s)"

definition records :: "bytes \<Rightarrow> bytes list" where
  "records b = map (cell b) (slots b)"

text \<open>
  The invariant of a page: the slot array ends before the heap, every slot points into the heap,
  and the cells of different slots do not overlap.
\<close>

definition apart :: "nat \<times> nat \<Rightarrow> nat \<times> nat \<Rightarrow> bool" where
  "apart s t \<longleftrightarrow> fst s + snd s \<le> fst t \<or> fst t + snd t \<le> fst s"

definition in_heap :: "nat \<Rightarrow> nat \<times> nat \<Rightarrow> bool" where
  "in_heap h s \<longleftrightarrow> h \<le> fst s \<and> fst s + snd s \<le> 8192"

definition used :: "(nat \<times> nat) list \<Rightarrow> nat" where
  "used sl = sum_list (map snd sl)"

definition slots_ok :: "nat \<Rightarrow> (nat \<times> nat) list \<Rightarrow> bool" where
  "slots_ok h sl \<longleftrightarrow> list_all (in_heap h) sl \<and> sorted_wrt apart sl \<and> h + used sl \<le> 8192"

definition page_inv :: "bytes \<Rightarrow> bool" where
  "page_inv b \<longleftrightarrow> length b = 8192 \<and> 32 + 4 * items b \<le> heap_start b \<and>
     slots_ok (heap_start b) (slots b)"

text \<open>The free block between the slot array and the heap.\<close>

definition gap :: "bytes \<Rightarrow> nat" where
  "gap b = heap_start b - 32 - 4 * items b"

lemma length_slots [simp]: "length (slots b) = items b"
  by (simp add: slots_def)

lemma length_records [simp]: "length (records b) = items b"
  by (simp add: records_def)

lemma nth_slots [simp]: "i < items b \<Longrightarrow> slots b ! i = slot b i"
  by (simp add: slots_def)

lemma page_invD:
  assumes "page_inv b"
  shows "length b = 8192" and "32 + 4 * items b \<le> heap_start b" and "heap_start b \<le> 8192"
    and "slots_ok (heap_start b) (slots b)" and "items b \<le> 2040"
  using assms by (auto simp: page_inv_def slots_ok_def)

subsection \<open>Fields after a write\<close>

lemma u16_at_put_other [buf_simps]:
  "off + 2 \<le> a \<or> a + length src \<le> off \<Longrightarrow> a + length src \<le> length b \<Longrightarrow> off + 2 \<le> length b \<Longrightarrow>
   u16_at (put b a src) off = u16_at b off"
  by (simp add: u16_at_def range_put_disjoint)

lemma u32_at_put_other [buf_simps]:
  "off + 4 \<le> a \<or> a + length src \<le> off \<Longrightarrow> a + length src \<le> length b \<Longrightarrow> off + 4 \<le> length b \<Longrightarrow>
   u32_at (put b a src) off = u32_at b off"
  by (simp add: u32_at_def range_put_disjoint)

lemma u64_at_put_other [buf_simps]:
  "off + 8 \<le> a \<or> a + length src \<le> off \<Longrightarrow> a + length src \<le> length b \<Longrightarrow> off + 8 \<le> length b \<Longrightarrow>
   u64_at (put b a src) off = u64_at b off"
  by (simp add: u64_at_def range_put_disjoint)

lemma u16_at_put_same [buf_simps]:
  "a + 2 \<le> length b \<Longrightarrow> u16_at (put b a (u16_to_le_bytes v)) a = v"
  by (simp add: u16_at_def range_put_same)

lemma u32_at_put_same [buf_simps]:
  "a + 4 \<le> length b \<Longrightarrow> u32_at (put b a (u32_to_le_bytes v)) a = v"
  by (simp add: u32_at_def range_put_same)

lemma u64_at_put_same [buf_simps]:
  "a + 8 \<le> length b \<Longrightarrow> u64_at (put b a (u64_to_le_bytes v)) a = v"
  by (simp add: u64_at_def range_put_same)

lemma u16_at_put_moved:
  assumes "off = d + j" and "off' = s + j" and "j + 2 \<le> n" and "d + n \<le> length b"
    and "s + n \<le> length b"
  shows "u16_at (put b d (range_of b s n)) off = u16_at b off'"
  using assms range_put_inside [of d off 2 "range_of b s n" b] range_of_range [of j 2 n b s]
  by (simp add: u16_at_def)

subsection \<open>Slots that do not overlap\<close>

lemma apart_sym: "apart s t \<longleftrightarrow> apart t s"
  by (auto simp: apart_def)

lemma used_append [simp]: "used (a @ b) = used a + used b"
  by (simp add: used_def)

lemma used_Cons [simp]: "used (s # a) = snd s + used a"
  by (simp add: used_def)

lemma used_Nil [simp]: "used [] = 0"
  by (simp add: used_def)

lemma in_heap_mono: "in_heap h s \<Longrightarrow> h' \<le> h \<Longrightarrow> in_heap h' s"
  by (simp add: in_heap_def)

lemma slots_ok_insert:
  assumes "slots_ok h (a @ b)" and "h' + l \<le> h"
  shows "slots_ok h' (a @ (h', l) # b)"
proof -
  have "\<forall>t \<in> set (a @ b). apart (h', l) t"
    using assms unfolding slots_ok_def list_all_iff in_heap_def apart_def
    by (intro ballI disjI1) fastforce
  moreover have "list_all (in_heap h') (a @ b)"
    using assms unfolding slots_ok_def list_all_iff by (meson in_heap_mono add_leD1)
  moreover have "h \<le> 8192" using assms by (simp add: slots_ok_def)
  ultimately show ?thesis
    using assms by (auto simp: slots_ok_def sorted_wrt_append in_heap_def apart_sym)
qed

lemma slots_ok_remove: "slots_ok h (a @ s # b) \<Longrightarrow> slots_ok h (a @ b)"
  by (auto simp: slots_ok_def sorted_wrt_append)

lemma slots_ok_shrink:
  assumes "slots_ok h (a @ (off, l) # b)" and "l' \<le> l"
  shows "slots_ok h (a @ (off, l') # b)"
  using assms by (auto simp: slots_ok_def sorted_wrt_append in_heap_def apart_def)

lemma slots_ok_in: "slots_ok h sl \<Longrightarrow> s \<in> set sl \<Longrightarrow> in_heap h s"
  by (simp add: slots_ok_def list_all_iff)

lemma slots_ok_apart:
  "slots_ok h (a @ s # b) \<Longrightarrow> t \<in> set (a @ b) \<Longrightarrow> apart s t"
  by (auto simp: slots_ok_def sorted_wrt_append apart_sym)

text \<open>A write below the heap, or inside one cell, does not change the other cells.\<close>

lemma cell_put_below:
  "in_heap h s \<Longrightarrow> a + length src \<le> h \<Longrightarrow> h \<le> length b \<Longrightarrow> length b = 8192 \<Longrightarrow>
   cell (put b a src) s = cell b s"
  by (simp add: cell_def in_heap_def range_put_disjoint)

lemma cell_put_apart:
  "apart (off, length src) s \<Longrightarrow> in_heap h s \<Longrightarrow> off + length src \<le> 8192 \<Longrightarrow> length b = 8192 \<Longrightarrow>
   cell (put b off src) s = cell b s"
  by (auto simp: cell_def in_heap_def apart_def range_put_disjoint)

text \<open>Splitting a list at an index.\<close>

lemma take_nth_drop: "i < length xs \<Longrightarrow> take i xs @ xs ! i # drop (Suc i) xs = xs"
  by (simp add: id_take_nth_drop [symmetric])

lemma slots_split: "i < items b \<Longrightarrow> slots b = take i (slots b) @ slot b i # drop (Suc i) (slots b)"
  using take_nth_drop [of i "slots b"] by simp

section \<open>Reading\<close>

lemma get_item_count_eq: "length b = 8192 \<Longrightarrow> get_item_count b = Some (u16_at b 20)"
  by (simp add: get_item_count_def page_consts u16_at_def)

lemma get_u16_eq: "off + 2 \<le> length b \<Longrightarrow> get_page_header_u16_value b off = Some (u16_at b off)"
  by (simp add: get_page_header_u16_value_def u16_at_def)

lemma get_u32_eq: "off + 4 \<le> length b \<Longrightarrow> get_page_header_u32_value b off = Some (u32_at b off)"
  by (simp add: get_page_header_u32_value_def u32_at_def)

lemma get_u64_eq: "off + 8 \<le> length b \<Longrightarrow> get_page_header_u64_value b off = Some (u64_at b off)"
  by (simp add: get_page_header_u64_value_def u64_at_def)

lemma set_u16_eq:
  "off + 2 \<le> length b \<Longrightarrow> set_page_header_u16_value b off v = Some (put b off (u16_to_le_bytes v))"
  unfolding set_page_header_u16_value_def by (rule copy_from_slice_ok) simp_all

lemma set_u32_eq:
  "off + 4 \<le> length b \<Longrightarrow> set_page_header_u32_value b off v = Some (put b off (u32_to_le_bytes v))"
  unfolding set_page_header_u32_value_def by (rule copy_from_slice_ok) simp_all

lemma set_u64_eq:
  "off + 8 \<le> length b \<Longrightarrow> set_page_header_u64_value b off v = Some (put b off (u64_to_le_bytes v))"
  unfolding set_page_header_u64_value_def by (rule copy_from_slice_ok) simp_all

lemma get_slot_eq:
  "36 + 4 * unat i \<le> length b \<Longrightarrow> get_slot b i = Some (slot b (unat i))"
  by (simp add: get_slot_def page_consts slot_def u16_at_def mult.commute add.commute add.left_commute)

lemma set_slot_eq:
  assumes "36 + 4 * unat i \<le> length b"
  shows "set_slot b i v w =
    Some (put (put b (32 + 4 * unat i) (u16_to_le_bytes v)) (34 + 4 * unat i) (u16_to_le_bytes w))"
proof -
  have "copy_from_slice b (32 + 4 * unat i) (32 + 4 * unat i + 2) (u16_to_le_bytes v) =
      Some (put b (32 + 4 * unat i) (u16_to_le_bytes v))"
    using assms by (intro copy_from_slice_ok) simp_all
  moreover have "copy_from_slice (put b (32 + 4 * unat i) (u16_to_le_bytes v)) (34 + 4 * unat i)
      (34 + 4 * unat i + 2) (u16_to_le_bytes w) =
      Some (put (put b (32 + 4 * unat i) (u16_to_le_bytes v)) (34 + 4 * unat i) (u16_to_le_bytes w))"
    using assms by (intro copy_from_slice_ok) simp_all
  ultimately show ?thesis
    by (simp add: set_slot_def page_consts mult.commute [of _ 4] add.commute add.left_commute
        del: put_Nil)
qed

lemma gap_sub:
  assumes "page_inv b"
  shows "heap_start b \<le> 8192" and "items b * 4 \<le> 8160"
    and "8192 - heap_start b \<le> 8160 - items b * 4"
    and "8160 - items b * 4 - (8192 - heap_start b) = gap b"
  using page_invD(2,3) [OF assms] unfolding gap_def by linarith+

lemma contiguous_eq: "page_inv b \<Longrightarrow> get_free_space_contiguous b = Some (gap b)"
  using gap_sub [of b] page_invD(1) [of b]
  by (simp add: get_free_space_contiguous_def page_consts get_item_count_eq get_u16_eq
      items_def [symmetric] heap_start_def [symmetric] Let_def)

lemma upto_u16_unat: "i \<in> set (upto_u16 n) \<Longrightarrow> unat i < unat n"
  using unat_u16_less [of n] by (auto simp: upto_u16_def unat_of_nat_u16)

lemma used_loop_eq:
  "\<forall>i \<in> set is. 36 + 4 * unat i \<le> length b \<Longrightarrow>
   used_space_loop b is acc = Some (acc + used (map (\<lambda>i. slot b (unat i)) is))"
  by (induction "is" arbitrary: acc) (auto simp: get_slot_eq split: prod.splits)

lemma map_upto_u16:
  "map (\<lambda>i. f (unat i)) (upto_u16 n) = map f [0..<unat n]"
  using unat_u16_less [of n] by (auto simp: upto_u16_def unat_of_nat_u16)

lemma free_space_eq:
  assumes "page_inv b"
  shows "get_free_space b = Some (gap b + (8192 - heap_start b - used (slots b)))"
proof -
  note d = page_invD [OF assms]
  have "used_space_loop b (upto_u16 (u16_at b 20)) 0 =
      Some (0 + used (map (\<lambda>i. slot b (unat i)) (upto_u16 (u16_at b 20))))"
    using d(1,5) upto_u16_unat [of _ "u16_at b 20"]
    by (intro used_loop_eq) (fastforce simp: items_def)
  then have "used_space_loop b (upto_u16 (u16_at b 20)) 0 = Some (used (slots b))"
    by (simp add: map_upto_u16 slots_def items_def)
  moreover have "used (slots b) \<le> 8192 - heap_start b"
    using d(4) unfolding slots_ok_def by linarith
  ultimately show ?thesis
    using d(1) gap_sub [OF assms]
    by (simp add: get_free_space_def page_consts get_item_count_eq get_u16_eq
        items_def [symmetric] heap_start_def [symmetric] Let_def)
qed

section \<open>Writing\<close>

text \<open>What every operation on the records leaves alone: the header outside the two counters.\<close>

definition header_kept :: "bytes \<Rightarrow> bytes \<Rightarrow> bool" where
  "header_kept b b' \<longleftrightarrow> range_of b' 0 20 = range_of b 0 20 \<and> range_of b' 24 8 = range_of b 24 8"

lemma header_kept_refl [simp]: "header_kept b b"
  by (simp add: header_kept_def)

lemma header_kept_trans: "header_kept a b \<Longrightarrow> header_kept b c \<Longrightarrow> header_kept a c"
  by (simp add: header_kept_def)

lemma header_kept_put:
  "header_kept a b \<Longrightarrow> 32 \<le> off \<or> 20 \<le> off \<and> off + length src \<le> 24 \<Longrightarrow>
   off + length src \<le> length b \<Longrightarrow> 32 \<le> length b \<Longrightarrow> header_kept a (put b off src)"
  by (auto simp: header_kept_def range_put_disjoint)

lemma header_kept_u32:
  assumes "header_kept b b'" and "off + 4 \<le> 20"
  shows "u32_at b' off = u32_at b off"
  using assms range_of_range [of off 4 20 b 0] range_of_range [of off 4 20 b' 0]
  by (simp add: header_kept_def u32_at_def)

lemma header_kept_u64:
  assumes "header_kept b b'" and "off + 8 \<le> 20"
  shows "u64_at b' off = u64_at b off"
  using assms range_of_range [of off 8 20 b 0] range_of_range [of off 8 20 b' 0]
  by (simp add: header_kept_def u64_at_def)

lemma header_kept_byte:
  assumes "header_kept b b'" and "24 \<le> i" and "i < 32" and "32 \<le> length b" and "32 \<le> length b'"
  shows "b' ! i = b ! i"
  using assms nth_range_of [of "i - 24" 8 24 b] nth_range_of [of "i - 24" 8 24 b']
  by (simp add: header_kept_def)

lemma page_invI:
  assumes "length b' = 8192" and "heap_start b' = h" and "slots b' = sl"
    and "slots_ok h sl" and "32 + 4 * length sl \<le> h"
  shows "page_inv b'"
  using assms length_slots [of b'] by (simp add: page_inv_def)

lemma slots_eqI:
  assumes "items b' = length sl" and "\<And>i. i < length sl \<Longrightarrow> slot b' i = sl ! i"
  shows "slots b' = sl"
  using assms by (intro nth_equalityI) simp_all

subsection \<open>Insertion\<close>

text \<open>The buffer after inserting \<open>data\<close> at slot \<open>k\<close>.\<close>

definition insert_shift :: "bytes \<Rightarrow> nat \<Rightarrow> bytes \<Rightarrow> bytes" where
  "insert_shift b k data =
     (let h = heap_start b - length data;
          b1 = put (put b h data) 22 (u16_to_le_bytes (of_nat h))
      in put b1 (36 + 4 * k) (range_of b1 (32 + 4 * k) (4 * (items b - k))))"

definition insert_buffer :: "bytes \<Rightarrow> nat \<Rightarrow> bytes \<Rightarrow> bytes" where
  "insert_buffer b k data =
     put (put (put (insert_shift b k data)
       (32 + 4 * k) (u16_to_le_bytes (of_nat (heap_start b - length data))))
       (34 + 4 * k) (u16_to_le_bytes (of_nat (length data))))
       20 (u16_to_le_bytes (of_nat (items b + 1)))"

definition insertable :: "bytes \<Rightarrow> nat \<Rightarrow> bytes \<Rightarrow> bool" where
  "insertable b k data \<longleftrightarrow> page_inv b \<and> length data + 4 \<le> gap b \<and> k \<le> items b"

lemma insertableD:
  assumes "insertable b k data"
  shows "length b = 8192" and "heap_start b \<le> 8192" and "length data \<le> heap_start b"
    and "36 + 4 * items b + length data \<le> heap_start b" and "items b \<le> 2040" and "k \<le> items b"
    and "slots_ok (heap_start b) (slots b)"
proof -
  have inv: "page_inv b" using assms by (simp add: insertable_def)
  note d = page_invD [OF inv]
  have "length data + 4 \<le> heap_start b - 32 - 4 * items b"
    using assms by (simp add: insertable_def gap_def)
  with d(2) show "length data \<le> heap_start b" "36 + 4 * items b + length data \<le> heap_start b"
    by linarith+
  show "length b = 8192" "heap_start b \<le> 8192" "items b \<le> 2040" "k \<le> items b"
    "slots_ok (heap_start b) (slots b)"
    using d assms by (simp_all add: insertable_def)
qed

lemma length_insert_shift: "insertable b k data \<Longrightarrow> length (insert_shift b k data) = 8192"
  using insertableD [of b k data] by (simp add: insert_shift_def Let_def)

lemma insert_shift_fields:
  assumes "insertable b k data"
  shows "u16_at (insert_shift b k data) 22 = of_nat (heap_start b - length data)"
    and "i < k \<Longrightarrow> slot (insert_shift b k data) i = slot b i"
    and "k \<le> i \<Longrightarrow> i < items b \<Longrightarrow> slot (insert_shift b k data) (Suc i) = slot b i"
proof -
  note d = insertableD [OF assms]
  let ?h = "heap_start b - length data"
  let ?b1 = "put (put b ?h data) 22 (u16_to_le_bytes (of_nat ?h))"
  have len: "length ?b1 = 8192" using d by simp
  have shift: "insert_shift b k data =
      put ?b1 (36 + 4 * k) (range_of ?b1 (32 + 4 * k) (4 * (items b - k)))"
    by (simp add: insert_shift_def Let_def)
  have len': "length (range_of ?b1 (32 + 4 * k) (4 * (items b - k))) = 4 * (items b - k)"
    using len d by simp
  show "u16_at (insert_shift b k data) 22 = of_nat ?h"
    unfolding shift using len len' d by (simp add: buf_simps)
  have old: "slot ?b1 i = slot b i" if "i < items b" for i
    using that d by (simp add: slot_def buf_simps)
  show "slot (insert_shift b k data) i = slot b i" if "i < k"
  proof -
    have "slot (insert_shift b k data) i = slot ?b1 i"
      unfolding shift slot_def using len len' d that by (simp add: u16_at_put_other)
    then show ?thesis using old that d by simp
  qed
  show "slot (insert_shift b k data) (Suc i) = slot b i" if "k \<le> i" "i < items b"
  proof -
    have "u16_at (insert_shift b k data) (36 + 4 * i) = u16_at ?b1 (32 + 4 * i)"
      unfolding shift using len d that
      by (intro u16_at_put_moved [where j = "4 * (i - k)"]) auto
    moreover have "u16_at (insert_shift b k data) (38 + 4 * i) =
        u16_at ?b1 (34 + 4 * i)"
      unfolding shift using len d that
      by (intro u16_at_put_moved [where j = "4 * (i - k) + 2"]) auto
    ultimately have "slot (insert_shift b k data) (Suc i) = slot ?b1 i"
      using that by (simp add: slot_def)
    then show ?thesis using old that by simp
  qed
qed

lemma insert_buffer_slots:
  assumes "insertable b k data"
  shows "length (insert_buffer b k data) = 8192"
    and "heap_start (insert_buffer b k data) = heap_start b - length data"
    and "slots (insert_buffer b k data) =
      take k (slots b) @ (heap_start b - length data, length data) # drop k (slots b)"
proof -
  note d = insertableD [OF assms] and len = length_insert_shift [OF assms]
  let ?h = "heap_start b - length data"
  let ?sl = "take k (slots b) @ (?h, length data) # drop k (slots b)"
  have small: "unat (of_nat ?h :: u16) = ?h" "unat (of_nat (length data) :: u16) = length data"
    "unat (of_nat (items b + 1) :: u16) = items b + 1"
    using d by (simp_all add: unat_of_nat_u16 del: of_nat_diff of_nat_add of_nat_Suc)
  note of_nat_diff [simp del] and of_nat_add [simp del] and of_nat_Suc [simp del]
  show "length (insert_buffer b k data) = 8192"
    using d len by (simp add: insert_buffer_def)
  show "heap_start (insert_buffer b k data) = ?h"
    using d len insert_shift_fields(1) [OF assms] small
    by (simp add: insert_buffer_def heap_start_def buf_simps)
  have items: "items (insert_buffer b k data) = length ?sl"
    using d len small(3) by (simp add: insert_buffer_def items_def buf_simps)
  have keep: "slot (insert_buffer b k data) i = slot (insert_shift b k data) i"
    if "i \<noteq> k" "i \<le> items b" for i
    using d len that by (cases "i < k") (simp_all add: slot_def insert_buffer_def u16_at_put_other)
  have new: "slot (insert_buffer b k data) k = (?h, length data)"
    using d len small by (simp add: slot_def insert_buffer_def buf_simps)
  show "slots (insert_buffer b k data) = ?sl"
  proof (rule slots_eqI [OF items])
    fix i
    assume "i < length ?sl"
    then have i: "i \<le> items b" using d by simp
    consider "i < k" | "i = k" | "k < i" by linarith
    then show "slot (insert_buffer b k data) i = ?sl ! i"
    proof cases
      case 1
      then show ?thesis
        using keep [of i] insert_shift_fields(2) [OF assms] d i by (simp add: nth_append)
    next
      case 2
      then show ?thesis using new d by (simp add: nth_append)
    next
      case 3
      then obtain j where "i = Suc j" "k \<le> j" by (cases i) auto
      then show ?thesis
        using keep [of i] insert_shift_fields(3) [OF assms, of j] d i by (simp add: nth_append)
    qed
  qed
qed

lemma insert_buffer_page:
  assumes "insertable b k data"
  shows "page_inv (insert_buffer b k data)"
    and "records (insert_buffer b k data) = take k (records b) @ data # drop k (records b)"
    and "header_kept b (insert_buffer b k data)"
    and "gap (insert_buffer b k data) + length data + 4 = gap b"
proof -
  note d = insertableD [OF assms] and f = insert_buffer_slots [OF assms]
  let ?h = "heap_start b - length data"
  have "slots_ok ?h (take k (slots b) @ (?h, length data) # drop k (slots b))"
    using d by (intro slots_ok_insert [where h = "heap_start b"]) simp_all
  then show "page_inv (insert_buffer b k data)"
    using f d by (intro page_invI [OF f]) simp_all
  have items: "items (insert_buffer b k data) = items b + 1"
    using arg_cong [OF f(3), of length] d(6) by simp
  then show "gap (insert_buffer b k data) + length data + 4 = gap b"
    using d f(2) by (simp add: gap_def)
  define b1 where "b1 = put b ?h data"
  have kept: "cell (insert_buffer b k data) s = cell b1 s" if "in_heap ?h s" for s
  proof -
    have "36 + 4 * items b \<le> fst s" "fst s + snd s \<le> 8192"
      using that d unfolding in_heap_def by linarith+
    moreover obtain m where "items b = k + m" using d(6) le_Suc_ex by blast
    ultimately show ?thesis
      using d by (simp add: insert_buffer_def insert_shift_def Let_def b1_def cell_def
          range_put_disjoint)
  qed
  have old: "cell (insert_buffer b k data) s = cell b s" if "s \<in> set (slots b)" for s
  proof -
    have "in_heap (heap_start b) s" using d(7) that by (rule slots_ok_in)
    then show ?thesis
      using kept [of s] cell_put_below [of "heap_start b" s ?h data b] d in_heap_mono [of _ s ?h]
      by (simp add: b1_def)
  qed
  have new: "cell (insert_buffer b k data) (?h, length data) = data"
    using kept [of "(?h, length data)"] d by (simp add: b1_def cell_def in_heap_def range_put_same)
  have "map (cell (insert_buffer b k data)) (take k (slots b)) = take k (records b)"
    "map (cell (insert_buffer b k data)) (drop k (slots b)) = drop k (records b)"
    using old by (auto simp: records_def take_map drop_map dest: in_set_takeD in_set_dropD)
  then show "records (insert_buffer b k data) = take k (records b) @ data # drop k (records b)"
    using new by (simp add: records_def [of "insert_buffer b k data"] f(3))
  show "header_kept b (insert_buffer b k data)"
    unfolding insert_buffer_def insert_shift_def Let_def
    using d by (intro header_kept_put header_kept_refl) simp_all
qed

lemma checked_sub_heap:
  assumes "page_inv b" and "n \<le> heap_start b"
  shows "checked_sub_u16 (u16_at b 22) (of_nat n) = Some (of_nat (heap_start b - n)) \<and>
    unat (of_nat (heap_start b - n) :: u16) = heap_start b - n"
proof -
  have hp: "unat (u16_at b 22) = heap_start b" by (simp add: heap_start_def)
  have "heap_start b \<le> 8192" using assms(1) by (rule page_invD)
  then have "unat (of_nat n :: u16) = n" using assms(2) by (intro unat_of_nat_u16) simp
  then have w: "checked_sub_u16 (u16_at b 22) (of_nat n) = Some (u16_at b 22 - of_nat n) \<and>
      unat (u16_at b 22 - of_nat n) = heap_start b - n"
    using checked_sub_u16_unat [of "of_nat n" "u16_at b 22"] assms(2) hp by simp
  have "of_nat (unat (u16_at b 22 - of_nat n :: u16)) = u16_at b 22 - of_nat n" by simp
  with w have e: "u16_at b 22 - of_nat n = of_nat (heap_start b - n)" by simp
  show ?thesis using w by (simp add: e del: of_nat_diff)
qed

lemma try_insert_ok:
  assumes "insertable b (unat i) data"
  shows "try_insert_record b i data = Some (Ok i, insert_buffer b (unat i) data)"
proof -
  note d = insertableD [OF assms]
  let ?h = "heap_start b - length data" and ?k = "unat i"
  have inv: "page_inv b" and room: "length data + 4 \<le> gap b" using assms by (simp_all add: insertable_def)
  have cnt: "unat (u16_at b 20) = items b" and hp: "unat (u16_at b 22) = heap_start b"
    by (simp_all add: items_def heap_start_def)
  have wcnt: "of_nat (items b) = u16_at b 20" by (simp add: items_def)
  have h': "checked_sub_u16 (u16_at b 22) (of_nat (length data)) = Some (of_nat ?h)"
    "unat (of_nat ?h :: u16) = ?h"
    using checked_sub_heap [OF inv d(3)] by simp_all
  have idx: "\<not> u16_at b 20 < i" "checked_sub_u16 (u16_at b 20) i = Some (u16_at b 20 - i)"
    "unat (u16_at b 20 - i) = items b - ?k"
    using checked_sub_u16_unat [of i "u16_at b 20"] d(6) cnt by (simp_all add: word_less_nat_alt)
  have cnt': "checked_add_u16 (u16_at b 20) 1 = Some (of_nat (items b + 1))"
    using checked_add_u16_unat [of "u16_at b 20" 1] d(5) cnt wcnt
    by (simp add: add.commute)
  define b1 where "b1 = put (put b ?h data) 22 (u16_to_le_bytes (of_nat ?h))"
  have len1: "length b1 = 8192" using d by (simp add: b1_def)
  have c1: "copy_from_slice b ?h (?h + length data) data = Some (put b ?h data)"
    using d by (intro copy_from_slice_ok) simp_all
  have c2: "set_page_header_u16_value (put b ?h data) 22 (of_nat ?h) = Some b1"
    using d unfolding b1_def by (intro set_u16_eq) simp
  have c3: "(if 0 < u16_at b 20 - i then copy_within b1 (32 + 4 * ?k)
      (32 + 4 * ?k + unat (u16_at b 20 - i) * 4) (32 + 4 * ?k + 4) else Some b1) =
      Some (insert_shift b ?k data)"
  proof (cases "items b = ?k")
    case True
    then have "\<not> 0 < u16_at b 20 - i" using idx(3) by (simp add: word_less_nat_alt)
    then show ?thesis using True by (simp add: insert_shift_def b1_def range_of_def Let_def)
  next
    case False
    then have "0 < u16_at b 20 - i" using idx(3) d(6) by (simp add: word_less_nat_alt)
    moreover have "insert_shift b ?k data =
        put b1 (36 + 4 * ?k) (range_of b1 (32 + 4 * ?k) (4 * (items b - ?k)))"
      by (simp only: insert_shift_def b1_def Let_def)
    moreover obtain m where "items b = ?k + m" using d(6) le_Suc_ex by blast
    ultimately show ?thesis
      using d len1 idx(3) by (simp add: copy_within_def mult.commute add.commute)
  qed
  let ?s = "insert_shift b ?k data"
  have len2: "length ?s = 8192" using assms by (rule length_insert_shift)
  have c4: "copy_from_slice ?s (32 + 4 * ?k) (32 + 4 * ?k + 2) (u16_to_le_bytes (of_nat ?h)) =
      Some (put ?s (32 + 4 * ?k) (u16_to_le_bytes (of_nat ?h)))"
    using d len2 by (intro copy_from_slice_ok) simp_all
  let ?t = "put ?s (32 + 4 * ?k) (u16_to_le_bytes (of_nat ?h))"
  have c5: "copy_from_slice ?t (32 + 4 * ?k + 2) (32 + 4 * ?k + 4) (u16_to_le_bytes (of_nat (length data))) =
      Some (put ?t (34 + 4 * ?k) (u16_to_le_bytes (of_nat (length data))))"
    using d len2 by (simp add: copy_from_slice_def)
  let ?u = "put ?t (34 + 4 * ?k) (u16_to_le_bytes (of_nat (length data)))"
  have c6: "set_page_header_u16_value ?u 20 (of_nat (items b + 1)) = Some (insert_buffer b ?k data)"
    using d len2 by (simp add: set_u16_eq insert_buffer_def)
  show ?thesis
    unfolding try_insert_record_def page_consts get_item_count_eq [OF d(1)] contiguous_eq [OF inv]
    using room d(1) idx(1) c2 c3 c4 c5 c6
    by (cases "0 < u16_at b 20 - i")
       (simp_all add: get_u16_eq h' idx(2) c1 cnt' Let_def
        del: of_nat_diff of_nat_add of_nat_Suc)
qed

subsection \<open>Deletion\<close>

definition delete_buffer :: "bytes \<Rightarrow> nat \<Rightarrow> bytes" where
  "delete_buffer b k =
     put (put b (32 + 4 * k) (range_of b (36 + 4 * k) (4 * (items b - Suc k))))
       20 (u16_to_le_bytes (of_nat (items b - 1)))"

lemma delete_buffer_page:
  assumes inv: "page_inv b" and k: "k < items b"
  shows "page_inv (delete_buffer b k)"
    and "records (delete_buffer b k) = take k (records b) @ drop (Suc k) (records b)"
    and "header_kept b (delete_buffer b k)"
proof -
  note d = page_invD [OF inv]
  obtain m where m: "items b = Suc k + m" using k by (metis less_iff_Suc_add add_Suc)
  let ?b1 = "put b (32 + 4 * k) (range_of b (36 + 4 * k) (4 * m))"
  let ?sl = "take k (slots b) @ drop (Suc k) (slots b)"
  have db: "delete_buffer b k = put ?b1 20 (u16_to_le_bytes (of_nat (items b - 1)))"
    by (simp only: delete_buffer_def m diff_add_inverse)
  have len: "length ?b1 = 8192" using d m by simp
  have len': "length (delete_buffer b k) = 8192" using len by (simp add: db)
  have small: "unat (of_nat (items b - 1) :: u16) = items b - 1"
    using d(5) by (intro unat_of_nat_u16) simp
  have items: "items (delete_buffer b k) = length ?sl"
  proof -
    have "u16_at (delete_buffer b k) 20 = of_nat (items b - 1)"
      using len by (simp add: db u16_at_put_same)
    then show ?thesis using small m by (simp add: items_def [of "delete_buffer b k"])
  qed
  have heap: "heap_start (delete_buffer b k) = heap_start b"
    using d m by (simp add: db heap_start_def buf_simps)
  have keep: "slot (delete_buffer b k) i = slot ?b1 i" if "i < items b" for i
    using len that d by (simp add: db slot_def u16_at_put_other)
  have sl: "slots (delete_buffer b k) = ?sl"
  proof (rule slots_eqI [OF items])
    fix i
    assume "i < length ?sl"
    then have i: "Suc i < items b" using m by simp
    show "slot (delete_buffer b k) i = ?sl ! i"
    proof (cases "i < k")
      case True
      then have "slot ?b1 i = slot b i" using d m by (simp add: slot_def u16_at_put_other)
      then show ?thesis using True keep i by (simp add: nth_append)
    next
      case False
      have "u16_at ?b1 (32 + 4 * i) = u16_at b (36 + 4 * i)"
        using False d m i by (intro u16_at_put_moved [where j = "4 * (i - k)"]) auto
      moreover have "u16_at ?b1 (34 + 4 * i) = u16_at b (38 + 4 * i)"
        using False d m i by (intro u16_at_put_moved [where j = "4 * (i - k) + 2"]) auto
      ultimately have "slot ?b1 i = slot b (Suc i)" by (simp add: slot_def)
      then show ?thesis using False keep [of i] i by (simp add: nth_append)
    qed
  qed
  have "slots_ok (heap_start b) ?sl"
    using d(4) by (subst (asm) slots_split [OF k]) (rule slots_ok_remove)
  moreover have "length ?sl = items b - 1" using k by simp
  then have "32 + 4 * length ?sl \<le> heap_start b" using d(2) k by linarith
  ultimately show "page_inv (delete_buffer b k)" by (rule page_invI [OF len' heap sl])
  have "cell (delete_buffer b k) s = cell b s" if "s \<in> set (slots b)" for s
  proof -
    have "heap_start b \<le> fst s" "fst s + snd s \<le> 8192"
      using slots_ok_in [OF d(4) that] by (auto simp: in_heap_def)
    moreover from this have "36 + 4 * k + 4 * m \<le> fst s" using d(2) m by simp
    ultimately show ?thesis using d m by (simp add: db cell_def range_put_disjoint)
  qed
  then have "map (cell (delete_buffer b k)) ?sl = map (cell b) ?sl"
    by (auto dest: in_set_takeD in_set_dropD)
  then show "records (delete_buffer b k) = take k (records b) @ drop (Suc k) (records b)"
    by (simp add: records_def sl take_map drop_map)
  show "header_kept b (delete_buffer b k)"
    unfolding db using d m by (intro header_kept_put header_kept_refl) simp_all
qed

lemma delete_record_eq:
  assumes inv: "page_inv b"
  shows "delete_record b i = Some (if unat i < items b then delete_buffer b (unat i) else b)"
proof -
  note d = page_invD [OF inv]
  have cnt: "get_item_count b = Some (u16_at b 20)" "unat (u16_at b 20) = items b"
    using d by (simp_all add: get_item_count_eq items_def)
  show ?thesis
  proof (cases "unat i < items b")
    case False
    then show ?thesis using cnt by (simp add: delete_record_def word_le_nat_alt)
  next
    case True
    let ?k = "unat i"
    have wcnt: "u16_at b 20 - 1 = of_nat (items b - 1)"
      using True by (simp add: items_def of_nat_diff)
    have sub: "checked_sub_u16 (u16_at b 20) 1 = Some (of_nat (items b - 1))"
      using checked_sub_u16_unat [of 1 "u16_at b 20"] True cnt(2) wcnt by simp
    obtain m where m: "items b = Suc ?k + m" using True by (metis less_iff_Suc_add add_Suc)
    have s4: "checked_sub (items b * 4) (4 + ?k * 4) = Some (4 * m)"
      by (simp add: m)
    have c: "(if 0 < 4 * m then copy_within b (36 + 4 * ?k) (36 + 4 * ?k + 4 * m) (32 + 4 * ?k)
        else Some b) = Some (put b (32 + 4 * ?k) (range_of b (36 + 4 * ?k) (4 * m)))"
    proof -
      have "32 + 4 * ?k \<le> 8192 - 4 * m" using d m by linarith
      then show ?thesis using d m by (simp add: copy_within_def range_of_def)
    qed
    have s: "set_page_header_u16_value (put b (32 + 4 * ?k) (range_of b (36 + 4 * ?k) (4 * m))) 20
        (of_nat (items b - 1)) = Some (delete_buffer b ?k)"
      using d m by (simp add: set_u16_eq delete_buffer_def)
    show ?thesis
      unfolding delete_record_def cnt(1) page_consts
      using True cnt(2) s4 c s
      by (cases "m = 0")
         (simp_all add: word_le_nat_alt sub Let_def mult.commute add.commute
          del: of_nat_diff of_nat_add of_nat_Suc)
  qed
qed

subsection \<open>Overwriting a slot\<close>

definition slot_buffer :: "bytes \<Rightarrow> nat \<Rightarrow> nat \<Rightarrow> nat \<Rightarrow> bytes" where
  "slot_buffer b k off l =
     put (put b (32 + 4 * k) (u16_to_le_bytes (of_nat off))) (34 + 4 * k) (u16_to_le_bytes (of_nat l))"

lemma set_slot_buffer:
  "36 + 4 * unat i \<le> length b \<Longrightarrow>
   set_slot b i (of_nat off) (of_nat l) = Some (slot_buffer b (unat i) off l)"
  by (simp add: set_slot_eq slot_buffer_def)

lemma slot_buffer_page:
  assumes len: "length b = 8192" and k: "k < items b" and fits: "32 + 4 * items b \<le> 8192"
    and small: "off < 65536" "l < 65536"
  shows "length (slot_buffer b k off l) = 8192"
    and "heap_start (slot_buffer b k off l) = heap_start b"
    and "items (slot_buffer b k off l) = items b"
    and "slots (slot_buffer b k off l) = (slots b)[k := (off, l)]"
    and "header_kept b (slot_buffer b k off l)"
    and "32 + 4 * items b \<le> h \<Longrightarrow> in_heap h s \<Longrightarrow> cell (slot_buffer b k off l) s = cell b s"
proof -
  show "length (slot_buffer b k off l) = 8192" "heap_start (slot_buffer b k off l) = heap_start b"
    using assms by (simp_all add: slot_buffer_def heap_start_def buf_simps)
  show items: "items (slot_buffer b k off l) = items b"
    using len k fits by (simp add: slot_buffer_def items_def buf_simps)
  have "slot (slot_buffer b k off l) i = (slots b)[k := (off, l)] ! i" if "i < items b" for i
  proof (cases "i = k")
    case True
    then show ?thesis
      using assms by (simp add: slot_def slot_buffer_def buf_simps unat_of_nat_u16)
  next
    case False
    then consider "i < k" | "k < i" by linarith
    then have "slot (slot_buffer b k off l) i = slot b i"
      by cases (use assms that in \<open>simp_all add: slot_def slot_buffer_def u16_at_put_other\<close>)
    then show ?thesis using False that by simp
  qed
  then show "slots (slot_buffer b k off l) = (slots b)[k := (off, l)]"
    using items by (intro slots_eqI) simp_all
  show "header_kept b (slot_buffer b k off l)"
    unfolding slot_buffer_def using assms by (intro header_kept_put header_kept_refl) simp_all
  show "cell (slot_buffer b k off l) s = cell b s" if "32 + 4 * items b \<le> h" "in_heap h s"
  proof -
    have "36 + 4 * k \<le> fst s" "fst s + snd s \<le> 8192"
      using that k by (simp_all add: in_heap_def)
    then show ?thesis
      using len k fits by (simp add: slot_buffer_def cell_def range_put_disjoint)
  qed
qed

subsection \<open>Update\<close>

lemma cells_put_apart:
  assumes "slots_ok h (a @ (off, l) # c)" and "length data \<le> l" and "length b = 8192" and "h \<le> 8192"
    and "s \<in> set (a @ c)"
  shows "cell (put b off data) s = cell b s"
proof -
  have "apart (off, l) s" using slots_ok_apart [OF assms(1,5)] .
  then have "apart (off, length data) s" using assms(2) by (auto simp: apart_def)
  moreover have "in_heap h s" "in_heap h (off, l)"
    using slots_ok_in [OF assms(1)] assms(5) by auto
  ultimately show ?thesis using assms by (intro cell_put_apart) (auto simp: in_heap_def)
qed

text \<open>The buffer after an update in place, and after an update that moves the record.\<close>

definition shrink_buffer :: "bytes \<Rightarrow> nat \<Rightarrow> bytes \<Rightarrow> bytes" where
  "shrink_buffer b k data =
     (let off = fst (slot b k); b1 = put b off data
      in if length data < snd (slot b k) then slot_buffer b1 k off (length data) else b1)"

definition grow_buffer :: "bytes \<Rightarrow> nat \<Rightarrow> bytes \<Rightarrow> bytes" where
  "grow_buffer b k data =
     (let h = heap_start b - length data
      in put (slot_buffer (put b h data) k h (length data)) 22 (u16_to_le_bytes (of_nat h)))"

lemma slots_put_heap:
  assumes "length b = 8192" and "32 + 4 * items b \<le> off" and "off + length data \<le> 8192"
  shows "slots (put b off data) = slots b" and "heap_start (put b off data) = heap_start b"
    and "header_kept b (put b off data)" and "items (put b off data) = items b"
proof -
  show items: "items (put b off data) = items b" and "heap_start (put b off data) = heap_start b"
    using assms by (simp_all add: items_def heap_start_def u16_at_put_other)
  have "slot (put b off data) i = slot b i" if "i < items b" for i
    using that assms by (simp add: slot_def u16_at_put_other)
  with items show "slots (put b off data) = slots b" by (intro slots_eqI) simp_all
  show "header_kept b (put b off data)"
    using assms by (intro header_kept_put header_kept_refl) simp_all
qed

text \<open>A new start of the heap in the header.\<close>

lemma put_heap_start:
  assumes "length b = 8192" and "32 + 4 * items b \<le> 8192" and "h < 65536"
    and b': "b' = put b 22 (u16_to_le_bytes (of_nat h))"
  shows "length b' = 8192" and "heap_start b' = h" and "items b' = items b" and "slots b' = slots b"
    and "header_kept b b'" and "32 \<le> fst s \<Longrightarrow> fst s + snd s \<le> 8192 \<Longrightarrow> cell b' s = cell b s"
proof -
  show "length b' = 8192" "heap_start b' = h" and items: "items b' = items b"
    using assms by (simp_all add: items_def heap_start_def buf_simps unat_of_nat_u16)
  have "slot b' i = slot b i" if "i < items b" for i
    using that assms by (simp add: slot_def u16_at_put_other)
  then show "slots b' = slots b" using items by (intro slots_eqI) simp_all
  show "header_kept b b'" unfolding b' using assms(1) by (intro header_kept_put header_kept_refl) simp_all
  show "cell b' s = cell b s" if "32 \<le> fst s" "fst s + snd s \<le> 8192"
    using that assms(1) by (simp add: b' cell_def range_put_disjoint)
qed

lemma records_update:
  assumes "slots b' = (slots b)[k := s]" and "k < items b" and "cell b' s = data"
    and "\<And>t. t \<in> set (take k (slots b) @ drop (Suc k) (slots b)) \<Longrightarrow> cell b' t = cell b t"
  shows "records b' = (records b)[k := data]"
proof -
  have "(slots b)[k := s] = take k (slots b) @ s # drop (Suc k) (slots b)"
    using assms(2) by (simp add: upd_conv_take_nth_drop)
  moreover have "(records b)[k := data] = take k (records b) @ data # drop (Suc k) (records b)"
    using assms(2) by (simp add: upd_conv_take_nth_drop)
  moreover have "map (cell b') (take k (slots b)) = take k (records b)"
    "map (cell b') (drop (Suc k) (slots b)) = drop (Suc k) (records b)"
    using assms(4) by (auto simp: records_def take_map drop_map)
  ultimately show ?thesis using assms(1,3) by (simp add: records_def [of b'])
qed

lemma shrink_buffer_page:
  assumes inv: "page_inv b" and k: "k < items b" and small: "length data \<le> snd (slot b k)"
  shows "page_inv (shrink_buffer b k data)"
    and "records (shrink_buffer b k data) = (records b)[k := data]"
    and "header_kept b (shrink_buffer b k data)"
proof -
  note d = page_invD [OF inv]
  obtain off l where s: "slot b k = (off, l)" by (cases "slot b k")
  let ?a = "take k (slots b)" and ?c = "drop (Suc k) (slots b)"
  have split: "slots b = ?a @ (off, l) # ?c" using slots_split [OF k] s by simp
  have ok: "slots_ok (heap_start b) (?a @ (off, l) # ?c)" using d(4) split by simp
  have heap: "heap_start b \<le> off" "off + l \<le> 8192"
    using slots_ok_in [OF ok, of "(off, l)"] by (auto simp: in_heap_def)
  let ?b1 = "put b off data"
  have len1: "length ?b1 = 8192" using d(1) heap small s by simp
  have b1: "slots ?b1 = slots b" "heap_start ?b1 = heap_start b" "header_kept b ?b1"
    "items ?b1 = items b"
    using slots_put_heap [OF d(1), of off data] d heap small s by simp_all
  have cells1: "cell ?b1 t = cell b t" if "t \<in> set (?a @ ?c)" for t
    using cells_put_apart [OF ok _ d(1,3) that] small s by simp
  have new1: "cell ?b1 (off, length data) = data"
    using d(1) heap small s by (simp add: cell_def range_put_same)
  have upd: "slots (shrink_buffer b k data) = (slots b)[k := (off, length data)] \<and>
      length (shrink_buffer b k data) = 8192 \<and>
      heap_start (shrink_buffer b k data) = heap_start b \<and>
      header_kept b (shrink_buffer b k data) \<and>
      (\<forall>t. in_heap (heap_start b) t \<longrightarrow> cell (shrink_buffer b k data) t = cell ?b1 t)"
  proof (cases "length data < l")
    case True
    have fits: "32 + 4 * items ?b1 \<le> 8192" "k < items ?b1" "off < 65536" "length data < 65536"
      using b1 d k heap small s by auto
    note sb = slot_buffer_page [OF len1 fits(2,1,3,4)]
    have "shrink_buffer b k data = slot_buffer ?b1 k off (length data)"
      using True s by (simp add: shrink_buffer_def Let_def)
    then show ?thesis
      using sb(1-5) sb(6) [of "heap_start b"] b1 d header_kept_trans [OF b1(3) sb(5)] by simp
  next
    case False
    then have "shrink_buffer b k data = ?b1" "length data = l"
      using s small by (simp_all add: shrink_buffer_def Let_def)
    moreover have "(slots b)[k := (off, l)] = slots b"
      using nth_slots [OF k] s by (metis list_update_id)
    ultimately show ?thesis using b1 len1 by simp
  qed
  then show "header_kept b (shrink_buffer b k data)" by simp
  have "(slots b)[k := (off, length data)] = ?a @ (off, length data) # ?c"
    using k by (simp add: upd_conv_take_nth_drop)
  moreover have "slots_ok (heap_start b) (?a @ (off, length data) # ?c)"
    by (rule slots_ok_shrink [OF ok]) (use small s in simp)
  ultimately have "slots_ok (heap_start b) ((slots b)[k := (off, length data)])" by (simp only:)
  moreover have "32 + 4 * length ((slots b)[k := (off, length data)]) \<le> heap_start b"
    using d(2) by simp
  ultimately show "page_inv (shrink_buffer b k data)" using upd by (metis page_invI)
  have "in_heap (heap_start b) (off, length data)" using heap small s by (simp add: in_heap_def)
  moreover have "in_heap (heap_start b) t" if "t \<in> set (?a @ ?c)" for t
    using slots_ok_in [OF ok] that by auto
  ultimately have cells: "cell (shrink_buffer b k data) (off, length data) = data"
    "\<And>t. t \<in> set (?a @ ?c) \<Longrightarrow> cell (shrink_buffer b k data) t = cell b t"
    using upd new1 cells1 by metis+
  show "records (shrink_buffer b k data) = (records b)[k := data]"
    by (rule records_update [OF conjunct1 [OF upd] k cells])
qed

lemma grow_buffer_page:
  assumes inv: "page_inv b" and k: "k < items b" and room: "length data \<le> gap b"
    and large: "snd (slot b k) < length data"
  shows "page_inv (grow_buffer b k data)"
    and "records (grow_buffer b k data) = (records b)[k := data]"
    and "header_kept b (grow_buffer b k data)"
proof -
  note d = page_invD [OF inv]
  define h where "h = heap_start b - length data"
  have h: "32 + 4 * items b \<le> h" "h + length data = heap_start b"
    using room d k large unfolding gap_def h_def by linarith+
  let ?a = "take k (slots b)" and ?c = "drop (Suc k) (slots b)"
  let ?b1 = "put b h data" and ?sl = "(slots b)[k := (h, length data)]"
  have len1: "length ?b1 = 8192" using d(1,3) h by simp
  have b1: "slots ?b1 = slots b" "heap_start ?b1 = heap_start b" "header_kept b ?b1" "items ?b1 = items b"
    using slots_put_heap [OF d(1), of h data] d h by simp_all
  have fits: "32 + 4 * items ?b1 \<le> 8192" "k < items ?b1" "h < 65536" "length data < 65536"
    using b1 d k h by auto
  note sb = slot_buffer_page [OF len1 fits(2,1,3,4)]
  define b2 where "b2 = slot_buffer ?b1 k h (length data)"
  have len2: "length b2 = 8192" and b2: "slots b2 = ?sl" "items b2 = items b" "header_kept b b2"
    using sb b1 header_kept_trans [OF b1(3) sb(5)] by (simp_all add: b2_def)
  have gb: "grow_buffer b k data = put b2 22 (u16_to_le_bytes (of_nat h))"
    by (simp add: grow_buffer_def b2_def h_def Let_def)
  have "32 + 4 * items b2 \<le> 8192" using fits(1) b1(4) b2(2) by simp
  note g = put_heap_start [OF len2 this fits(3) gb, unfolded b2(1)]
  have "slots_ok (heap_start b) (?a @ ?c)"
    using d(4) by (subst (asm) slots_split [OF k]) (rule slots_ok_remove)
  then have "slots_ok h (?a @ (h, length data) # ?c)"
    by (rule slots_ok_insert) (use h in linarith)
  moreover have "?sl = ?a @ (h, length data) # ?c" using k by (simp add: upd_conv_take_nth_drop)
  ultimately have "slots_ok h ?sl" by simp
  then show "page_inv (grow_buffer b k data)"
    by (rule page_invI [OF g(1,2,4)]) (use h in simp)
  have kept: "cell (grow_buffer b k data) t = cell ?b1 t" if "in_heap h t" for t
    using g(6) [of t] sb(6) [of h t] that h b1(4) by (simp add: b2_def in_heap_def)
  have new: "cell (grow_buffer b k data) (h, length data) = data"
    using kept [of "(h, length data)"] d h by (simp add: in_heap_def cell_def range_put_same)
  have old: "cell (grow_buffer b k data) t = cell b t" if "t \<in> set (?a @ ?c)" for t
  proof -
    have "t \<in> set (slots b)" using that by (auto dest: in_set_takeD in_set_dropD)
    then have "in_heap (heap_start b) t" by (rule slots_ok_in [OF d(4)])
    then show ?thesis
      using kept [of t] in_heap_mono [of "heap_start b" t h]
        cell_put_below [of "heap_start b" t h data b] d h by simp
  qed
  show "records (grow_buffer b k data) = (records b)[k := data]"
    using g(4) k new old by (rule records_update)
  show "header_kept b (grow_buffer b k data)" using header_kept_trans [OF b2(3) g(5)] .
qed

lemma try_update_grow:
  assumes inv: "page_inv b" and k: "unat i < items b" and large: "snd (slot b (unat i)) < length data"
    and room: "length data \<le> gap b"
  shows "try_update_record b i data = Some (Ok i, grow_buffer b (unat i) data)"
proof -
  note d = page_invD [OF inv]
  let ?k = "unat i" and ?h = "heap_start b - length data"
  have cnt: "get_item_count b = Some (u16_at b 20)" "unat (u16_at b 20) = items b"
    using d by (simp_all add: get_item_count_eq items_def)
  obtain off l where s: "slot b ?k = (off, l)" by (cases "slot b ?k")
  have gs: "get_slot b i = Some (off, l)" using k d s by (subst get_slot_eq) simp_all
  have hb: "length data \<le> heap_start b" "32 + 4 * items b \<le> ?h"
    using room d large k unfolding gap_def by linarith+
  have sub: "checked_sub_u16 (u16_at b 22) (of_nat (length data)) = Some (of_nat ?h)"
    "unat (of_nat ?h :: u16) = ?h"
    using checked_sub_heap [OF inv hb(1)] by simp_all
  have c1: "copy_from_slice b ?h (?h + length data) data = Some (put b ?h data)"
    using hb d by (intro copy_from_slice_ok) simp_all
  have len1: "length (put b ?h data) = 8192" using hb d by simp
  have c2: "set_slot (put b ?h data) i (of_nat ?h) (of_nat (length data)) =
      Some (slot_buffer (put b ?h data) ?k ?h (length data))"
    using len1 d k by (intro set_slot_buffer) simp
  have "length (slot_buffer (put b ?h data) ?k ?h (length data)) = 8192"
    using len1 d k by (simp add: slot_buffer_def)
  then have c3: "set_page_header_u16_value (slot_buffer (put b ?h data) ?k ?h (length data)) 22
      (of_nat ?h) = Some (grow_buffer b ?k data)"
    by (simp add: set_u16_eq grow_buffer_def Let_def)
  show ?thesis
    using k large room cnt s d(1) c1 c2 c3
    by (simp add: try_update_record_def word_le_nat_alt gs contiguous_eq [OF inv] page_consts
        get_u16_eq sub Let_def del: of_nat_diff)
qed

lemma try_update_eq:
  assumes inv: "page_inv b"
  shows "try_update_record b i data = Some
    (if items b \<le> unat i then (Err InvalidSlotIndex, b)
     else if length data \<le> snd (slot b (unat i)) then (Ok i, shrink_buffer b (unat i) data)
     else if gap b < length data then (Err PageFull, b)
     else (Ok i, grow_buffer b (unat i) data))"
proof -
  note d = page_invD [OF inv]
  have cnt: "get_item_count b = Some (u16_at b 20)" "unat (u16_at b 20) = items b"
    using d by (simp_all add: get_item_count_eq items_def)
  show ?thesis
  proof (cases "items b \<le> unat i")
    case True
    then show ?thesis using cnt by (simp add: try_update_record_def word_le_nat_alt)
  next
    case valid: False
    let ?k = "unat i"
    obtain off l where s: "slot b ?k = (off, l)" by (cases "slot b ?k")
    have gs: "get_slot b i = Some (off, l)" using valid d s by (subst get_slot_eq) simp_all
    have "(off, l) \<in> set (slots b)" using nth_mem [of ?k "slots b"] valid s by simp
    then have heap: "heap_start b \<le> off" "off + l \<le> 8192"
      using slots_ok_in [OF d(4)] by (auto simp: in_heap_def)
    consider (small) "length data \<le> l" | (full) "l < length data" "gap b < length data"
      | (grow) "l < length data" "length data \<le> gap b" by linarith
    then show ?thesis
    proof cases
      case small
      have c: "copy_from_slice b off (off + length data) data = Some (put b off data)"
        using small heap d by (intro copy_from_slice_ok) simp_all
      have s': "set_slot (put b off data) i (of_nat off) (of_nat (length data)) =
          Some (slot_buffer (put b off data) ?k off (length data))"
        using small heap d valid by (intro set_slot_buffer) simp
      show ?thesis
        using valid small cnt s
        by (simp add: try_update_record_def word_le_nat_alt gs c s' shrink_buffer_def Let_def)
    next
      case full
      then show ?thesis
        using valid cnt s by (simp add: try_update_record_def word_le_nat_alt gs contiguous_eq [OF inv])
    next
      case grow
      then show ?thesis using try_update_grow [OF inv, of i data] valid s by simp
    qed
  qed
qed

subsection \<open>Compaction\<close>

lemma fill_range_ok:
  "a + n \<le> length xs \<Longrightarrow> fill_range xs a (a + n) v = Some (put xs a (replicate n v))"
  by (simp add: fill_range_def)

lemma get_record_eq:
  assumes inv: "page_inv b"
  shows "get_record b i = Some (if unat i < items b then Some (records b ! unat i) else None)"
proof -
  note d = page_invD [OF inv]
  have cnt: "get_item_count b = Some (u16_at b 20)" "unat (u16_at b 20) = items b"
    using d by (simp_all add: get_item_count_eq items_def)
  show ?thesis
  proof (cases "unat i < items b")
    case True
    obtain off l where s: "slot b (unat i) = (off, l)" by (cases "slot b (unat i)")
    have gs: "get_slot b i = Some (off, l)" using True d s by (subst get_slot_eq) simp_all
    have "(off, l) \<in> set (slots b)" using nth_mem [of "unat i" "slots b"] True s by simp
    then have "off + l \<le> length b"
      using slots_ok_in [OF d(4)] d(1) by (auto simp: in_heap_def)
    then show ?thesis
      using True cnt s by (simp add: get_record_def word_le_nat_alt gs records_def cell_def)
  qed (use cnt in \<open>simp add: get_record_def word_le_nat_alt\<close>)
qed

lemma collect_loop_eq:
  assumes "page_inv b" and "\<forall>i \<in> set is. unat i < items b"
  shows "collect_loop b is acc = Some (acc @ concat (map (\<lambda>i. records b ! unat i) is))"
  using assms(2) by (induction "is" arbitrary: acc) (simp_all add: get_record_eq [OF assms(1)])

lemma rewrite_step:
  assumes len: "length c = 8192" and k: "k < items c" and small: "items c \<le> 2040"
    and s: "slots c ! k = (off, length r)" and data: "range_of data n (length r) = r" "n + length r \<le> length data"
    and h: "32 + 4 * items c \<le> h" "h + length r \<le> 8192"
  shows "rewrite_loop data (map of_nat [k..<items c]) c (h + length r) n =
    rewrite_loop data (map of_nat [Suc k..<items c]) (slot_buffer (put c h r) k h (length r)) h (n + length r)"
proof -
  have k': "unat (of_nat k :: u16) = k" using k small by (intro unat_of_nat_u16) simp
  have "get_slot c (of_nat k) = Some (off, length r)"
    using get_slot_eq [of "of_nat k" c] nth_slots [OF k] k' k len small s by simp
  moreover have "slice data n (n + length r) = Some r" using data by (simp add: slice_def range_of_def)
  moreover have "checked_sub (h + length r) (length r) = Some h" by simp
  moreover have "copy_from_slice c h (h + length r) r = Some (put c h r)"
    using h len by (intro copy_from_slice_ok) simp_all
  moreover have "set_slot (put c h r) (of_nat k) (of_nat h) (of_nat (length r)) = Some (slot_buffer (put c h r) k h (length r))"
    using set_slot_buffer [of "of_nat k" "put c h r" h "length r"] k' len h k by simp
  ultimately show ?thesis using upt_conv_Cons [OF k] by simp
qed

lemma rewrite_loop_ok:
  assumes "length c = 8192" and "slots c = done @ rest" and "32 + 4 * items c + used rest \<le> ho"
    and "slots_ok ho done" and "map length rs = map snd rest" and "items c \<le> 2040"
  shows "\<exists>c'. rewrite_loop (pre @ concat rs) (map of_nat [length done..<items c]) c ho (length pre) =
      Some (c', ho - used rest) \<and>
    length c' = 8192 \<and> items c' = items c \<and> header_kept c c' \<and>
    records c' = map (cell c) done @ rs \<and> slots_ok (ho - used rest) (slots c')"
  using assms
proof (induction rest arbitrary: c "done" ho rs pre)
  case Nil
  then have "length done = items c" using length_slots [of c] by simp
  then show ?case using Nil by (simp add: records_def)
next
  case (Cons s rest)
  let ?k = "length done"
  obtain r rs' where rs: "rs = r # rs'" "s = (fst s, length r)" "map length rs' = map snd rest"
    using Cons.prems(5) by (cases s) auto
  have k: "items c = ?k + Suc (length rest)" using length_slots [of c] Cons.prems(2) by simp
  have ho: "ho \<le> 8192" using Cons.prems(4) by (simp add: slots_ok_def)
  define h where "h = ho - length r"
  have "used (s # rest) = length r + used rest" using arg_cong [OF rs(2), of snd] by simp
  then have h: "32 + 4 * items c + used rest \<le> h" "h + length r = ho" "ho - used (s # rest) = h - used rest"
    using Cons.prems(3) unfolding h_def by linarith+
  let ?b1 = "put c h r"
  have len1: "length ?b1 = 8192" using Cons.prems(1) h ho by simp
  have b1: "slots ?b1 = slots c" "header_kept c ?b1" "items ?b1 = items c"
    using slots_put_heap [OF Cons.prems(1), of h r] h ho by simp_all
  define b2 where "b2 = slot_buffer ?b1 ?k h (length r)"
  have fits: "32 + 4 * items ?b1 \<le> 8192" "?k < items ?b1" "h < 65536" "length r < 65536"
    using b1 k h ho by auto
  note sb = slot_buffer_page [OF len1 fits(2,1,3,4), folded b2_def]
  have items2: "items b2 = items c" using sb(3) b1(3) by simp
  have sl2: "slots b2 = (done @ [(h, length r)]) @ rest" using sb(4) b1(1) Cons.prems(2) by simp
  have ok2: "slots_ok h (done @ [(h, length r)])"
    using slots_ok_insert [of ho "done" "[]" h "length r"] Cons.prems(4) h by simp
  have "slots c ! ?k = (fst s, length r)" using Cons.prems(2) rs(2) by simp
  from rewrite_step [OF Cons.prems(1) _ Cons.prems(6) this, of "pre @ concat rs" "length pre" h]
  have step: "rewrite_loop (pre @ concat rs) (map of_nat [?k..<items c]) c ho (length pre) =
      rewrite_loop ((pre @ r) @ concat rs') (map of_nat [length (done @ [(h, length r)])..<items b2]) b2 h
        (length (pre @ r))"
    using k h ho rs(1) items2 by (simp add: b2_def range_of_def)
  have room: "32 + 4 * items b2 + used rest \<le> h" "items b2 \<le> 2040"
    using h items2 Cons.prems(6) by simp_all
  obtain c' where c': "rewrite_loop ((pre @ r) @ concat rs')
        (map of_nat [length (done @ [(h, length r)])..<items b2]) b2 h (length (pre @ r)) =
      Some (c', h - used rest)" "length c' = 8192" "items c' = items b2" "header_kept b2 c'"
    "records c' = map (cell b2) (done @ [(h, length r)]) @ rs'" "slots_ok (h - used rest) (slots c')"
    using Cons.IH [OF sb(1) sl2 room(1) ok2 rs(3) room(2)] by blast
  have cells: "cell b2 t = cell ?b1 t" if "in_heap h t" for t
    using sb(6) [of h t] that h b1(3) by simp
  have "cell b2 t = cell c t" if "t \<in> set done" for t
  proof -
    have "in_heap ho t" using Cons.prems(4) that by (rule slots_ok_in)
    then show ?thesis
      using cells [of t] in_heap_mono [of ho t h] cell_put_below [of ho t h r c] h ho Cons.prems(1)
      by simp
  qed
  then have "map (cell b2) done = map (cell c) done" by simp
  moreover have "cell b2 (h, length r) = r"
    using cells [of "(h, length r)"] h ho Cons.prems(1) by (simp add: in_heap_def cell_def range_put_same)
  ultimately have "records c' = map (cell c) done @ rs" using c'(5) rs(1) by simp
  moreover have "header_kept c c'" using b1(2) sb(5) c'(4) header_kept_trans by blast
  ultimately show ?case unfolding step using c' items2 h(3) by simp
qed

text \<open>What the two loops of a compaction do: the records are collected and written at the end of the page.\<close>

lemma records_collected:
  assumes inv: "page_inv b"
  shows "collect_loop b (upto_u16 (u16_at b 20)) [] = Some (concat (records b))"
proof -
  have cnt: "unat (u16_at b 20) = items b" by (simp add: items_def)
  have "collect_loop b (upto_u16 (u16_at b 20)) [] =
      Some ([] @ concat (map (\<lambda>i. records b ! unat i) (upto_u16 (u16_at b 20))))"
    using inv upto_u16_unat [of _ "u16_at b 20"] cnt by (intro collect_loop_eq) auto
  also have "map (\<lambda>i. records b ! unat i) (upto_u16 (u16_at b 20)) = records b"
    unfolding map_upto_u16 [of "\<lambda>i. records b ! i"] cnt by (intro nth_equalityI) simp_all
  finally show ?thesis by simp
qed

lemma records_rewritten:
  assumes inv: "page_inv b"
  shows "\<exists>c. rewrite_loop (concat (records b)) (upto_u16 (u16_at b 20)) b 8192 0 = Some (c, 8192 - used (slots b)) \<and>
    length c = 8192 \<and> items c = items b \<and> header_kept b c \<and> records c = records b \<and>
    slots_ok (8192 - used (slots b)) (slots c)"
proof -
  note d = page_invD [OF inv]
  have upto: "upto_u16 (u16_at b 20) = map of_nat [0..<items b]" by (simp add: upto_u16_def items_def)
  have lens: "map length (records b) = map snd (slots b)"
    using slots_ok_in [OF d(4)] d(1) by (auto simp: records_def cell_def in_heap_def)
  have "slots_ok 8192 []" by (simp add: slots_ok_def)
  moreover have "32 + 4 * items b + used (slots b) \<le> 8192" using d(2,4) unfolding slots_ok_def by linarith
  ultimately show ?thesis
    using rewrite_loop_ok [OF d(1), of "[]" "slots b" 8192 "records b" "[]"] d lens by (simp add: upto)
qed

text \<open>The space between the slots and the heap is cleared, and the new start of the heap set.\<close>

lemma heap_cleared:
  assumes "length c = 8192" and "items c = n" and "32 + 4 * n \<le> h" and "h \<le> 8192" and ok: "slots_ok h (slots c)"
    and c': "c' = put (put c (32 + 4 * n) (replicate (h - (32 + 4 * n)) 0)) 22 (u16_to_le_bytes (of_nat h))"
  shows "page_inv c'" and "records c' = records c" and "header_kept c c'" and "items c' = n" and "heap_start c' = h"
proof -
  define c1 where "c1 = put c (32 + 4 * n) (replicate (h - (32 + 4 * n)) 0)"
  have c1: "length c1 = 8192" "slots c1 = slots c" "items c1 = n" "header_kept c c1"
    using slots_put_heap [OF assms(1), of "32 + 4 * n" "replicate (h - (32 + 4 * n)) 0"] assms(1-4)
    by (simp_all add: c1_def)
  have "32 + 4 * items c1 \<le> 8192" "h < 65536" using c1(3) assms(3,4) by simp_all
  note p = put_heap_start [OF c1(1) this c' [folded c1_def], unfolded c1(2,3)]
  show "items c' = n" "heap_start c' = h" by (rule p)+
  show "page_inv c'" by (rule page_invI [OF p(1,2,4) ok]) (use assms(2,3) in simp)
  show "header_kept c c'" using header_kept_trans [OF c1(4) p(5)] .
  have "cell c' s = cell c s" if "s \<in> set (slots c)" for s
  proof -
    have s: "h \<le> fst s" "fst s + snd s \<le> 8192" using slots_ok_in [OF ok that] by (simp_all add: in_heap_def)
    then have "cell c1 s = cell c s" using assms(1,3) by (simp add: c1_def cell_def range_put_disjoint)
    then show ?thesis using p(6) [of s] s assms(3) by simp
  qed
  then show "records c' = records c" by (simp add: records_def p(4))
qed

lemma compact_page:
  assumes inv: "page_inv b"
  shows "\<exists>b'. compact b = Some b' \<and> page_inv b' \<and> records b' = records b \<and> header_kept b b' \<and>
    gap b' = gap b + (8192 - heap_start b - used (slots b))"
proof -
  note d = page_invD [OF inv]
  define frag where "frag = 8192 - heap_start b - used (slots b)"
  have fs: "get_free_space b = Some (gap b + frag)" "get_free_space_contiguous b = Some (gap b)"
    using free_space_eq [OF inv] contiguous_eq [OF inv] by (simp_all add: frag_def)
  show ?thesis
  proof (cases "frag = 0")
    case True
    then show ?thesis using inv fs by (auto simp: compact_def frag_def)
  next
    case False
    let ?h = "8192 - used (slots b)" and ?f = "32 + 4 * items b"
    have u: "heap_start b + used (slots b) + frag = 8192"
      using d(4) unfolding frag_def slots_ok_def by linarith
    have h: "heap_start b + frag = ?h" "?f + (gap b + frag) = ?h"
      using u d(2) unfolding gap_def by linarith+
    obtain c where c: "rewrite_loop (concat (records b)) (upto_u16 (u16_at b 20)) b 8192 0 = Some (c, ?h)"
      "length c = 8192" "items c = items b" "header_kept b c" "records c = records b" "slots_ok ?h (slots c)"
      using records_rewritten [OF inv] by blast
    define c1 where "c1 = put c ?f (replicate (gap b + frag) 0)"
    define c2 where "c2 = put c1 22 (u16_to_le_bytes (of_nat ?h))"
    have "?f \<le> ?h" "?h \<le> 8192" "gap b + frag = ?h - ?f" using h(2) by linarith+
    note clear = heap_cleared [OF c(2,3) this(1,2) c(6), folded this(3) c1_def, OF c2_def]
    have "fill_range c ?f (?f + (gap b + frag)) 0 = Some c1"
      unfolding c1_def by (rule fill_range_ok) (use h c(2) in simp)
    moreover have "set_page_header_u16_value c1 22 (of_nat ?h) = Some c2"
      using c(2) h(2) by (simp add: set_u16_eq c2_def c1_def)
    moreover have "checked_sub 8160 (items b * 4) = Some (8160 - items b * 4)"
      "checked_sub (8160 - items b * 4) (gap b + frag) = Some (8160 - items b * 4 - (gap b + frag))"
      using d h by simp_all
    moreover have "get_item_count b = Some (u16_at b 20)" "unat (u16_at b 20) = items b"
      using d by (simp_all add: get_item_count_eq items_def)
    ultimately have "compact b = Some c2"
      using False records_collected [OF inv] c(1)
      by (simp add: compact_def fs page_consts Let_def mult.commute [of _ 4] del: of_nat_diff)
    moreover have "gap c2 = gap b + frag" using clear(4,5) h by (simp add: gap_def)
    ultimately show ?thesis using clear(1-3) c(5) header_kept_trans [OF c(4) clear(3)] by (auto simp: frag_def)
  qed
qed

subsection \<open>Initialization\<close>

lemma take_to_le: "m \<le> n \<Longrightarrow> take m (to_le n v) = to_le m v"
proof (induction m arbitrary: n v)
  case (Suc m)
  then show ?case by (cases n) simp_all
qed simp

lemma from_le_append: "from_le (xs @ ys) = from_le xs + 256 ^ length xs * from_le ys"
  by (induction xs) (simp_all add: algebra_simps)

definition parent_or_max :: "u64 option \<Rightarrow> u64" where
  "parent_or_max parent = (case parent of Some i \<Rightarrow> i | None \<Rightarrow> - 1)"

definition init_buffer :: "page_type \<Rightarrow> u64 option \<Rightarrow> bytes" where
  "init_buffer ty parent =
     put (put (put (put (put (put (put (replicate 8192 0) 24 [page_type_as_u8 ty])
       20 (u16_to_le_bytes 0))
       8 (u64_to_le_bytes (parent_or_max parent)))
       12 (u32_to_le_bytes (- 1)))
       16 (u32_to_le_bytes (- 1)))
       12 (u32_to_le_bytes (- 1)))
       22 (u16_to_le_bytes 8192)"

lemma initialize_eq:
  assumes "length b = 8192"
  shows "initialize b ty parent = Some (init_buffer ty parent)"
proof -
  have "put b 0 (replicate 8192 0) = replicate 8192 0" using assms by (simp add: put_def)
  then have fill: "fill_range b 0 8192 0 = Some (replicate 8192 0)"
    using assms by (simp add: fill_range_def)
  have set: "set_index (replicate 8192 0) 24 (page_type_as_u8 ty) =
      Some (put (replicate 8192 0) 24 [page_type_as_u8 ty])"
    by (simp add: set_index_def list_update_put)
  show ?thesis
    unfolding initialize_def page_consts assms INVALID_PAGE_INDEX_def parent_or_max_def [symmetric]
    by (simp add: fill set set_u16_eq set_u32_eq set_u64_eq copy_from_slice_ok [of 22 2, simplified]
        init_buffer_def Let_def)
qed

lemma page_type_from_as_u8: "page_type_from (page_type_as_u8 ty) = ty"
  by (cases ty) (simp_all add: page_type_from_def)

lemma init_buffer_page:
  "length (init_buffer ty parent) = 8192"
  "items (init_buffer ty parent) = 0"
  "heap_start (init_buffer ty parent) = 8192"
  "u32_at (init_buffer ty parent) 12 = - 1"
  "u32_at (init_buffer ty parent) 16 = - 1"
  "init_buffer ty parent ! 24 = page_type_as_u8 ty"
  by (simp_all add: init_buffer_def items_def heap_start_def buf_simps nth_put)

lemma init_buffer_inv: "page_inv (init_buffer ty parent)" "records (init_buffer ty parent) = []"
proof -
  have "slots (init_buffer ty parent) = []"
    using init_buffer_page(2) length_slots by (metis length_0_conv)
  then show "page_inv (init_buffer ty parent)" "records (init_buffer ty parent) = []"
    using init_buffer_page [of ty parent] by (simp_all add: page_inv_def slots_ok_def records_def)
qed

lemma u64_at_overwritten:
  assumes "length b = 8192"
  shows "u64_at (put (put b 8 (u64_to_le_bytes x)) 12 (u32_to_le_bytes y)) 8 =
    of_nat (unat x mod 2 ^ 32 + 2 ^ 32 * unat y)"
proof -
  let ?b = "put (put b 8 (u64_to_le_bytes x)) 12 (u32_to_le_bytes y)"
  have "range_of ?b 8 8 = take 4 (u64_to_le_bytes x) @ u32_to_le_bytes y"
    using assms by (intro nth_equalityI) (auto simp: nth_range_of nth_put nth_append)
  then have "range_of ?b 8 8 = to_le 4 (unat x) @ u32_to_le_bytes y"
    by (simp add: u64_to_le_bytes_def take_to_le)
  moreover have "from_le (u32_to_le_bytes y) = unat y"
    using unat_u32_less [of y] by (simp add: u32_to_le_bytes_def from_le_to_le)
  ultimately show ?thesis
    by (simp add: u64_at_def u64_from_le_bytes_def from_le_append from_le_to_le
        del: of_nat_add of_nat_mult)
qed

lemma init_buffer_parent:
  "u64_at (init_buffer ty parent) 8 =
   of_nat (unat (parent_or_max parent) mod 2 ^ 32 + 2 ^ 32 * (2 ^ 32 - 1))"
proof -
  let ?b = "put (put (replicate 8192 0) 24 [page_type_as_u8 ty]) 20 (u16_to_le_bytes 0)"
  let ?c = "put (put ?b 8 (u64_to_le_bytes (parent_or_max parent))) 12 (u32_to_le_bytes (- 1))"
  have "unat (- 1 :: u32) = 2 ^ 32 - 1" by (simp add: unsigned_minus_1_eq_mask mask_eq_exp_minus_1)
  moreover have "put (put ?c 16 (u32_to_le_bytes (- 1))) 12 (u32_to_le_bytes (- 1)) =
      put ?c 16 (u32_to_le_bytes (- 1))"
  proof (rule nth_equalityI)
    fix i
    assume "i < length (put (put ?c 16 (u32_to_le_bytes (- 1))) 12 (u32_to_le_bytes (- 1)))"
    then show "put (put ?c 16 (u32_to_le_bytes (- 1))) 12 (u32_to_le_bytes (- 1)) ! i =
        put ?c 16 (u32_to_le_bytes (- 1)) ! i"
      by (auto simp: nth_put)
  qed simp
  ultimately show ?thesis
    using u64_at_overwritten [of ?b "parent_or_max parent" "- 1"]
    by (simp add: init_buffer_def u64_at_put_other del: of_nat_add of_nat_mult)
qed

section \<open>The contract of a page of records\<close>

text \<open>
  What the leaf nodes rely on: a page is an ordered list of records with some room left, a record
  of length \<open>n\<close> takes \<open>n + 4\<close> of the room, and what else is kept in the page (\<open>same\<close>) is not
  touched.
\<close>

locale record_page =
  fixes ok :: "'p \<Rightarrow> bool"
    and recs :: "'p \<Rightarrow> bytes list"
    and room :: "'p \<Rightarrow> nat"
    and same :: "'p \<Rightarrow> 'p \<Rightarrow> bool"
    and count :: "'p \<Rightarrow> u16 option"
    and insert_at :: "'p \<Rightarrow> u16 \<Rightarrow> bytes \<Rightarrow> ((storage_error, u16) rust_result \<times> 'p) option"
  assumes count_ok: "ok p \<Longrightarrow> count p = Some (of_nat (length (recs p)))"
    and count_small: "ok p \<Longrightarrow> length (recs p) < 65536"
    and insert_fits: "ok p \<Longrightarrow> length d + 4 \<le> room p \<Longrightarrow> unat i \<le> length (recs p) \<Longrightarrow>
      \<exists>p'. insert_at p i d = Some (Ok i, p') \<and> ok p' \<and>
        recs p' = take (unat i) (recs p) @ d # drop (unat i) (recs p) \<and>
        room p' + length d + 4 = room p \<and> same p p'"
    and insert_full: "ok p \<Longrightarrow> room p < length d + 4 \<Longrightarrow> insert_at p i d = Some (Err PageFull, p)"
    and same_refl: "same p p"
    and same_trans: "same p q \<Longrightarrow> same q r \<Longrightarrow> same p r"

text \<open>The loop \<open>for record in .. { append(record)? }\<close> over an append operation.\<close>

primrec append_loop ::
  "('p \<Rightarrow> bytes \<Rightarrow> ((storage_error, u16) rust_result \<times> 'p) option) \<Rightarrow> bytes list \<Rightarrow> 'p \<Rightarrow>
   ((storage_error, unit) rust_result \<times> 'p) option" where
  "append_loop app [] p = Some (Ok (), p)"
| "append_loop app (r # rs) p = do {
     (res, p') \<leftarrow> app p r;
     (case res of
        Err e \<Rightarrow> Some (Err e, p')
      | Ok _ \<Rightarrow> append_loop app rs p')
   }"

text \<open>The room a list of records takes, and the longest prefix that fits.\<close>

definition room_of :: "bytes list \<Rightarrow> nat" where
  "room_of rs = sum_list (map (\<lambda>r. length r + 4) rs)"

lemma room_of_simps [simp]:
  "room_of [] = 0" "room_of (r # rs) = length r + 4 + room_of rs"
  "room_of (rs @ ss) = room_of rs + room_of ss"
  by (simp_all add: room_of_def)

fun fitting :: "nat \<Rightarrow> bytes list \<Rightarrow> bytes list" where
  "fitting n [] = []"
| "fitting n (r # rs) = (if length r + 4 \<le> n then r # fitting (n - (length r + 4)) rs else [])"

lemma fitting_all: "room_of rs \<le> n \<Longrightarrow> fitting n rs = rs"
  by (induction n rs rule: fitting.induct) auto

lemma fitting_all_iff: "fitting n rs = rs \<longleftrightarrow> room_of rs \<le> n"
  by (induction n rs rule: fitting.induct) auto

lemma fitting_prefix: "prefix (fitting n rs) rs"
  by (induction n rs rule: fitting.induct) auto

context record_page
begin

definition append_at :: "'p \<Rightarrow> bytes \<Rightarrow> ((storage_error, u16) rust_result \<times> 'p) option" where
  "append_at p d = do { n \<leftarrow> count p; insert_at p n d }"

lemma append_fits:
  assumes "ok p" and "length d + 4 \<le> room p"
  shows "\<exists>p' i. append_at p d = Some (Ok i, p') \<and> ok p' \<and> recs p' = recs p @ [d] \<and>
    room p' + length d + 4 = room p \<and> same p p'"
proof -
  have n: "unat (of_nat (length (recs p)) :: u16) = length (recs p)"
    using count_small [OF assms(1)] by (intro unat_of_nat_u16) simp
  show ?thesis
    using insert_fits [OF assms, of "of_nat (length (recs p))"] n
    by (auto simp: append_at_def count_ok [OF assms(1)])
qed

lemma append_full: "ok p \<Longrightarrow> room p < length d + 4 \<Longrightarrow> append_at p d = Some (Err PageFull, p)"
  by (simp add: append_at_def count_ok insert_full)

lemma append_loop_outcome:
  assumes "ok p"
  shows "\<exists>p'. append_loop append_at rs p =
      Some (if room_of rs \<le> room p then Ok () else Err PageFull, p') \<and>
    ok p' \<and> recs p' = recs p @ fitting (room p) rs \<and>
    room p' + room_of (fitting (room p) rs) = room p \<and> same p p'"
  using assms
proof (induction rs arbitrary: p)
  case Nil
  then show ?case by (simp add: same_refl)
next
  case (Cons r rs)
  show ?case
  proof (cases "length r + 4 \<le> room p")
    case True
    then obtain q i where q: "append_at p r = Some (Ok i, q)" "ok q" "recs q = recs p @ [r]"
      "room q + length r + 4 = room p" "same p q"
      using append_fits [OF Cons.prems] by blast
    have rq: "room p - (length r + 4) = room q" using q(4) by simp
    obtain p' where "append_loop append_at rs q =
        Some (if room_of rs \<le> room q then Ok () else Err PageFull, p')"
      "ok p'" "recs p' = recs q @ fitting (room q) rs"
      "room p' + room_of (fitting (room q) rs) = room q" "same q p'"
      using Cons.IH [OF q(2)] by blast
    moreover have "room_of (r # rs) \<le> room p \<longleftrightarrow> room_of rs \<le> room q"
      using q(4) by auto
    ultimately show ?thesis
      using q rq True same_trans [OF q(5)] by auto
  next
    case False
    then show ?thesis
      using Cons.prems append_full [OF Cons.prems, of r] by (simp add: same_refl)
  qed
qed

end

section \<open>Properties of the slotted page\<close>

lemma count_of_page: "page_inv b \<Longrightarrow> get_item_count b = Some (of_nat (length (records b)))"
  by (simp add: get_item_count_eq page_invD items_def)

lemma try_insert_full:
  "page_inv b \<Longrightarrow> gap b < length data + 4 \<Longrightarrow> try_insert_record b i data = Some (Err PageFull, b)"
  by (simp add: try_insert_record_def contiguous_eq SLOT_SIZE_def)

lemma try_insert_index:
  "page_inv b \<Longrightarrow> length data + 4 \<le> gap b \<Longrightarrow> items b < unat i \<Longrightarrow>
   try_insert_record b i data = Some (Err InvalidSlotIndex, b)"
  by (simp add: try_insert_record_def contiguous_eq SLOT_SIZE_def count_of_page word_less_nat_alt
      items_def)

interpretation slotted: record_page page_inv records gap header_kept get_item_count try_insert_record
proof
  fix p :: bytes and d :: bytes and i :: u16
  assume p: "page_inv p"
  show "get_item_count p = Some (of_nat (length (records p)))" using p by (rule count_of_page)
  show "length (records p) < 65536" using page_invD(5) [OF p] by simp
  show "try_insert_record p i d = Some (Err PageFull, p)" if "gap p < length d + 4"
    using p that by (rule try_insert_full)
  show "\<exists>p'. try_insert_record p i d = Some (Ok i, p') \<and> page_inv p' \<and>
      records p' = take (unat i) (records p) @ d # drop (unat i) (records p) \<and>
      gap p' + length d + 4 = gap p \<and> header_kept p p'"
    if "length d + 4 \<le> gap p" "unat i \<le> length (records p)"
  proof -
    have "insertable p (unat i) d" using p that by (simp add: insertable_def)
    then show ?thesis using try_insert_ok insert_buffer_page by blast
  qed
qed (auto intro: header_kept_trans)

text \<open>
  Initializing a page gives a well-formed page with no records, of the requested type, with no
  siblings, whatever the buffer held.
\<close>

lemma initialize_empty:
  assumes "length b = 8192"
  shows "\<exists>p. initialize b ty parent = Some p \<and> page_inv p \<and> records p = [] \<and>
    get_page_type p = Some ty \<and> get_free_space p = Some 8160 \<and>
    get_page_header_u32_value p PAGE_HEADER_PREV_SIBLING_LEAF_PAGE_INDEX_OFFSET = Some INVALID_PAGE_INDEX \<and>
    get_page_header_u32_value p PAGE_HEADER_NEXT_SIBLING_LEAF_PAGE_INDEX_OFFSET = Some INVALID_PAGE_INDEX"
proof -
  let ?p = "init_buffer ty parent"
  note i = init_buffer_page [of ty parent] and inv = init_buffer_inv [of ty parent]
  have "used (slots ?p) = 0" using i(2) length_slots [of ?p] by (metis length_0_conv used_Nil)
  then have "get_free_space ?p = Some 8160"
    using free_space_eq [OF inv(1)] i by (simp add: gap_def)
  then show ?thesis
    using i inv initialize_eq [OF assms, of ty parent]
    by (simp add: get_page_type_def page_consts get_u32_eq INVALID_PAGE_INDEX_def
        page_type_from_as_u8)
qed

text \<open>
  C25: the parent pointer given to \<open>initialize\<close> does not survive it: the field is written as eight
  bytes at offset 8, whose upper half is the sibling pointer at offset 12 that is then set to
  invalid, so the value read back is the lower half of the parent below 32 one bits.
\<close>

theorem initialize_parent_lost:
  assumes "length b = 8192" and "unat x < 2 ^ 32"
  shows "\<exists>p. initialize b ty (Some x) = Some p \<and>
    get_page_header_u64_value p PAGE_HEADER_PARENT_INDEX_OFFSET =
      Some (of_nat (unat x + 2 ^ 32 * (2 ^ 32 - 1))) \<and>
    get_page_header_u64_value p PAGE_HEADER_PARENT_INDEX_OFFSET \<noteq> Some x"
proof -
  let ?v = "unat x + 2 ^ 32 * (2 ^ 32 - 1) :: nat"
  have "u64_at (init_buffer ty (Some x)) 8 = of_nat ?v"
    using init_buffer_parent [of ty "Some x"] assms(2)
    by (simp add: parent_or_max_def del: of_nat_add of_nat_mult)
  moreover have "unat (of_nat ?v :: u64) = ?v"
    using assms(2) by (simp add: unat_of_nat take_bit_nat_eq_self del: of_nat_add of_nat_mult)
  then have "(of_nat ?v :: u64) \<noteq> x" by auto
  ultimately show ?thesis
    using initialize_eq [OF assms(1), of ty "Some x"] init_buffer_page(1) [of ty "Some x"]
    by (simp add: page_consts get_u64_eq del: of_nat_add of_nat_mult)
qed

theorem initialize_parent_lost_witness:
  "\<exists>p. initialize (replicate 8192 0) PT_LeafNode (Some 5) = Some p \<and>
    get_page_header_u64_value p PAGE_HEADER_PARENT_INDEX_OFFSET =
      Some (of_nat (unat (5 :: u64) + 2 ^ 32 * (2 ^ 32 - 1))) \<and>
    get_page_header_u64_value p PAGE_HEADER_PARENT_INDEX_OFFSET \<noteq> Some 5"
  by (rule initialize_parent_lost) simp_all

lemma try_insert_outcome:
  assumes "page_inv p"
  shows "\<exists>p'. try_insert_record p i data =
      Some (if gap p < length data + 4 then Err PageFull
            else if length (records p) < unat i then Err InvalidSlotIndex else Ok i, p') \<and>
    page_inv p' \<and> header_kept p p' \<and>
    records p' = (if gap p < length data + 4 \<or> length (records p) < unat i then records p
      else take (unat i) (records p) @ data # drop (unat i) (records p))"
proof -
  consider "gap p < length data + 4" | "length data + 4 \<le> gap p" "items p < unat i"
    | "length data + 4 \<le> gap p" "unat i \<le> items p" by linarith
  then show ?thesis
  proof cases
    case 3
    then obtain p' where "try_insert_record p i data = Some (Ok i, p')" "page_inv p'"
      "records p' = take (unat i) (records p) @ data # drop (unat i) (records p)" "header_kept p p'"
      using slotted.insert_fits [OF assms, of data i] by auto
    with 3 show ?thesis by auto
  qed (use assms try_insert_full try_insert_index in auto)
qed

text \<open>
  C16: inserting a record reports a full page exactly when the record and its slot do not fit the
  contiguous free block and an invalid index when it lies beyond the slots, both without touching
  the page; otherwise the record becomes the one at that index, the later ones move up by one, all
  records keep their bytes, and the rest of the header is untouched.
\<close>

theorem try_insert_record_outcome:
  assumes "page_inv p"
  shows "\<exists>p'. try_insert_record p i data =
      Some (if gap p < length data + 4 then Err PageFull
            else if length (records p) < unat i then Err InvalidSlotIndex else Ok i, p') \<and>
    page_inv p' \<and> header_kept p p' \<and>
    records p' = (if gap p < length data + 4 \<or> length (records p) < unat i then records p
      else take (unat i) (records p) @ data # drop (unat i) (records p))"
  using assms by (rule try_insert_outcome)

lemma empty_page: "page_inv (init_buffer PT_LeafNode None)" "gap (init_buffer PT_LeafNode None) = 8160"
  "records (init_buffer PT_LeafNode None) = []"
  using init_buffer_inv [of PT_LeafNode None] init_buffer_page [of PT_LeafNode None]
  by (simp_all add: gap_def)

theorem try_insert_record_outcome_witness:
  "\<exists>p'. try_insert_record (init_buffer PT_LeafNode None) 0 [1, 2, 3] = Some (Ok 0, p') \<and>
    page_inv p' \<and> header_kept (init_buffer PT_LeafNode None) p' \<and> records p' = [[1, 2, 3]]"
  using try_insert_record_outcome [OF empty_page(1), of 0 "[1, 2, 3]"]
  by (simp add: empty_page)

text \<open>
  C19: deleting removes exactly the record at the index, and an index beyond the slots is ignored.
\<close>

theorem delete_record_outcome:
  assumes "page_inv p"
  shows "\<exists>p'. delete_record p i = Some p' \<and> page_inv p' \<and> header_kept p p' \<and>
    records p' = take (unat i) (records p) @ drop (Suc (unat i)) (records p)"
proof (cases "unat i < items p")
  case True
  then show ?thesis using delete_buffer_page [OF assms True] delete_record_eq [OF assms, of i] by simp
next
  case False
  then show ?thesis using assms delete_record_eq [OF assms, of i] by simp
qed

theorem delete_record_outcome_witness:
  "\<exists>p'. delete_record (insert_buffer (init_buffer PT_LeafNode None) 0 [1, 2, 3]) 0 = Some p' \<and>
    page_inv p' \<and>
    header_kept (insert_buffer (init_buffer PT_LeafNode None) 0 [1, 2, 3]) p' \<and> records p' = []"
proof -
  have "insertable (init_buffer PT_LeafNode None) 0 [1, 2, 3]"
    by (simp add: insertable_def empty_page)
  from insert_buffer_page [OF this] show ?thesis
    using delete_record_outcome [of "insert_buffer (init_buffer PT_LeafNode None) 0 [1, 2, 3]" 0]
    by (simp add: empty_page)
qed

lemma try_update_outcome:
  assumes "page_inv p"
  shows "\<exists>p' res. try_update_record p i data = Some (res, p') \<and> page_inv p' \<and> header_kept p p' \<and>
    res = (if length (records p) \<le> unat i then Err InvalidSlotIndex
           else if length (records p ! unat i) < length data \<and> gap p < length data then Err PageFull
           else Ok i) \<and>
    (case res of Ok _ \<Rightarrow> records p' = (records p)[unat i := data] | Err _ \<Rightarrow> p' = p)"
proof (cases "items p \<le> unat i")
  case True
  then show ?thesis using assms try_update_eq [OF assms, of i data] by simp
next
  case valid: False
  let ?k = "unat i"
  note d = page_invD [OF assms]
  have "slot p ?k \<in> set (slots p)" using nth_mem [of ?k "slots p"] valid by simp
  then have "fst (slot p ?k) + snd (slot p ?k) \<le> length p"
    using slots_ok_in [OF d(4)] d(1) by (simp add: in_heap_def)
  then have len: "length (records p ! ?k) = snd (slot p ?k)"
    using valid by (simp add: records_def cell_def)
  consider "length data \<le> snd (slot p ?k)" | "snd (slot p ?k) < length data" "gap p < length data"
    | "snd (slot p ?k) < length data" "length data \<le> gap p" by linarith
  then show ?thesis
  proof cases
    case 1
    then show ?thesis
      using valid len try_update_eq [OF assms, of i data] shrink_buffer_page [OF assms, of ?k data]
      by simp
  next
    case 2
    then show ?thesis using valid len assms try_update_eq [OF assms, of i data] by simp
  next
    case 3
    then show ?thesis
      using valid len try_update_eq [OF assms, of i data] grow_buffer_page [OF assms, of ?k data]
      by simp
  qed
qed

text \<open>
  C18: updating a record reports an invalid index exactly beyond the slots, a full page exactly when
  the record grows beyond the contiguous free block, both without touching the page; otherwise the
  record at the index becomes the new one and all others keep their bytes.
\<close>

theorem try_update_record_outcome:
  assumes "page_inv p"
  shows "\<exists>p' res. try_update_record p i data = Some (res, p') \<and> page_inv p' \<and> header_kept p p' \<and>
    res = (if length (records p) \<le> unat i then Err InvalidSlotIndex
           else if length (records p ! unat i) < length data \<and> gap p < length data then Err PageFull
           else Ok i) \<and>
    (case res of Ok _ \<Rightarrow> records p' = (records p)[unat i := data] | Err _ \<Rightarrow> p' = p)"
  using assms by (rule try_update_outcome)

theorem try_update_record_outcome_witness:
  "\<exists>p' res. try_update_record (init_buffer PT_LeafNode None) 0 [1] = Some (res, p') \<and> page_inv p' \<and>
    header_kept (init_buffer PT_LeafNode None) p' \<and> res = Err InvalidSlotIndex"
  using try_update_record_outcome [OF empty_page(1), of 0 "[1]"] by (auto simp: empty_page)

text \<open>
  C17: compaction keeps every record, its position and the header, and leaves all the free space of
  the page in one block.
\<close>

theorem compact_outcome:
  assumes "page_inv p"
  shows "\<exists>p' n. compact p = Some p' \<and> page_inv p' \<and> header_kept p p' \<and> records p' = records p \<and>
    get_free_space p = Some n \<and> get_free_space_contiguous p' = Some n \<and> get_free_space p' = Some n"
proof -
  let ?n = "gap p + (8192 - heap_start p - used (slots p))"
  obtain p' where p': "compact p = Some p'" "page_inv p'" "records p' = records p" "header_kept p p'"
    "gap p' = ?n"
    using compact_page [OF assms] by blast
  have used: "used (slots q) = sum_list (map length (records q))" if "page_inv q" for q
    using slots_ok_in [OF page_invD(4) [OF that]] page_invD(1) [OF that]
    by (auto simp: used_def records_def cell_def in_heap_def o_def intro!: arg_cong [of _ _ sum_list])
  have "used (slots p') = used (slots p)" "items p' = items p"
    using used [OF assms] used [OF p'(2)] p'(3) length_records [of p] length_records [of p'] by simp_all
  moreover have "heap_start p + used (slots p) \<le> 8192"
    using page_invD(4) [OF assms] by (simp add: slots_ok_def)
  moreover have "heap_start p' + used (slots p') \<le> 8192"
    using page_invD(4) [OF p'(2)] by (simp add: slots_ok_def)
  ultimately have "8192 - heap_start p' - used (slots p') = 0"
    using p'(5) page_invD(2) [OF assms] page_invD(2) [OF p'(2)] unfolding gap_def by linarith
  then show ?thesis
    using p' free_space_eq [OF assms] free_space_eq [OF p'(2)] contiguous_eq [OF p'(2)] by simp
qed

theorem compact_outcome_witness:
  "\<exists>p' n. compact (init_buffer PT_LeafNode None) = Some p' \<and> page_inv p' \<and>
    header_kept (init_buffer PT_LeafNode None) p' \<and> records p' = [] \<and>
    get_free_space (init_buffer PT_LeafNode None) = Some n \<and> get_free_space_contiguous p' = Some n \<and>
    get_free_space p' = Some n"
  using compact_outcome [OF empty_page(1)] by (simp only: empty_page)

text \<open>
  The pages reached from an initialized one by any sequence of operations, failing or not.
\<close>

inductive page_reachable :: "bytes \<Rightarrow> bool" where
  reach_init: "length b = 8192 \<Longrightarrow> initialize b ty parent = Some p \<Longrightarrow> page_reachable p"
| reach_insert: "page_reachable p \<Longrightarrow> try_insert_record p i data = Some (res, p') \<Longrightarrow> page_reachable p'"
| reach_update: "page_reachable p \<Longrightarrow> try_update_record p i data = Some (res, p') \<Longrightarrow> page_reachable p'"
| reach_delete: "page_reachable p \<Longrightarrow> delete_record p i = Some p' \<Longrightarrow> page_reachable p'"
| reach_compact: "page_reachable p \<Longrightarrow> compact p = Some p' \<Longrightarrow> page_reachable p'"

lemma reachable_inv: "page_reachable p \<Longrightarrow> page_inv p"
proof (induction rule: page_reachable.induct)
  case (reach_init b ty parent p)
  then show ?case using initialize_eq [of b ty parent] init_buffer_inv(1) by auto
next
  case (reach_insert p i data res p')
  then show ?case using try_insert_outcome [of p i data] by auto
next
  case (reach_update p i data res p')
  then show ?case
    using try_update_eq [of p i data] shrink_buffer_page(1) grow_buffer_page(1)
    by (auto split: if_splits simp: not_le)
next
  case (reach_delete p i p')
  then show ?case
    using delete_record_eq [of p i] delete_buffer_page(1) by (auto split: if_splits)
next
  case (reach_compact p p')
  then show ?case using compact_page [of p] by auto
qed

text \<open>
  C1: on every page that any sequence of operations reaches from an initialized page, the records
  are well-formed and every operation with any argument returns without a panic.
\<close>

theorem reachable_page_safe:
  assumes "page_reachable p"
  shows "page_inv p \<and> get_free_space p \<noteq> None \<and> get_free_space_contiguous p \<noteq> None \<and>
    get_record p i = Some (if unat i < length (records p) then Some (records p ! unat i) else None) \<and>
    try_insert_record p i data \<noteq> None \<and> try_update_record p i data \<noteq> None \<and>
    delete_record p i \<noteq> None \<and> compact p \<noteq> None"
proof -
  have inv: "page_inv p" using assms by (rule reachable_inv)
  have "try_insert_record p i data \<noteq> None" using try_insert_outcome [OF inv, of i data] by auto
  then show ?thesis
    using inv free_space_eq [OF inv] contiguous_eq [OF inv] get_record_eq [OF inv, of i]
      try_update_eq [OF inv, of i data] delete_record_eq [OF inv, of i] compact_page [OF inv]
    by auto
qed

theorem reachable_page_safe_witness:
  "page_inv (init_buffer PT_TableHeader None) \<and>
   get_record (init_buffer PT_TableHeader None) 3 = Some None"
proof -
  have "page_reachable (init_buffer PT_TableHeader None)"
    by (rule reach_init [of "replicate 8192 0"]) (simp_all add: initialize_eq)
  from reachable_page_safe [OF this, of 3] show ?thesis by (simp add: init_buffer_inv)
qed

end
