(* ===== verification/Leaf_Node.thy ===== *)
theory Leaf_Node
  imports Serializer Slotted_Page
begin

text \<open>
  \<open>crates/storage/src/btree/ops.rs\<close>, \<open>leaf_node_view.rs\<close> and \<open>btree_node.rs\<close>: a leaf of the
  B+tree, that is a page id with a slotted page whose records are kept in the order of their primary
  keys. Every function is modelled; the leaves a function changes through mutable references are
  among its results, also when it returns an error.
\<close>

section \<open>Definitions\<close>

subsection \<open>Binary search\<close>

text \<open>
  The \<open>while low < high\<close> loop: \<open>None\<close> is a panic or a search that never ends, which the code's
  three comparisons allow when the key is neither equal to, above nor below the key in the middle.
\<close>

partial_function (option) find_key_loop ::
  "'d decimal_ops \<Rightarrow> bytes \<Rightarrow> 'd key \<Rightarrow> table_definition \<Rightarrow> u16 \<Rightarrow> u16 \<Rightarrow>
   (usize, usize) rust_result option" where
  "find_key_loop D page key table_def low high =
     (if low < high then do {
        half \<leftarrow> checked_sub_u16 high low;
        mid \<leftarrow> checked_add_u16 low (half div 2);
        r \<leftarrow> get_record page mid;
        mid_point_data \<leftarrow> r;
        k \<leftarrow> deserialize_primary_key D table_def mid_point_data;
        mid_point_key \<leftarrow> unwrap k;
        (if key_eq D key mid_point_key then Some (Ok (unat mid))
         else if key_cmp D key mid_point_key = Greater then do {
           low' \<leftarrow> checked_add_u16 mid 1;
           find_key_loop D page key table_def low' high
         }
         else if key_cmp D key mid_point_key = Less then find_key_loop D page key table_def low mid
         else find_key_loop D page key table_def low high)
      }
      else Some (Err (unat low)))"

definition find_key ::
  "'d decimal_ops \<Rightarrow> bytes \<Rightarrow> 'd key \<Rightarrow> table_definition \<Rightarrow> (usize, usize) rust_result option" where
  "find_key D page key table_def = do {
     item_count \<leftarrow> get_item_count page;
     find_key_loop D page key table_def 0 item_count
   }"

subsection \<open>The view of a leaf\<close>

record leaf_node_view =
  lnv_page_id :: page_id
  page_view :: bytes

definition leaf_node_view_new :: "page_id \<Rightarrow> bytes \<Rightarrow> leaf_node_view" where
  "leaf_node_view_new page_id page = \<lparr>lnv_page_id = page_id, page_view = page\<rparr>"

datatype btree_node = Internal bytes | Leaf leaf_node_view

definition btree_node_new :: "page_id \<Rightarrow> bytes \<Rightarrow> btree_node" where
  "btree_node_new page_id page = Leaf (leaf_node_view_new page_id page)"

text \<open>An operation of the page of a leaf, run on the leaf.\<close>

definition on_page ::
  "leaf_node_view \<Rightarrow> ('r \<times> bytes) option \<Rightarrow> ('r \<times> leaf_node_view) option" where
  "on_page leaf r = map_option (\<lambda>(res, page). (res, leaf\<lparr>page_view := page\<rparr>)) r"

definition leaf_append ::
  "leaf_node_view \<Rightarrow> bytes \<Rightarrow> ((storage_error, u16) rust_result \<times> leaf_node_view) option" where
  "leaf_append leaf record_data = do {
     item_count \<leftarrow> get_page_header_u16_value (page_view leaf) PAGE_HEADER_ITEM_COUNT_OFFSET;
     on_page leaf (try_insert_record (page_view leaf) item_count record_data)
   }"

definition leaf_get_item_count :: "leaf_node_view \<Rightarrow> u16 option" where
  "leaf_get_item_count leaf =
     get_page_header_u16_value (page_view leaf) PAGE_HEADER_ITEM_COUNT_OFFSET"

definition get_next_leaf_index :: "leaf_node_view \<Rightarrow> u32 option option" where
  "get_next_leaf_index leaf = do {
     val \<leftarrow> get_page_header_u32_value (page_view leaf)
              PAGE_HEADER_NEXT_SIBLING_LEAF_PAGE_INDEX_OFFSET;
     Some (if val = INVALID_PAGE_INDEX then None else Some val)
   }"

definition get_prev_leaf_index :: "leaf_node_view \<Rightarrow> u32 option option" where
  "get_prev_leaf_index leaf = do {
     val \<leftarrow> get_page_header_u32_value (page_view leaf)
              PAGE_HEADER_PREV_SIBLING_LEAF_PAGE_INDEX_OFFSET;
     Some (if val = INVALID_PAGE_INDEX then None else Some val)
   }"

definition set_next_leaf_index :: "leaf_node_view \<Rightarrow> u32 option \<Rightarrow> leaf_node_view option" where
  "set_next_leaf_index leaf page_index = do {
     let i = (case page_index of Some i \<Rightarrow> i | None \<Rightarrow> INVALID_PAGE_INDEX);
     page \<leftarrow> set_page_header_u32_value (page_view leaf)
               PAGE_HEADER_NEXT_SIBLING_LEAF_PAGE_INDEX_OFFSET i;
     Some (leaf\<lparr>page_view := page\<rparr>)
   }"

definition set_prev_leaf_index :: "leaf_node_view \<Rightarrow> u32 option \<Rightarrow> leaf_node_view option" where
  "set_prev_leaf_index leaf page_index = do {
     let i = (case page_index of Some i \<Rightarrow> i | None \<Rightarrow> INVALID_PAGE_INDEX);
     page \<leftarrow> set_page_header_u32_value (page_view leaf)
               PAGE_HEADER_PREV_SIBLING_LEAF_PAGE_INDEX_OFFSET i;
     Some (leaf\<lparr>page_view := page\<rparr>)
   }"

definition leaf_find_key ::
  "'d decimal_ops \<Rightarrow> leaf_node_view \<Rightarrow> 'd key \<Rightarrow> table_definition \<Rightarrow>
   (usize, usize) rust_result option" where
  "leaf_find_key D leaf key table_def = find_key D (page_view leaf) key table_def"

definition insert_raw_record ::
  "leaf_node_view \<Rightarrow> u16 \<Rightarrow> bytes \<Rightarrow> ((storage_error, u16) rust_result \<times> leaf_node_view) option" where
  "insert_raw_record leaf slot_index record_bytes =
     on_page leaf (try_insert_record (page_view leaf) slot_index record_bytes)"

subsection \<open>Inserting and updating a record\<close>

definition insert_record ::
  "'d decimal_ops \<Rightarrow> leaf_node_view \<Rightarrow> 'd record_values \<Rightarrow> table_definition \<Rightarrow>
   ((storage_error, u16) rust_result \<times> leaf_node_view) option" where
  "insert_record D leaf r table_def = do {
     primary_key \<leftarrow> get_primary_key r table_def;
     slot_index \<leftarrow> leaf_find_key D leaf primary_key table_def;
     (case slot_index of
        Err insertion_slot \<Rightarrow> do {
          res \<leftarrow> serialize D (td_columns table_def) r;
          record_bytes \<leftarrow> unwrap res;
          on_page leaf (try_insert_record (page_view leaf) (of_nat insertion_slot) record_bytes)
        }
      | Ok _ \<Rightarrow> Some (Err DuplicateKey, leaf))
   }"

definition update_record ::
  "'d decimal_ops \<Rightarrow> leaf_node_view \<Rightarrow> 'd record_values \<Rightarrow> table_definition \<Rightarrow>
   ((storage_error, u16) rust_result \<times> leaf_node_view) option" where
  "update_record D leaf r table_def = do {
     key \<leftarrow> get_primary_key r table_def;
     slot_result \<leftarrow> find_key D (page_view leaf) key table_def;
     (case slot_result of
        Ok slot_index \<Rightarrow> do {
          res \<leftarrow> serialize D (td_columns table_def) r;
          record_data \<leftarrow> unwrap res;
          on_page leaf (try_update_record (page_view leaf) (of_nat slot_index) record_data)
        }
      | Err _ \<Rightarrow> Some (Err KeyNotFound, leaf))
   }"

subsection \<open>Merging\<close>

text \<open>The loop over the records of the right sibling.\<close>

primrec merge_loop ::
  "bytes \<Rightarrow> u16 list \<Rightarrow> leaf_node_view \<Rightarrow> ((storage_error, unit) rust_result \<times> leaf_node_view) option"
where
  "merge_loop right [] leaf = Some (Ok (), leaf)"
| "merge_loop right (i # is) leaf = do {
     record_data_option \<leftarrow> get_record right i;
     (case record_data_option of
        Some record_data \<Rightarrow> do {
          (res, leaf') \<leftarrow> leaf_append leaf record_data;
          (case res of
             Err _ \<Rightarrow> Some (Err InsertRecordFailed, leaf')
           | Ok _ \<Rightarrow> merge_loop right is leaf')
        }
      | None \<Rightarrow> Some (Err InvalidSlotIndex, leaf))
   }"

text \<open>The three leaves are this one, its right sibling and the one after it, if there is one.\<close>

definition merge ::
  "leaf_node_view \<Rightarrow> leaf_node_view \<Rightarrow> leaf_node_view option \<Rightarrow>
   ((storage_error, unit) rust_result \<times> leaf_node_view \<times> leaf_node_view \<times> leaf_node_view option) option"
where
  "merge leaf right next_right = do {
     right_free \<leftarrow> get_free_space (page_view right);
     used \<leftarrow> checked_sub PAGE_SIZE right_free;
     right_sibling_total_used \<leftarrow> checked_sub used PAGE_HEADER_SIZE;
     free \<leftarrow> get_free_space_contiguous (page_view leaf);
     (if right_sibling_total_used > free
      then Some (Err InsufficientSpaceForMerge, leaf, right, next_right)
      else do {
        right_sibling_item_count \<leftarrow> leaf_get_item_count right;
        (res, leaf') \<leftarrow> merge_loop (page_view right) (upto_u16 right_sibling_item_count) leaf;
        (case res of
           Err e \<Rightarrow> Some (Err e, leaf', right, next_right)
         | Ok _ \<Rightarrow> do {
             next_index \<leftarrow> get_next_leaf_index right;
             leaf'' \<leftarrow> set_next_leaf_index leaf' next_index;
             next_right' \<leftarrow> (case next_right of
                 None \<Rightarrow> Some None
               | Some n \<Rightarrow>
                   map_option Some (set_prev_leaf_index n (Some (pid_page_index (lnv_page_id leaf'')))));
             right_page \<leftarrow> initialize (page_view right) PT_Invalid None;
             Some (Ok (), leaf'', right\<lparr>page_view := right_page\<rparr>, next_right')
           })
      })
   }"

subsection \<open>Splitting\<close>

primrec split_index_loop :: "usize \<Rightarrow> bytes list \<Rightarrow> usize \<Rightarrow> usize \<Rightarrow> usize" where
  "split_index_loop half [] current_data_size i = i"
| "split_index_loop half (r # rs) current_data_size i =
     (if current_data_size + length r > half then i
      else split_index_loop half rs (current_data_size + length r) (i + 1))"

definition find_split_index_by_size :: "bytes list \<Rightarrow> usize \<Rightarrow> usize" where
  "find_split_index_by_size sorted_records total_size =
     split_index_loop (total_size div 2) sorted_records 0 0"

text \<open>
  The loop that merges the new record into the sorted list: the two vectors, the insertion position,
  whether the new record is in, and the size counted so far.
\<close>

record 'd split_state =
  sorted_keys :: "'d key list"
  sorted_records :: "bytes list"
  sorted_key_index :: usize
  new_record_inserted :: bool
  total_size :: usize

definition split_push :: "'d key \<Rightarrow> bytes \<Rightarrow> 'd split_state \<Rightarrow> 'd split_state option" where
  "split_push key data st = do {
     ks \<leftarrow> vec_insert (sorted_keys st) (sorted_key_index st) key;
     rs \<leftarrow> vec_insert (sorted_records st) (sorted_key_index st) data;
     Some (st\<lparr>sorted_keys := ks, sorted_records := rs\<rparr>)
   }"

definition bump_index :: "'d split_state \<Rightarrow> 'd split_state" where
  "bump_index st = st\<lparr>sorted_key_index := sorted_key_index st + 1\<rparr>"

primrec split_collect ::
  "'d decimal_ops \<Rightarrow> table_definition \<Rightarrow> bytes \<Rightarrow> 'd key \<Rightarrow> bytes \<Rightarrow> u16 list \<Rightarrow> 'd split_state \<Rightarrow>
   (storage_error, 'd split_state) rust_result option" where
  "split_collect D table_def page new_key new_data [] st = Some (Ok st)"
| "split_collect D table_def page new_key new_data (i # is) st = do {
     record_option \<leftarrow> get_record page i;
     (case record_option of
        None \<Rightarrow> Some (Err InvalidSlotIndex)
      | Some record_bytes \<Rightarrow> do {
          let st = st\<lparr>total_size := total_size st + length record_bytes\<rparr>;
          k \<leftarrow> deserialize_primary_key D table_def record_bytes;
          current_key \<leftarrow> unwrap k;
          st \<leftarrow>
            (if \<not> new_record_inserted st \<and> key_cmp D new_key current_key = Less then do {
               st' \<leftarrow> split_push new_key new_data st;
               Some ((bump_index st')\<lparr>new_record_inserted := True,
                 total_size := total_size st' + length new_data\<rparr>)
             }
             else Some st);
          st \<leftarrow> split_push current_key record_bytes st;
          split_collect D table_def page new_key new_data is (bump_index st)
        })
   }"

definition split_start :: "'d split_state" where
  "split_start = \<lparr>sorted_keys = [], sorted_records = [], sorted_key_index = 0,
     new_record_inserted = False, total_size = 0\<rparr>"

text \<open>
  The second half of the function, once the split index is known: the two pages are written and the
  sibling pointers set.
\<close>

definition split_write ::
  "leaf_node_view \<Rightarrow> leaf_node_view \<Rightarrow> leaf_node_view option \<Rightarrow> bytes list \<Rightarrow> usize \<Rightarrow> usize \<Rightarrow> 'k \<Rightarrow>
   ((storage_error, 'k) rust_result \<times> leaf_node_view \<times> leaf_node_view \<times> leaf_node_view option) option"
where
  "split_write leaf right orig_right srecs split_index item_count mid_point_key = do {
     raw_parent_index \<leftarrow> get_page_header_u64_value (page_view leaf) PAGE_HEADER_PARENT_INDEX_OFFSET;
     let parent_index = (if raw_parent_index = - 1 then None else Some raw_parent_index);
     orig_next_page_index \<leftarrow> get_next_leaf_index leaf;
     page \<leftarrow> initialize (page_view leaf) PT_LeafNode parent_index;
     (res, leaf) \<leftarrow> append_loop leaf_append (take split_index srecs) (leaf\<lparr>page_view := page\<rparr>);
     (case res of
        Err e \<Rightarrow> Some (Err e, leaf, right, orig_right)
      | Ok _ \<Rightarrow> do {
          let final_count = item_count + 1;
          rest \<leftarrow> slice srecs split_index final_count;
          (res, right) \<leftarrow> append_loop leaf_append rest right;
          (case res of
             Err e \<Rightarrow> Some (Err e, leaf, right, orig_right)
           | Ok _ \<Rightarrow> do {
               leaf \<leftarrow> set_next_leaf_index leaf (Some (pid_page_index (lnv_page_id right)));
               right \<leftarrow> set_next_leaf_index right orig_next_page_index;
               right \<leftarrow> set_prev_leaf_index right (Some (pid_page_index (lnv_page_id leaf)));
               orig_right \<leftarrow> (case orig_right of
                   None \<Rightarrow> Some None
                 | Some n \<Rightarrow>
                     map_option Some (set_prev_leaf_index n (Some (pid_page_index (lnv_page_id right)))));
               Some (Ok mid_point_key, leaf, right, orig_right)
             })
        })
   }"

definition split_and_insert ::
  "'d decimal_ops \<Rightarrow> leaf_node_view \<Rightarrow> 'd record_values \<Rightarrow> leaf_node_view \<Rightarrow> leaf_node_view option \<Rightarrow>
   table_definition \<Rightarrow>
   ((storage_error, 'd key) rust_result \<times> leaf_node_view \<times> leaf_node_view \<times> leaf_node_view option) option"
where
  "split_and_insert D leaf r right orig_right table_def = do {
     right_count \<leftarrow> leaf_get_item_count right;
     (if right_count \<noteq> 0 then Some (Err NewRightSiblingNotEmpty, leaf, right, orig_right)
      else do {
        item_count \<leftarrow> leaf_get_item_count leaf;
        res \<leftarrow> serialize D (td_columns table_def) r;
        new_data \<leftarrow> unwrap res;
        new_key \<leftarrow> get_primary_key r table_def;
        collected \<leftarrow> split_collect D table_def (page_view leaf) new_key new_data
                       (upto_u16 item_count) split_start;
        (case collected of
           Err e \<Rightarrow> Some (Err e, leaf, right, orig_right)
         | Ok st \<Rightarrow> do {
             st \<leftarrow> (if \<not> new_record_inserted st then split_push new_key new_data st else Some st);
             let split_index = find_split_index_by_size (sorted_records st) (total_size st);
             mid_point_key \<leftarrow> index (sorted_keys st) split_index;
             split_write leaf right orig_right (sorted_records st) split_index (unat item_count)
               mid_point_key
           })
      })
   }"

section \<open>The keys of a leaf\<close>

definition record_key :: "'d decimal_ops \<Rightarrow> table_definition \<Rightarrow> bytes \<Rightarrow> 'd key" where
  "record_key D t b = (case deserialize_primary_key D t b of Some (Ok k) \<Rightarrow> k | _ \<Rightarrow> [])"

definition readable :: "'d decimal_ops \<Rightarrow> table_definition \<Rightarrow> bytes \<Rightarrow> bool" where
  "readable D t b \<longleftrightarrow> deserialize_primary_key D t b = Some (Ok (record_key D t b))"

definition leaf_keys :: "'d decimal_ops \<Rightarrow> table_definition \<Rightarrow> bytes \<Rightarrow> 'd key list" where
  "leaf_keys D t page = map (record_key D t) (records page)"

definition key_less :: "'d decimal_ops \<Rightarrow> 'd key \<Rightarrow> 'd key \<Rightarrow> bool" where
  "key_less D a b \<longleftrightarrow> key_cmp D a b = Less"

text \<open>
  The invariant of a leaf: its page is well-formed, the key of every record can be read, and the
  keys are strictly increasing.
\<close>

definition leaf_ok :: "'d decimal_ops \<Rightarrow> table_definition \<Rightarrow> bytes \<Rightarrow> bool" where
  "leaf_ok D t page \<longleftrightarrow> page_inv page \<and> list_all (readable D t) (records page) \<and>
     sorted_wrt (key_less D) (leaf_keys D t page)"

lemma length_leaf_keys [simp]: "length (leaf_keys D t page) = items page"
  by (simp add: leaf_keys_def)

lemma key_order: "decimal_laws D \<Longrightarrow> total_cmp (key_cmp D) (key_eq D)"
  by (rule key_total_cmp)

subsection \<open>Both ways to a key agree\<close>

text \<open>
  A record fits a table when the columns take its values, its primary key is well-formed, lists its
  columns in the order of the table and has no null among its values.
\<close>

definition record_fits :: "'d decimal_ops \<Rightarrow> table_definition \<Rightarrow> string list \<Rightarrow> 'd record_values \<Rightarrow> bool" where
  "record_fits D t pk r \<longleftrightarrow> primary_key_ok t pk \<and> record_ok (td_columns t) r \<and>
     filter (\<lambda>n. n \<in> set pk) (map col_name (td_columns t)) = pk \<and>
     V_Null \<notin> set (key_values pk (td_columns t) r) \<and> length (record_layout D r) < 2 ^ 63"

lemma table_order_key_values:
  assumes "distinct (map col_name cols)" and "length cols = length r"
    and "filter (\<lambda>n. n \<in> set pk) (map col_name cols) = pk"
  shows "table_order_values pk cols r = key_values pk cols r"
proof -
  have val: "column_value cols r (col_name c) = v" if "(c, v) \<in> set (zip cols r)" for c v
    using column_value_nth [OF assms(1,2)] that by (auto simp: list_all2_iff)
  have "map fst (filter (\<lambda>(c, v). col_name c \<in> set pk) (zip cols r)) =
      filter (\<lambda>c. col_name c \<in> set pk) cols"
    using assms(2)
    by (induction cols r rule: list_induct2) auto
  then have "map (\<lambda>(c, v). col_name c) (filter (\<lambda>(c, v). col_name c \<in> set pk) (zip cols r)) =
      map col_name (filter (\<lambda>c. col_name c \<in> set pk) cols)"
    by (metis (no_types, lifting) case_prod_unfold list.map_comp comp_def map_eq_conv)
  also have "\<dots> = pk" using assms(3) by (simp add: filter_map comp_def)
  finally have names: "map (\<lambda>(c, v). col_name c)
      (filter (\<lambda>(c, v). col_name c \<in> set pk) (zip cols r)) = pk" .
  have "table_order_values pk cols r =
      map (\<lambda>(c, v). column_value cols r (col_name c))
        (filter (\<lambda>(c, v). col_name c \<in> set pk) (zip cols r))"
    unfolding table_order_values_def using val by (auto intro!: map_cong)
  also have "\<dots> = map (column_value cols r) (map (\<lambda>(c, v). col_name c)
      (filter (\<lambda>(c, v). col_name c \<in> set pk) (zip cols r)))"
    by (simp add: case_prod_unfold comp_def)
  finally show ?thesis by (simp only: names key_values_def)
qed

lemma record_fits_keys:
  assumes "decimal_laws D" and "record_fits D t pk r"
  shows "get_primary_key r t = Some (key_values pk (td_columns t) r)"
    and "serialize D (td_columns t) r = Some (Ok (record_layout D r))"
    and "readable D t (record_layout D r)"
    and "record_key D t (record_layout D r) = key_values pk (td_columns t) r"
proof -
  note f = assms(2) [unfolded record_fits_def]
  have len: "length (td_columns t) = length r"
    using f list_all2_lengthD by (auto simp: record_ok_def)
  have d: "distinct (map col_name (td_columns t))" using f by (auto simp: primary_key_ok_def)
  have pk: "primary_key_ok t pk" using f by simp
  show "get_primary_key r t = Some (key_values pk (td_columns t) r)"
    using primary_key_of_record [OF pk, of r] f len table_order_key_values [OF d len] by simp
  show "serialize D (td_columns t) r = Some (Ok (record_layout D r))"
    using f assms(1) by (simp add: serialize_ok)
  have "deserialize_primary_key D t (record_layout D r) = Some (Ok (key_values pk (td_columns t) r))"
    using deserialize_key_of_layout [OF assms(1) pk] f by simp
  then show "readable D t (record_layout D r)"
    "record_key D t (record_layout D r) = key_values pk (td_columns t) r"
    by (simp_all add: readable_def record_key_def)
qed

section \<open>Binary search\<close>

text \<open>Where a key belongs among the keys of a leaf.\<close>

definition key_found :: "'d decimal_ops \<Rightarrow> 'd key list \<Rightarrow> 'd key \<Rightarrow> nat \<Rightarrow> bool" where
  "key_found D ks key i \<longleftrightarrow> i < length ks \<and> key_eq D key (ks ! i)"

definition insertion_point :: "'d decimal_ops \<Rightarrow> 'd key list \<Rightarrow> 'd key \<Rightarrow> nat \<Rightarrow> bool" where
  "insertion_point D ks key i \<longleftrightarrow> i \<le> length ks \<and> (\<forall>j < i. key_less D (ks ! j) key) \<and>
     (\<forall>j < length ks. i \<le> j \<longrightarrow> key_less D key (ks ! j))"

text \<open>One round of the loop, at the middle of the interval.\<close>

lemma find_key_round:
  assumes ok: "leaf_ok D t page" and D: "decimal_laws D" and lh: "unat low < unat high" "unat high \<le> items page"
  shows "\<exists>mid. unat low \<le> unat mid \<and> unat mid < unat high \<and> unat (mid + 1) = unat mid + 1 \<and>
    find_key_loop D page key t low high =
      (case key_cmp D key (leaf_keys D t page ! unat mid) of
         Equal \<Rightarrow> Some (Ok (unat mid))
       | Greater \<Rightarrow> find_key_loop D page key t (mid + 1) high
       | Less \<Rightarrow> find_key_loop D page key t low mid)"
proof -
  define m where "m = unat low + (unat high - unat low) div 2"
  have inv: "page_inv page" and read: "list_all (readable D t) (records page)" using ok by (simp_all add: leaf_ok_def)
  have m: "unat low \<le> m" "m < unat high" "m < items page" using lh unfolding m_def by linarith+
  have small: "items page \<le> 2040" using page_invD(5) [OF inv] .
  have half: "checked_sub_u16 high low = Some (high - low)" "unat ((high - low) div 2) = m - unat low"
    using checked_sub_u16_unat [of low high] lh by (simp_all add: unat_div m_def)
  define mid where "mid = low + (high - low) div 2"
  have mid: "checked_add_u16 low ((high - low) div 2) = Some mid" "unat mid = m"
    using checked_add_u16_unat [of low "(high - low) div 2"] half(2) m small by (simp_all add: mid_def)
  have up: "checked_add_u16 mid 1 = Some (mid + 1)" "unat (mid + 1) = m + 1"
    using checked_add_u16_unat [of mid 1] mid(2) m small by simp_all
  have rec: "get_record page mid = Some (Some (records page ! m))"
    using get_record_eq [OF inv, of mid] mid(2) m by simp
  have key: "deserialize_primary_key D t (records page ! m) = Some (Ok (leaf_keys D t page ! m))"
    using read m by (simp add: list_all_length readable_def leaf_keys_def)
  have "low < high" using lh by (simp add: word_less_nat_alt)
  then have "find_key_loop D page key t low high =
      (case key_cmp D key (leaf_keys D t page ! m) of
         Equal \<Rightarrow> Some (Ok (unat mid))
       | Greater \<Rightarrow> find_key_loop D page key t (mid + 1) high
       | Less \<Rightarrow> find_key_loop D page key t low mid)"
    using half(1) mid rec key up(1) total_cmp.eq_iff_cmp [OF key_order [OF D], of key "leaf_keys D t page ! m"]
    by (subst find_key_loop.simps) (simp split: ordering.split)
  then show ?thesis using mid(2) m up(2) by (intro exI [of _ mid]) simp
qed

lemma find_key_loop_ok:
  assumes ok: "leaf_ok D t page" and D: "decimal_laws D"
    and "unat low \<le> unat high" and "unat high \<le> items page"
    and "\<forall>j < unat low. key_less D (leaf_keys D t page ! j) key"
    and "\<forall>j < items page. unat high \<le> j \<longrightarrow> key_less D key (leaf_keys D t page ! j)"
  shows "\<exists>res. find_key_loop D page key t low high = Some res \<and>
    (case res of Ok i \<Rightarrow> key_found D (leaf_keys D t page) key i
     | Err i \<Rightarrow> insertion_point D (leaf_keys D t page) key i)"
  using assms(3-)
proof (induction "unat high - unat low" arbitrary: low high rule: less_induct)
  case less
  let ?ks = "leaf_keys D t page"
  note keys = key_order [OF D]
  have incr: "sorted_wrt (\<lambda>a b. key_cmp D a b = Less) ?ks" using ok by (simp add: leaf_ok_def key_less_def [abs_def])
  show ?case
  proof (cases "unat low < unat high")
    case False
    then have "unat low = unat high" "\<not> low < high" using less.prems(1) by (simp_all add: word_less_nat_alt)
    then show ?thesis
      using less.prems by (subst find_key_loop.simps) (simp add: insertion_point_def)
  next
    case True
    obtain mid where m: "unat low \<le> unat mid" "unat mid < unat high" "unat (mid + 1) = unat mid + 1"
      and unroll: "find_key_loop D page key t low high =
        (case key_cmp D key (?ks ! unat mid) of
           Equal \<Rightarrow> Some (Ok (unat mid))
         | Greater \<Rightarrow> find_key_loop D page key t (mid + 1) high
         | Less \<Rightarrow> find_key_loop D page key t low mid)"
      using find_key_round [OF ok D True less.prems(2), of key] by blast
    have lt: "unat mid < length ?ks" using m(2) less.prems(2) by simp
    note halves = total_cmp.increasing_halves [OF keys incr lt, of key]
    show ?thesis
    proof (cases "key_cmp D key (?ks ! unat mid)")
      case Equal
      then show ?thesis
        using lt total_cmp.eq_iff_cmp [OF keys] by (simp add: unroll key_found_def)
    next
      case Greater
      then have "\<exists>res. find_key_loop D page key t (mid + 1) high = Some res \<and>
        (case res of Ok i \<Rightarrow> key_found D ?ks key i | Err i \<Rightarrow> insertion_point D ?ks key i)"
        using less.prems m halves(1) by (intro less.hyps) (auto simp: key_less_def)
      then show ?thesis using Greater by (simp add: unroll)
    next
      case Less
      then have "\<exists>res. find_key_loop D page key t low mid = Some res \<and>
        (case res of Ok i \<Rightarrow> key_found D ?ks key i | Err i \<Rightarrow> insertion_point D ?ks key i)"
        using less.prems m halves(2) by (intro less.hyps) (auto simp: key_less_def)
      then show ?thesis using Less by (simp add: unroll)
    qed
  qed
qed

lemma find_key_ok:
  assumes "leaf_ok D t page" and "decimal_laws D"
  shows "\<exists>res. find_key D page key t = Some res \<and>
    (case res of Ok i \<Rightarrow> key_found D (leaf_keys D t page) key i
     | Err i \<Rightarrow> insertion_point D (leaf_keys D t page) key i)"
proof -
  have inv: "page_inv page" using assms(1) by (simp add: leaf_ok_def)
  have "get_item_count page = Some (u16_at page 20)"
    using page_invD(1) [OF inv] by (rule get_item_count_eq)
  then show ?thesis
    using find_key_loop_ok [OF assms, of 0 "u16_at page 20" key]
    by (simp add: find_key_def items_def)
qed

text \<open>At most one of the two holds, and only of one index.\<close>

lemma found_unique:
  assumes "leaf_ok D t page" and D: "decimal_laws D"
    and "key_found D (leaf_keys D t page) key i"
  shows "key_found D (leaf_keys D t page) key j \<Longrightarrow> i = j"
    and "\<not> insertion_point D (leaf_keys D t page) key j"
proof -
  note keys = key_order [OF D]
  have incr: "sorted_wrt (\<lambda>a b. key_cmp D a b = Less) (leaf_keys D t page)"
    using assms(1) by (simp add: leaf_ok_def key_less_def [abs_def])
  show "i = j" if "key_found D (leaf_keys D t page) key j"
    using total_cmp.increasing_unique [OF keys incr] assms(3) that unfolding key_found_def by blast
  have eq: "key_cmp D key (leaf_keys D t page ! i) = Equal"
    using assms(3) total_cmp.eq_iff_cmp [OF keys] by (simp add: key_found_def)
  show "\<not> insertion_point D (leaf_keys D t page) key j"
  proof
    assume p: "insertion_point D (leaf_keys D t page) key j"
    have "key_less D (leaf_keys D t page ! i) key \<or> key_less D key (leaf_keys D t page ! i)"
      using p assms(3) by (cases "i < j") (auto simp: insertion_point_def key_found_def)
    then show False
      using eq total_cmp.cmp_equal_sym [OF keys, of key "leaf_keys D t page ! i"]
      by (simp add: key_less_def)
  qed
qed

section \<open>Inserting and updating\<close>

definition same_leaf :: "leaf_node_view \<Rightarrow> leaf_node_view \<Rightarrow> bool" where
  "same_leaf a b \<longleftrightarrow> lnv_page_id a = lnv_page_id b \<and> header_kept (page_view a) (page_view b)"

abbreviation leaf_records :: "leaf_node_view \<Rightarrow> bytes list" where
  "leaf_records leaf \<equiv> records (page_view leaf)"

lemma leaf_count: "page_inv (page_view leaf) \<Longrightarrow>
    leaf_get_item_count leaf = Some (of_nat (length (leaf_records leaf)))"
  by (simp add: leaf_get_item_count_def get_u16_eq page_invD(1) page_consts items_def)

interpretation leaf_page: record_page "\<lambda>l. page_inv (page_view l)" "\<lambda>l. records (page_view l)"
  "\<lambda>l. gap (page_view l)" same_leaf leaf_get_item_count insert_raw_record
proof
  fix p :: leaf_node_view and d :: bytes and i :: u16
  assume p: "page_inv (page_view p)"
  show "leaf_get_item_count p = Some (of_nat (length (leaf_records p)))"
    using p by (rule leaf_count)
  show "length (leaf_records p) < 65536" using p by (rule slotted.count_small)
  show "insert_raw_record p i d = Some (Err PageFull, p)" if "gap (page_view p) < length d + 4"
    using slotted.insert_full [OF p that, of i] by (simp add: insert_raw_record_def on_page_def)
  show "\<exists>p'. insert_raw_record p i d = Some (Ok i, p') \<and> page_inv (page_view p') \<and>
      leaf_records p' = take (unat i) (leaf_records p) @ d # drop (unat i) (leaf_records p) \<and>
      gap (page_view p') + length d + 4 = gap (page_view p) \<and> same_leaf p p'"
    if "length d + 4 \<le> gap (page_view p)" "unat i \<le> length (leaf_records p)"
  proof -
    note room = that
    obtain b where b: "try_insert_record (page_view p) i d = Some (Ok i, b)" "page_inv b"
      "records b = take (unat i) (leaf_records p) @ d # drop (unat i) (leaf_records p)"
      "gap b + length d + 4 = gap (page_view p)" "header_kept (page_view p) b"
      using slotted.insert_fits [OF p room] by blast
    show ?thesis
      by (rule exI [of _ "p\<lparr>page_view := b\<rparr>"])
         (use b in \<open>simp add: insert_raw_record_def on_page_def same_leaf_def\<close>)
  qed
qed (auto simp: same_leaf_def intro: header_kept_trans)

lemma leaf_append_at: "leaf_append leaf d = leaf_page.append_at leaf d"
  by (simp add: leaf_append_def leaf_page.append_at_def leaf_get_item_count_def insert_raw_record_def)

lemma leaf_ok_insert:
  assumes "leaf_ok D t page" and D: "decimal_laws D" and "insertion_point D (leaf_keys D t page) key i"
    and "page_inv page'" and "records page' = take i (records page) @ data # drop i (records page)"
    and "readable D t data" and "record_key D t data = key"
  shows "leaf_ok D t page'"
    and "leaf_keys D t page' = take i (leaf_keys D t page) @ key # drop i (leaf_keys D t page)"
proof -
  show ks: "leaf_keys D t page' = take i (leaf_keys D t page) @ key # drop i (leaf_keys D t page)"
    using assms(5,7) by (simp add: leaf_keys_def take_map drop_map)
  have "sorted_wrt (key_less D) (leaf_keys D t page')"
    unfolding ks key_less_def [abs_def]
    using assms(1,3) total_cmp.increasing_insert [OF key_order [OF D], of "leaf_keys D t page" i key]
    by (simp add: leaf_ok_def insertion_point_def key_less_def [abs_def])
  moreover have "list_all (readable D t) (records page')"
    using assms(1,5,6) by (auto simp: leaf_ok_def list_all_iff dest: in_set_takeD in_set_dropD)
  ultimately show "leaf_ok D t page'" using assms(4) by (simp add: leaf_ok_def)
qed

lemma insert_record_steps:
  assumes D: "decimal_laws D" and ok: "leaf_ok D t (page_view leaf)" and fits: "record_fits D t pk r"
  shows "\<exists>leaf' res. insert_record D leaf r t = Some (res, leaf') \<and>
    leaf_ok D t (page_view leaf') \<and> same_leaf leaf leaf' \<and>
    (case res of
       Err e \<Rightarrow> leaf' = leaf \<and>
         ((\<exists>i. key_found D (leaf_keys D t (page_view leaf)) (key_values pk (td_columns t) r) i) \<and> e = DuplicateKey \<or>
          (\<exists>i. insertion_point D (leaf_keys D t (page_view leaf)) (key_values pk (td_columns t) r) i) \<and>
            e = PageFull \<and> gap (page_view leaf) < length (record_layout D r) + 4)
     | Ok i \<Rightarrow>
         insertion_point D (leaf_keys D t (page_view leaf)) (key_values pk (td_columns t) r) (unat i) \<and>
         length (record_layout D r) + 4 \<le> gap (page_view leaf) \<and>
         leaf_records leaf' = take (unat i) (leaf_records leaf) @ record_layout D r # drop (unat i) (leaf_records leaf))"
proof -
  let ?page = "page_view leaf" and ?key = "key_values pk (td_columns t) r" and ?data = "record_layout D r"
  note rk = record_fits_keys [OF D fits]
  have inv: "page_inv ?page" using ok by (simp add: leaf_ok_def)
  obtain fr where fr: "find_key D ?page ?key t = Some fr"
    "case fr of Ok i \<Rightarrow> key_found D (leaf_keys D t ?page) ?key i
     | Err i \<Rightarrow> insertion_point D (leaf_keys D t ?page) ?key i"
    using find_key_ok [OF ok D] by blast
  show ?thesis
  proof (cases fr)
    case (Inr i)
    then have "insert_record D leaf r t = Some (Err DuplicateKey, leaf)"
      using fr rk by (simp add: insert_record_def leaf_find_key_def)
    then show ?thesis using ok fr Inr by (auto simp: same_leaf_def)
  next
    case (Inl i)
    then have point: "insertion_point D (leaf_keys D t ?page) ?key i" using fr by simp
    then have i: "i \<le> items ?page" by (simp add: insertion_point_def)
    then have u: "unat (of_nat i :: u16) = i"
      using page_invD(5) [OF inv] by (intro unat_of_nat_u16) simp
    have run: "insert_record D leaf r t = insert_raw_record leaf (of_nat i) ?data"
      using fr rk Inl by (simp add: insert_record_def leaf_find_key_def insert_raw_record_def)
    show ?thesis
    proof (cases "length ?data + 4 \<le> gap ?page")
      case False
      then have "insert_record D leaf r t = Some (Err PageFull, leaf)"
        using leaf_page.insert_full [OF inv] by (simp add: run)
      then show ?thesis using ok point False by (auto simp: same_leaf_def)
    next
      case True
      then obtain leaf' where l': "insert_raw_record leaf (of_nat i) ?data = Some (Ok (of_nat i), leaf')"
        "page_inv (page_view leaf')" "same_leaf leaf leaf'"
        "leaf_records leaf' = take i (leaf_records leaf) @ ?data # drop i (leaf_records leaf)"
        using leaf_page.insert_fits [OF inv True, of "of_nat i"] i u by auto
      have "leaf_ok D t (page_view leaf')"
        by (rule leaf_ok_insert(1) [OF ok D point l'(2,4) rk(3,4)])
      then show ?thesis using run l' True point u by auto
    qed
  qed
qed

lemma leaf_ok_replace:
  assumes "leaf_ok D t page" and D: "decimal_laws D" and "key_found D (leaf_keys D t page) key i"
    and "page_inv page'" and "records page' = (records page)[i := data]"
    and "readable D t data" and "record_key D t data = key"
  shows "leaf_ok D t page'"
proof -
  have ks: "leaf_keys D t page' = (leaf_keys D t page)[i := key]"
    using assms(5,7) by (simp add: leaf_keys_def map_update)
  have "sorted_wrt (key_less D) (leaf_keys D t page')"
    unfolding ks key_less_def [abs_def]
    using assms(1,3) total_cmp.increasing_replace [OF key_order [OF D], of "leaf_keys D t page" i key]
    by (simp add: leaf_ok_def key_found_def key_less_def [abs_def])
  moreover have "list_all (readable D t) (records page')"
    using assms(1,5,6) set_update_subset_insert [of "records page" i data]
    by (auto simp: leaf_ok_def list_all_iff)
  ultimately show ?thesis using assms(4) by (simp add: leaf_ok_def)
qed

lemma update_record_steps:
  assumes D: "decimal_laws D" and ok: "leaf_ok D t (page_view leaf)" and fits: "record_fits D t pk r"
  shows "\<exists>leaf' res. update_record D leaf r t = Some (res, leaf') \<and>
    leaf_ok D t (page_view leaf') \<and> same_leaf leaf leaf' \<and>
    (case res of
       Err e \<Rightarrow> leaf' = leaf \<and>
         ((\<exists>i. insertion_point D (leaf_keys D t (page_view leaf)) (key_values pk (td_columns t) r) i) \<and> e = KeyNotFound \<or>
          (\<exists>i. key_found D (leaf_keys D t (page_view leaf)) (key_values pk (td_columns t) r) i \<and>
            length (leaf_records leaf ! i) < length (record_layout D r)) \<and>
            e = PageFull \<and> gap (page_view leaf) < length (record_layout D r))
     | Ok i \<Rightarrow>
         key_found D (leaf_keys D t (page_view leaf)) (key_values pk (td_columns t) r) (unat i) \<and>
         leaf_records leaf' = (leaf_records leaf)[unat i := record_layout D r])"
proof -
  let ?page = "page_view leaf" and ?key = "key_values pk (td_columns t) r" and ?data = "record_layout D r"
  note rk = record_fits_keys [OF D fits]
  have inv: "page_inv ?page" using ok by (simp add: leaf_ok_def)
  obtain fr where fr: "find_key D ?page ?key t = Some fr"
    "case fr of Ok i \<Rightarrow> key_found D (leaf_keys D t ?page) ?key i
     | Err i \<Rightarrow> insertion_point D (leaf_keys D t ?page) ?key i"
    using find_key_ok [OF ok D] by blast
  show ?thesis
  proof (cases fr)
    case (Inl i)
    then have "update_record D leaf r t = Some (Err KeyNotFound, leaf)"
      using fr rk by (simp add: update_record_def)
    then show ?thesis using ok fr Inl by (auto simp: same_leaf_def)
  next
    case (Inr i)
    then have found: "key_found D (leaf_keys D t ?page) ?key i" using fr by simp
    then have i: "i < items ?page" by (simp add: key_found_def)
    then have u: "unat (of_nat i :: u16) = i"
      using page_invD(5) [OF inv] by (intro unat_of_nat_u16) simp
    obtain page' res where p': "try_update_record ?page (of_nat i) ?data = Some (res, page')"
      "page_inv page'" "header_kept ?page page'"
      "res = (if length (records ?page ! i) < length ?data \<and> gap ?page < length ?data
              then Err PageFull else Ok (of_nat i))"
      "case res of Ok _ \<Rightarrow> records page' = (records ?page)[i := ?data] | Err _ \<Rightarrow> page' = ?page"
      using try_update_outcome [OF inv, of "of_nat i" ?data, unfolded u] i by auto
    have run: "update_record D leaf r t = Some (res, leaf\<lparr>page_view := page'\<rparr>)"
      using fr rk Inr p'(1) by (simp add: update_record_def on_page_def)
    show ?thesis
    proof (cases "length (records ?page ! i) < length ?data \<and> gap ?page < length ?data")
      case True
      then show ?thesis using run p' ok found by (auto simp: same_leaf_def)
    next
      case False
      then have "records page' = (records ?page)[i := ?data]" "res = Ok (of_nat i)"
        using p'(4,5) by auto
      moreover from this have "leaf_ok D t page'"
        using leaf_ok_replace [OF ok D found p'(2) _ rk(3,4)] by simp
      ultimately show ?thesis using run p'(3) found u by (auto simp: same_leaf_def)
    qed
  qed
qed

section \<open>Properties of search, insertion and update\<close>

lemma point_not_found:
  assumes "leaf_ok D t page" and "decimal_laws D"
    and "insertion_point D (leaf_keys D t page) key i"
  shows "\<not> key_found D (leaf_keys D t page) key j"
  using found_unique(2) [OF assms(1,2)] assms(3) by blast

text \<open>
  C14: on a well-formed leaf the binary search always returns: the index of the key when the leaf
  holds it, and otherwise the one position at which the key keeps the leaf in order.
\<close>

theorem find_key_correct:
  assumes "leaf_ok D t page" and "decimal_laws D"
  shows "(find_key D page key t = Some (Ok i) \<longleftrightarrow> key_found D (leaf_keys D t page) key i) \<and>
    (find_key D page key t = Some (Err i) \<longrightarrow> insertion_point D (leaf_keys D t page) key i) \<and>
    find_key D page key t \<noteq> None"
proof -
  obtain res where res: "find_key D page key t = Some res"
    "case res of Ok i \<Rightarrow> key_found D (leaf_keys D t page) key i
     | Err i \<Rightarrow> insertion_point D (leaf_keys D t page) key i"
    using find_key_ok [OF assms] by blast
  then show ?thesis
    using found_unique [OF assms] point_not_found [OF assms] by (cases res) auto
qed

lemma empty_leaf_ok: "leaf_ok D t (init_buffer PT_LeafNode parent)"
  using init_buffer_inv [of PT_LeafNode parent] by (simp add: leaf_ok_def leaf_keys_def)

theorem find_key_correct_witness:
  "find_key example_decimal (init_buffer PT_LeafNode None) [V_Int 3] example_table \<noteq> None"
  using find_key_correct [OF empty_leaf_ok example_decimal_laws] by blast

text \<open>
  C6: inserting a record that fits the table into a well-formed leaf reports a duplicate key exactly
  when the leaf holds its key and otherwise a full page exactly when it does not fit, both leaving
  the leaf as it was; otherwise the serialized record goes to the one position that keeps the keys
  increasing, and the leaf stays well-formed.
\<close>

theorem insert_record_correct:
  assumes "decimal_laws D" and "leaf_ok D t (page_view leaf)" and "record_fits D t pk r"
    and "ks = leaf_keys D t (page_view leaf)" and "key = key_values pk (td_columns t) r"
    and "data = record_layout D r"
  shows "\<exists>leaf' res. insert_record D leaf r t = Some (res, leaf') \<and>
    leaf_ok D t (page_view leaf') \<and> same_leaf leaf leaf' \<and>
    (if \<exists>i. key_found D ks key i then res = Err DuplicateKey \<and> leaf' = leaf
     else if gap (page_view leaf) < length data + 4 then res = Err PageFull \<and> leaf' = leaf
     else \<exists>i. res = Ok i \<and> insertion_point D ks key (unat i) \<and>
       leaf_records leaf' = take (unat i) (leaf_records leaf) @ data # drop (unat i) (leaf_records leaf))"
proof -
  note steps = insert_record_steps [OF assms(1-3), folded assms(4-6)]
  have none: "\<not> (\<exists>j. key_found D ks key j)" if "insertion_point D ks key i" for i
    using point_not_found [OF assms(2,1)] that assms(4) by blast
  obtain leaf' res where l': "insert_record D leaf r t = Some (res, leaf')"
    "leaf_ok D t (page_view leaf')" "same_leaf leaf leaf'"
    and out: "case res of
       Err e \<Rightarrow> leaf' = leaf \<and> ((\<exists>i. key_found D ks key i) \<and> e = DuplicateKey \<or>
          (\<exists>i. insertion_point D ks key i) \<and> e = PageFull \<and> gap (page_view leaf) < length data + 4)
     | Ok i \<Rightarrow> insertion_point D ks key (unat i) \<and> length data + 4 \<le> gap (page_view leaf) \<and>
         leaf_records leaf' = take (unat i) (leaf_records leaf) @ data # drop (unat i) (leaf_records leaf)"
    using steps by blast
  have "if \<exists>i. key_found D ks key i then res = Err DuplicateKey \<and> leaf' = leaf
     else if gap (page_view leaf) < length data + 4 then res = Err PageFull \<and> leaf' = leaf
     else \<exists>i. res = Ok i \<and> insertion_point D ks key (unat i) \<and>
       leaf_records leaf' = take (unat i) (leaf_records leaf) @ data # drop (unat i) (leaf_records leaf)"
    using out none by (cases res) auto
  with l' show ?thesis by blast
qed

lemma example_fits: "record_fits example_decimal example_table [''id''] example_record"
  using example_primary_key example_record_fits
  by (simp add: record_fits_def key_values_def column_value_def example_table_def example_record_def)

theorem insert_record_correct_witness:
  "\<exists>leaf' res. insert_record example_decimal
      (leaf_node_view_new (page_id_new 1 0) (init_buffer PT_LeafNode None)) example_record example_table =
      Some (res, leaf') \<and> leaf_ok example_decimal example_table (page_view leaf')"
  using insert_record_correct [OF example_decimal_laws _ example_fits refl refl refl,
      of "leaf_node_view_new (page_id_new 1 0) (init_buffer PT_LeafNode None)"]
  by (simp only: leaf_node_view_new_def leaf_node_view.simps empty_leaf_ok) blast

text \<open>
  C22: updating reports an unknown key exactly when the leaf does not hold it and a full page exactly
  when the record grows beyond the free block, both leaving the leaf as it was; otherwise the record
  with that key is replaced and all others are kept.
\<close>

theorem update_record_correct:
  assumes "decimal_laws D" and "leaf_ok D t (page_view leaf)" and "record_fits D t pk r"
    and "ks = leaf_keys D t (page_view leaf)" and "key = key_values pk (td_columns t) r"
    and "data = record_layout D r"
  shows "\<exists>leaf' res. update_record D leaf r t = Some (res, leaf') \<and>
    leaf_ok D t (page_view leaf') \<and> same_leaf leaf leaf' \<and>
    (case res of
       Err e \<Rightarrow> leaf' = leaf \<and> (e = KeyNotFound \<and> (\<forall>i. \<not> key_found D ks key i) \<or>
         e = PageFull \<and> gap (page_view leaf) < length data \<and>
         (\<exists>i. key_found D ks key i \<and> length (leaf_records leaf ! i) < length data))
     | Ok i \<Rightarrow> key_found D ks key (unat i) \<and>
         leaf_records leaf' = (leaf_records leaf)[unat i := data])"
proof -
  note steps = update_record_steps [OF assms(1-3), folded assms(4-6)]
  have none: "\<forall>j. \<not> key_found D ks key j" if "insertion_point D ks key i" for i
    using point_not_found [OF assms(2,1)] that assms(4) by blast
  from steps show ?thesis
  proof (elim exE conjE, goal_cases)
    case (1 leaf' res)
    then show ?case using none by (cases res) auto
  qed
qed

theorem update_record_correct_witness:
  "\<exists>leaf' res. update_record example_decimal
      (leaf_node_view_new (page_id_new 1 0) (init_buffer PT_LeafNode None)) example_record example_table =
      Some (res, leaf') \<and> leaf_ok example_decimal example_table (page_view leaf')"
  using update_record_correct [OF example_decimal_laws _ example_fits refl refl refl,
      of "leaf_node_view_new (page_id_new 1 0) (init_buffer PT_LeafNode None)"]
  by (simp only: leaf_node_view_new_def leaf_node_view.simps empty_leaf_ok) blast

section \<open>Sibling pointers\<close>

text \<open>A write to the header outside the two counters keeps the records.\<close>

lemma header_write_page:
  assumes inv: "page_inv b" and "off + length src \<le> 20"
  shows "page_inv (put b off src)" and "records (put b off src) = records b"
    and "gap (put b off src) = gap b"
proof -
  note d = page_invD [OF inv]
  have items: "items (put b off src) = items b" and heap: "heap_start (put b off src) = heap_start b"
    using d assms(2) by (simp_all add: items_def heap_start_def u16_at_put_other)
  have "slot (put b off src) i = slot b i" if "i < items b" for i
    using that d assms(2) by (simp add: slot_def u16_at_put_other)
  with items have sl: "slots (put b off src) = slots b" by (intro slots_eqI) simp_all
  have "length (put b off src) = 8192" using d(1) assms(2) by simp
  then show "page_inv (put b off src)"
    using heap sl d(4) by (rule page_invI) (use d(2) in simp)
  show "gap (put b off src) = gap b" by (simp add: gap_def items heap)
  have "cell (put b off src) s = cell b s" if "s \<in> set (slots b)" for s
  proof -
    have "32 \<le> fst s" "fst s + snd s \<le> 8192"
      using slots_ok_in [OF d(4) that] d(2) by (simp_all add: in_heap_def)
    then show ?thesis using d(1) assms(2) by (simp add: cell_def range_put_disjoint)
  qed
  then show "records (put b off src) = records b" by (simp add: records_def sl)
qed

definition pointer_value :: "u32 option \<Rightarrow> u32" where
  "pointer_value i = (case i of Some i \<Rightarrow> i | None \<Rightarrow> - 1)"

definition as_pointer :: "u32 \<Rightarrow> u32 option" where
  "as_pointer v = (if v = - 1 then None else Some v)"

lemma pointer_inverse: "i \<noteq> Some (- 1) \<Longrightarrow> as_pointer (pointer_value i) = i"
  by (auto simp: as_pointer_def pointer_value_def split: option.splits)

lemma pointer_as_pointer [simp]: "pointer_value (as_pointer v) = v"
  by (simp add: as_pointer_def pointer_value_def)

lemma as_pointer_Some [simp]: "as_pointer (pointer_value (Some v)) = as_pointer v"
  by (simp add: pointer_value_def)

definition next_ptr :: "leaf_node_view \<Rightarrow> u32 option" where
  "next_ptr leaf = as_pointer (u32_at (page_view leaf) 16)"

definition prev_ptr :: "leaf_node_view \<Rightarrow> u32 option" where
  "prev_ptr leaf = as_pointer (u32_at (page_view leaf) 12)"

definition with_next :: "leaf_node_view \<Rightarrow> u32 option \<Rightarrow> leaf_node_view" where
  "with_next leaf i = leaf\<lparr>page_view := put (page_view leaf) 16 (u32_to_le_bytes (pointer_value i))\<rparr>"

definition with_prev :: "leaf_node_view \<Rightarrow> u32 option \<Rightarrow> leaf_node_view" where
  "with_prev leaf i = leaf\<lparr>page_view := put (page_view leaf) 12 (u32_to_le_bytes (pointer_value i))\<rparr>"

lemma pointers_eq:
  assumes "page_inv (page_view leaf)"
  shows "get_next_leaf_index leaf = Some (next_ptr leaf)"
    and "get_prev_leaf_index leaf = Some (prev_ptr leaf)"
    and "set_next_leaf_index leaf i = Some (with_next leaf i)"
    and "set_prev_leaf_index leaf i = Some (with_prev leaf i)"
  using page_invD(1) [OF assms]
  unfolding get_next_leaf_index_def get_prev_leaf_index_def set_next_leaf_index_def
    set_prev_leaf_index_def page_consts next_ptr_def prev_ptr_def as_pointer_def with_next_def
    with_prev_def pointer_value_def INVALID_PAGE_INDEX_def
  by (simp_all add: get_u32_eq set_u32_eq)

lemma with_pointer:
  assumes "page_inv (page_view leaf)"
  shows "page_inv (page_view (with_next leaf i))" "page_inv (page_view (with_prev leaf i))"
    and "leaf_records (with_next leaf i) = leaf_records leaf"
      "leaf_records (with_prev leaf i) = leaf_records leaf"
    and "lnv_page_id (with_next leaf i) = lnv_page_id leaf"
      "lnv_page_id (with_prev leaf i) = lnv_page_id leaf"
    and "next_ptr (with_next leaf i) = as_pointer (pointer_value i)"
      "prev_ptr (with_next leaf i) = prev_ptr leaf"
    and "prev_ptr (with_prev leaf i) = as_pointer (pointer_value i)"
      "next_ptr (with_prev leaf i) = next_ptr leaf"
    and "gap (page_view (with_next leaf i)) = gap (page_view leaf)"
      "gap (page_view (with_prev leaf i)) = gap (page_view leaf)"
  using header_write_page [OF assms, of 16 "u32_to_le_bytes (pointer_value i)"]
    header_write_page [OF assms, of 12 "u32_to_le_bytes (pointer_value i)"] page_invD(1) [OF assms]
  by (simp_all add: with_next_def with_prev_def next_ptr_def prev_ptr_def buf_simps)

lemma same_leaf_pointers:
  "same_leaf a b \<Longrightarrow> next_ptr b = next_ptr a \<and> prev_ptr b = prev_ptr a"
  using header_kept_u32 [of "page_view a" "page_view b" 16]
    header_kept_u32 [of "page_view a" "page_view b" 12]
  by (simp add: same_leaf_def next_ptr_def prev_ptr_def)

section \<open>Merging two leaves\<close>

lemma merge_loop_append:
  assumes right: "page_inv right" and leaf: "page_inv (page_view leaf)"
    and "\<forall>i \<in> set is. unat i < items right"
    and "room_of (map (\<lambda>i. records right ! unat i) is) \<le> gap (page_view leaf)"
  shows "merge_loop right is leaf =
    append_loop leaf_page.append_at (map (\<lambda>i. records right ! unat i) is) leaf"
  using assms(2-)
proof (induction "is" arbitrary: leaf)
  case (Cons i "is")
  have r: "get_record right i = Some (Some (records right ! unat i))"
    using get_record_eq [OF right, of i] Cons.prems(2) by simp
  have room: "length (records right ! unat i) + 4 \<le> gap (page_view leaf)" using Cons.prems(3) by simp
  obtain leaf' k where l': "leaf_page.append_at leaf (records right ! unat i) = Some (Ok k, leaf')"
    "page_inv (page_view leaf')"
    "gap (page_view leaf') + length (records right ! unat i) + 4 = gap (page_view leaf)"
    using leaf_page.append_fits [OF Cons.prems(1) room] by blast
  have "merge_loop right is leaf' =
      append_loop leaf_page.append_at (map (\<lambda>i. records right ! unat i) is) leaf'"
    using l' Cons.prems by (intro Cons.IH) auto
  then show ?case using r l' by (simp add: leaf_append_at)
qed simp

lemma map_records_upto:
  "page_inv p \<Longrightarrow> map (\<lambda>i. records p ! unat i) (upto_u16 (of_nat (items p))) = records p"
proof -
  assume inv: "page_inv p"
  have u: "unat (of_nat (items p) :: u16) = items p"
    using page_invD(5) [OF inv] by (intro unat_of_nat_u16) simp
  show ?thesis
    unfolding map_upto_u16 [of "\<lambda>i. records p ! i"] u by (intro nth_equalityI) simp_all
qed

text \<open>The bytes a page uses for its records and slots.\<close>

lemma used_records: "page_inv p \<Longrightarrow> used (slots p) = sum_list (map length (records p))"
proof -
  assume inv: "page_inv p"
  have "map length (records p) = map snd (slots p)"
    using slots_ok_in [OF page_invD(4) [OF inv]] page_invD(1) [OF inv]
    by (auto simp: records_def cell_def in_heap_def)
  then show ?thesis by (simp add: used_def)
qed

lemma room_of_lengths: "room_of rs = sum_list (map length rs) + 4 * length rs"
  by (induction rs) simp_all

lemma page_total_used:
  assumes inv: "page_inv p"
  shows "\<exists>n. get_free_space p = Some n \<and> n \<le> 8160 \<and> 8192 - n - 32 = room_of (records p)"
proof -
  note d = page_invD [OF inv]
  have "heap_start p + used (slots p) \<le> 8192" using d(4) by (simp add: slots_ok_def)
  moreover have "room_of (records p) = used (slots p) + 4 * items p"
    using used_records [OF inv] by (simp add: room_of_lengths)
  ultimately show ?thesis
    using d(2) free_space_eq [OF inv] unfolding gap_def by simp
qed

lemma merge_outcome:
  assumes leaf: "page_inv (page_view leaf)" and right: "page_inv (page_view right)"
    and next_ok: "pred_option (\<lambda>n. page_inv (page_view n)) nxt"
  shows "if gap (page_view leaf) < room_of (leaf_records right)
    then merge leaf right nxt = Some (Err InsufficientSpaceForMerge, leaf, right, nxt)
    else \<exists>leaf' right'. merge leaf right nxt = Some (Ok (), leaf', right',
        map_option (\<lambda>n. with_prev n (Some (pid_page_index (lnv_page_id leaf)))) nxt) \<and>
      page_inv (page_view leaf') \<and> leaf_records leaf' = leaf_records leaf @ leaf_records right \<and>
      lnv_page_id leaf' = lnv_page_id leaf \<and>
      next_ptr leaf' = next_ptr right \<and> prev_ptr leaf' = prev_ptr leaf \<and>
      page_view right' = init_buffer PT_Invalid None \<and> lnv_page_id right' = lnv_page_id right"
proof -
  obtain n where n: "get_free_space (page_view right) = Some n" "n \<le> 8160"
    "8192 - n - 32 = room_of (leaf_records right)"
    using page_total_used [OF right] by blast
  have free: "get_free_space_contiguous (page_view leaf) = Some (gap (page_view leaf))"
    using leaf by (rule contiguous_eq)
  have subs: "checked_sub 8192 n = Some (8192 - n)"
    "checked_sub (8192 - n) 32 = Some (room_of (leaf_records right))"
    using n(2,3) by simp_all
  show ?thesis
  proof (cases "gap (page_view leaf) < room_of (leaf_records right)")
    case True
    then show ?thesis by (simp add: merge_def n(1) subs free PAGE_SIZE_def PAGE_HEADER_SIZE_def)
  next
    case False
    then have room: "room_of (leaf_records right) \<le> gap (page_view leaf)" by simp
    let ?is = "upto_u16 (of_nat (items (page_view right)))"
    have u: "unat (of_nat (items (page_view right)) :: u16) = items (page_view right)"
      using page_invD(5) [OF right] by (intro unat_of_nat_u16) simp
    have "merge_loop (page_view right) ?is leaf =
        append_loop leaf_page.append_at (leaf_records right) leaf"
      using merge_loop_append [OF right leaf, of ?is] upto_u16_unat [of _ "of_nat (items (page_view right))"]
        map_records_upto [OF right] room u by simp
    then obtain l1 where l1: "merge_loop (page_view right) ?is leaf = Some (Ok (), l1)"
      "page_inv (page_view l1)" "leaf_records l1 = leaf_records leaf @ leaf_records right"
      "same_leaf leaf l1"
      using leaf_page.append_loop_outcome [OF leaf, of "leaf_records right"] room
      by (auto simp: fitting_all)
    let ?l2 = "with_next l1 (next_ptr right)" and ?r2 = "right\<lparr>page_view := init_buffer PT_Invalid None\<rparr>"
    have nxt: "(case nxt of None \<Rightarrow> Some None
       | Some n \<Rightarrow> map_option Some (set_prev_leaf_index n (Some (pid_page_index (lnv_page_id ?l2))))) =
      Some (map_option (\<lambda>n. with_prev n (Some (pid_page_index (lnv_page_id leaf)))) nxt)"
      using next_ok with_pointer(5) [OF l1(2)] l1(4) pointers_eq(4)
      by (cases nxt) (auto simp: same_leaf_def)
    have init: "initialize (page_view right) PT_Invalid None = Some (init_buffer PT_Invalid None)"
      using page_invD(1) [OF right] by (rule initialize_eq)
    have "merge leaf right nxt = Some (Ok (), ?l2, ?r2,
        map_option (\<lambda>n. with_prev n (Some (pid_page_index (lnv_page_id leaf)))) nxt)"
      using False nxt
      by (simp add: merge_def n(1) subs free PAGE_SIZE_def PAGE_HEADER_SIZE_def leaf_count [OF right]
          l1(1) pointers_eq [OF right] pointers_eq [OF l1(2)] init)
    moreover have "next_ptr ?l2 = next_ptr right"
      using with_pointer(7) [OF l1(2)] by (simp add: next_ptr_def)
    ultimately show ?thesis
      using False with_pointer [OF l1(2), of "next_ptr right"] l1(3,4) same_leaf_pointers [OF l1(4)]
      by (auto simp: same_leaf_def)
  qed
qed

text \<open>
  C15: merging a leaf with its right sibling reports missing space exactly when the records and slots
  of the sibling do not fit the free block, changing nothing; otherwise the leaf ends with the
  records of both in order, its next pointer skips the sibling, the leaf after the sibling points
  back to it, the sibling becomes an empty page of no type, and a well-formed pair of leaves, all
  keys of the first below those of the second, gives a well-formed leaf.
\<close>

theorem merge_correct:
  assumes "leaf_ok D t (page_view leaf)" and "leaf_ok D t (page_view right)"
    and "pred_option (\<lambda>n. page_inv (page_view n)) nxt"
    and "\<forall>a \<in> set (leaf_keys D t (page_view leaf)). \<forall>b \<in> set (leaf_keys D t (page_view right)). key_less D a b"
  shows "if gap (page_view leaf) < room_of (leaf_records right)
    then merge leaf right nxt = Some (Err InsufficientSpaceForMerge, leaf, right, nxt)
    else \<exists>leaf' right'. merge leaf right nxt = Some (Ok (), leaf', right',
        map_option (\<lambda>n. with_prev n (Some (pid_page_index (lnv_page_id leaf)))) nxt) \<and>
      leaf_ok D t (page_view leaf') \<and> leaf_records leaf' = leaf_records leaf @ leaf_records right \<and>
      next_ptr leaf' = next_ptr right \<and> prev_ptr leaf' = prev_ptr leaf \<and>
      page_view right' = init_buffer PT_Invalid None"
proof -
  have inv: "page_inv (page_view leaf)" "page_inv (page_view right)"
    using assms(1,2) by (simp_all add: leaf_ok_def)
  have "leaf_ok D t page'" if "page_inv page'" "records page' = leaf_records leaf @ leaf_records right"
    for page'
    using that assms(1,2,4) by (simp add: leaf_ok_def leaf_keys_def sorted_wrt_append)
  with merge_outcome [OF inv assms(3)] show ?thesis by (auto split: if_splits)
qed

theorem merge_correct_witness:
  "\<exists>leaf' right'. merge (leaf_node_view_new (page_id_new 1 10) (init_buffer PT_LeafNode None))
      (leaf_node_view_new (page_id_new 1 11) (init_buffer PT_LeafNode None)) None =
    Some (Ok (), leaf', right', None)"
  using merge_correct [of example_decimal example_table
      "leaf_node_view_new (page_id_new 1 10) (init_buffer PT_LeafNode None)"
      "leaf_node_view_new (page_id_new 1 11) (init_buffer PT_LeafNode None)" None]
  by (auto simp: leaf_node_view_new_def empty_leaf_ok leaf_keys_def init_buffer_inv)

section \<open>Splitting a leaf\<close>

subsection \<open>The sorted lists\<close>

text \<open>The position the loop gives the new key: before the first larger key.\<close>

definition split_position :: "'d decimal_ops \<Rightarrow> 'd key \<Rightarrow> 'd key list \<Rightarrow> nat" where
  "split_position D k ks = length (takeWhile (\<lambda>x. key_cmp D k x \<noteq> Less) ks)"

lemma split_position_le: "split_position D k ks \<le> length ks"
  by (simp add: split_position_def length_takeWhile_le)

lemma split_position_point:
  assumes "decimal_laws D" and "insertion_point D ks k i"
  shows "split_position D k ks = i"
proof -
  note keys = key_order [OF assms(1)]
  have "key_cmp D k (ks ! j) \<noteq> Less" if "j < i" for j
    using assms(2) that total_cmp.cmp_less_asym [OF keys] by (auto simp: insertion_point_def key_less_def)
  moreover have "i < length ks \<Longrightarrow> key_cmp D k (ks ! i) = Less"
    using assms(2) by (simp add: insertion_point_def key_less_def)
  moreover have "i \<le> length ks" using assms(2) by (simp add: insertion_point_def)
  ultimately have "takeWhile (\<lambda>x. key_cmp D k x \<noteq> Less) ks = take i ks"
    by (intro takeWhile_eq_take_P_nth) auto
  with \<open>i \<le> length ks\<close> show ?thesis by (simp add: split_position_def)
qed

definition split_done :: "'d split_state \<Rightarrow> 'd key list \<Rightarrow> bytes list \<Rightarrow> bool \<Rightarrow> nat \<Rightarrow> 'd split_state" where
  "split_done st ks rs ins tot =
     \<lparr>sorted_keys = sorted_keys st @ ks, sorted_records = sorted_records st @ rs,
      sorted_key_index = sorted_key_index st + length ks, new_record_inserted = ins,
      total_size = total_size st + tot\<rparr>"

definition split_st_ok :: "'d split_state \<Rightarrow> bool" where
  "split_st_ok st \<longleftrightarrow> sorted_key_index st = length (sorted_keys st) \<and>
     length (sorted_records st) = length (sorted_keys st)"

lemma split_push_end:
  "split_st_ok st \<Longrightarrow> split_push k d st =
   Some (st\<lparr>sorted_keys := sorted_keys st @ [k], sorted_records := sorted_records st @ [d]\<rparr>)"
  by (simp add: split_push_def split_st_ok_def vec_insert_def)

lemma split_step:
  assumes "split_st_ok st" and "page_inv page" and "unat i < items page"
    and "readable D t (records page ! unat i)"
  shows "split_collect D t page nk nd (i # is) st =
    (if \<not> new_record_inserted st \<and> key_cmp D nk (record_key D t (records page ! unat i)) = Less
     then split_collect D t page nk nd is
       (split_done st [nk, record_key D t (records page ! unat i)] [nd, records page ! unat i] True
         (length (records page ! unat i) + length nd))
     else split_collect D t page nk nd is
       (split_done st [record_key D t (records page ! unat i)] [records page ! unat i]
         (new_record_inserted st) (length (records page ! unat i))))"
proof -
  have r: "get_record page i = Some (Some (records page ! unat i))"
    using get_record_eq [OF assms(2), of i] assms(3) by simp
  have k: "deserialize_primary_key D t (records page ! unat i) =
      Some (Ok (record_key D t (records page ! unat i)))"
    using assms(4) by (simp add: readable_def)
  show ?thesis
    using assms(1)
    by (cases st) (simp add: r k split_push_def split_st_ok_def vec_insert_def bump_index_def split_done_def Let_def
        add.assoc)
qed

lemma split_collect_inserted:
  assumes "split_st_ok st" and "page_inv page" and "new_record_inserted st"
    and "\<forall>i \<in> set is. unat i < items page \<and> readable D t (records page ! unat i)"
    and "rs = map (\<lambda>i. records page ! unat i) is"
  shows "split_collect D t page nk nd is st =
    Some (Ok (split_done st (map (record_key D t) rs) rs True (sum_list (map length rs))))"
  using assms
proof (induction "is" arbitrary: st rs)
  case Nil
  then show ?case by (simp add: split_done_def split_st_ok_def)
next
  case (Cons i "is")
  let ?r = "records page ! unat i"
  let ?st = "split_done st [record_key D t ?r] [?r] True (length ?r)"
  have "split_collect D t page nk nd (i # is) st = split_collect D t page nk nd is ?st"
    using Cons.prems by (subst split_step) auto
  also have "\<dots> = Some (Ok (split_done ?st (map (record_key D t) (map (\<lambda>i. records page ! unat i) is))
      (map (\<lambda>i. records page ! unat i) is) True (sum_list (map length (map (\<lambda>i. records page ! unat i) is)))))"
    using Cons.prems by (intro Cons.IH) (auto simp: split_st_ok_def split_done_def)
  finally show ?case using Cons.prems(5) by (simp add: split_done_def)
qed

lemma split_collect_ok:
  assumes "split_st_ok st" and "page_inv page" and "\<not> new_record_inserted st"
    and "\<forall>i \<in> set is. unat i < items page \<and> readable D t (records page ! unat i)"
    and "rs = map (\<lambda>i. records page ! unat i) is" and "ks = map (record_key D t) rs"
    and "p = split_position D nk ks"
  shows "split_collect D t page nk nd is st = Some (Ok
    (if p < length ks
     then split_done st (take p ks @ nk # drop p ks) (take p rs @ nd # drop p rs) True
            (sum_list (map length rs) + length nd)
     else split_done st ks rs False (sum_list (map length rs))))"
  using assms
proof (induction "is" arbitrary: st rs ks p)
  case Nil
  then show ?case by (cases st) (simp add: split_done_def split_position_def)
next
  case (Cons i "is")
  let ?r = "records page ! unat i"
  let ?rs = "map (\<lambda>i. records page ! unat i) is"
  let ?k = "record_key D t ?r"
  note step = split_step [OF Cons.prems(1,2), of i D t nk nd "is"]
  have i: "unat i < items page" "readable D t ?r" using Cons.prems(4) by simp_all
  show ?case
  proof (cases "key_cmp D nk ?k = Less")
    case True
    let ?st = "split_done st [nk, ?k] [nd, ?r] True (length ?r + length nd)"
    have "split_collect D t page nk nd is ?st =
        Some (Ok (split_done ?st (map (record_key D t) ?rs) ?rs True (sum_list (map length ?rs))))"
      using Cons.prems by (intro split_collect_inserted) (auto simp: split_st_ok_def split_done_def)
    then show ?thesis
      using step [OF i] True Cons.prems(3,5-7) by (simp add: split_done_def split_position_def)
  next
    case False
    let ?st = "split_done st [?k] [?r] False (length ?r)"
    let ?p = "split_position D nk (map (record_key D t) ?rs)"
    have p: "p = Suc ?p" using False Cons.prems(5-7) by (simp add: split_position_def)
    have "split_collect D t page nk nd is ?st = Some (Ok
      (if ?p < length (map (record_key D t) ?rs)
       then split_done ?st (take ?p (map (record_key D t) ?rs) @ nk # drop ?p (map (record_key D t) ?rs))
         (take ?p ?rs @ nd # drop ?p ?rs) True (sum_list (map length ?rs) + length nd)
       else split_done ?st (map (record_key D t) ?rs) ?rs False (sum_list (map length ?rs))))"
      using Cons.prems by (intro Cons.IH refl) (auto simp: split_st_ok_def split_done_def)
    then show ?thesis
      using step [OF i] False Cons.prems(3,5,6) p by (simp add: split_done_def)
  qed
qed

subsection \<open>The split index\<close>

lemma split_index_loop_bounds:
  "i \<le> split_index_loop half rs cur i \<and> split_index_loop half rs cur i \<le> i + length rs"
proof (induction rs arbitrary: cur i)
  case (Cons r rs)
  show ?case using Cons [of "i + 1" "cur + length r"] by auto
qed simp

lemma split_index_loop_less:
  "half < cur + sum_list (map length rs) \<Longrightarrow> cur \<le> half \<Longrightarrow>
   split_index_loop half rs cur i < i + length rs"
proof (induction rs arbitrary: cur i)
  case (Cons r rs)
  show ?case
  proof (cases "half < cur + length r")
    case False
    then show ?thesis using Cons.IH [of "cur + length r" "i + 1"] Cons.prems by auto
  qed simp
qed simp

subsection \<open>Writing the two halves\<close>

lemma append_loop_leaf: "append_loop leaf_append = append_loop leaf_page.append_at"
proof -
  have "leaf_append = leaf_page.append_at" by (intro ext leaf_append_at)
  then show ?thesis by (rule arg_cong)
qed

definition raw_parent :: "leaf_node_view \<Rightarrow> u64 option" where
  "raw_parent leaf = (let v = u64_at (page_view leaf) 8 in if v = - 1 then None else Some v)"

definition fresh_leaf :: "leaf_node_view \<Rightarrow> leaf_node_view" where
  "fresh_leaf leaf = leaf\<lparr>page_view := init_buffer PT_LeafNode (raw_parent leaf)\<rparr>"

lemma fresh_leaf_page:
  "page_inv (page_view (fresh_leaf leaf))" "leaf_records (fresh_leaf leaf) = []"
  "gap (page_view (fresh_leaf leaf)) = 8160" "lnv_page_id (fresh_leaf leaf) = lnv_page_id leaf"
  "next_ptr (fresh_leaf leaf) = None" "prev_ptr (fresh_leaf leaf) = None"
  using init_buffer_inv [of PT_LeafNode "raw_parent leaf"] init_buffer_page [of PT_LeafNode "raw_parent leaf"]
  by (simp_all add: fresh_leaf_def gap_def next_ptr_def prev_ptr_def as_pointer_def)

lemma split_write_start:
  assumes leaf: "page_inv (page_view leaf)"
  shows "split_write leaf right orig S s n k = (do {
     (res, leaf1) \<leftarrow> append_loop leaf_page.append_at (take s S) (fresh_leaf leaf);
     (case res of
        Err e \<Rightarrow> Some (Err e, leaf1, right, orig)
      | Ok _ \<Rightarrow> do {
          rest \<leftarrow> slice S s (n + 1);
          (res, right) \<leftarrow> append_loop leaf_page.append_at rest right;
          (case res of
             Err e \<Rightarrow> Some (Err e, leaf1, right, orig)
           | Ok _ \<Rightarrow> do {
               leaf1 \<leftarrow> set_next_leaf_index leaf1 (Some (pid_page_index (lnv_page_id right)));
               right \<leftarrow> set_next_leaf_index right (next_ptr leaf);
               right \<leftarrow> set_prev_leaf_index right (Some (pid_page_index (lnv_page_id leaf1)));
               orig \<leftarrow> (case orig of
                   None \<Rightarrow> Some None
                 | Some n \<Rightarrow>
                     map_option Some (set_prev_leaf_index n (Some (pid_page_index (lnv_page_id right)))));
               Some (Ok k, leaf1, right, orig)
             })
        })
   })"
proof -
  have u: "get_page_header_u64_value (page_view leaf) 8 = Some (u64_at (page_view leaf) 8)"
    using page_invD(1) [OF leaf] by (intro get_u64_eq) simp
  have i: "initialize (page_view leaf) PT_LeafNode p = Some (init_buffer PT_LeafNode p)" for p
    using page_invD(1) [OF leaf] by (rule initialize_eq)
  have p: "(if u64_at (page_view leaf) 8 = - 1 then None else Some (u64_at (page_view leaf) 8)) =
      raw_parent leaf" by (simp add: raw_parent_def Let_def)
  show ?thesis
    unfolding split_write_def PAGE_HEADER_PARENT_INDEX_OFFSET_def u append_loop_leaf
      pointers_eq(1) [OF leaf] Let_def
    by (simp add: p i fresh_leaf_def)
qed

text \<open>The parts of a successful split: both leaves and the leaf after them.\<close>

definition split_result ::
  "leaf_node_view \<Rightarrow> leaf_node_view \<Rightarrow> leaf_node_view \<Rightarrow> leaf_node_view \<Rightarrow> bytes list \<Rightarrow> nat \<Rightarrow> bool" where
  "split_result leaf right leaf' right' S s \<longleftrightarrow>
     page_inv (page_view leaf') \<and> page_inv (page_view right') \<and>
     leaf_records leaf' = take s S \<and> leaf_records right' = drop s S \<and>
     lnv_page_id leaf' = lnv_page_id leaf \<and> lnv_page_id right' = lnv_page_id right \<and>
     next_ptr leaf' = as_pointer (pid_page_index (lnv_page_id right)) \<and>
     next_ptr right' = next_ptr leaf \<and>
     prev_ptr right' = as_pointer (pid_page_index (lnv_page_id leaf)) \<and>
     prev_ptr leaf' = None"

lemma split_write_ok:
  assumes leaf: "page_inv (page_view leaf)" and right: "page_inv (page_view right)"
    and empty: "leaf_records right = []" and orig: "pred_option (\<lambda>n. page_inv (page_view n)) orig"
    and s: "s \<le> length S" and n: "length S = n + 1"
    and fits: "room_of (take s S) \<le> 8160" "room_of (drop s S) \<le> gap (page_view right)"
  shows "\<exists>leaf' right'. split_write leaf right orig S s n k = Some (Ok k, leaf', right',
      map_option (\<lambda>n. with_prev n (Some (pid_page_index (lnv_page_id right)))) orig) \<and>
    split_result leaf right leaf' right' S s"
proof -
  obtain l1 where l1: "append_loop leaf_page.append_at (take s S) (fresh_leaf leaf) = Some (Ok (), l1)"
    "page_inv (page_view l1)" "leaf_records l1 = take s S" "same_leaf (fresh_leaf leaf) l1"
    using leaf_page.append_loop_outcome [OF fresh_leaf_page(1) [of leaf], of "take s S"]
      fits(1) fresh_leaf_page(2,3) [of leaf]
    by (auto simp: fitting_all)
  obtain r1 where r1: "append_loop leaf_page.append_at (drop s S) right = Some (Ok (), r1)"
    "page_inv (page_view r1)" "leaf_records r1 = drop s S" "same_leaf right r1"
    using leaf_page.append_loop_outcome [OF right, of "drop s S"] fits(2) empty
    by (auto simp: fitting_all)
  have sl: "slice S s (Suc n) = Some (drop s S)"
    using s n by (simp add: range_of_def)
  let ?l2 = "with_next l1 (Some (pid_page_index (lnv_page_id r1)))"
  let ?r2 = "with_next r1 (next_ptr leaf)"
  let ?r3 = "with_prev ?r2 (Some (pid_page_index (lnv_page_id ?l2)))"
  have inv2: "page_inv (page_view ?l2)" "page_inv (page_view ?r2)" "page_inv (page_view ?r3)"
    using with_pointer(1,2) l1(2) r1(2) by blast+
  have ids: "lnv_page_id ?l2 = lnv_page_id leaf" "lnv_page_id ?r3 = lnv_page_id right"
    "lnv_page_id r1 = lnv_page_id right"
    using with_pointer(5) [OF l1(2)] with_pointer(6) [OF inv2(2)] with_pointer(5) [OF r1(2)]
      l1(4) r1(4) fresh_leaf_page(4) [of leaf]
    by (simp_all add: same_leaf_def)
  have o: "(case orig of None \<Rightarrow> Some None
     | Some n \<Rightarrow> map_option Some (set_prev_leaf_index n (Some (pid_page_index (lnv_page_id ?r3))))) =
    Some (map_option (\<lambda>n. with_prev n (Some (pid_page_index (lnv_page_id right)))) orig)"
    using orig ids(2) pointers_eq(4) by (cases orig) simp_all
  have "split_write leaf right orig S s n k = Some (Ok k, ?l2, ?r3,
      map_option (\<lambda>n. with_prev n (Some (pid_page_index (lnv_page_id right)))) orig)"
    using o unfolding split_write_start [OF leaf]
    by (simp add: l1(1) sl r1(1) pointers_eq(3) [OF l1(2)] pointers_eq(3) [OF r1(2)]
        pointers_eq(4) [OF inv2(2)])
  moreover have nxt: "next_ptr ?r2 = next_ptr leaf"
    using with_pointer(7) [OF r1(2), of "next_ptr leaf"] by (simp add: next_ptr_def)
  have "split_result leaf right ?l2 ?r3 S s"
    using with_pointer [OF l1(2), of "Some (pid_page_index (lnv_page_id r1))"]
      with_pointer [OF r1(2), of "next_ptr leaf"]
      with_pointer [OF inv2(2), of "Some (pid_page_index (lnv_page_id ?l2))"]
      l1(3) r1(3) ids same_leaf_pointers [OF l1(4)] fresh_leaf_page(5,6) [of leaf] inv2
      nxt
    by (simp add: split_result_def)
  ultimately show ?thesis by blast
qed

text \<open>
  When a half does not fit, the error is reported after the leaf has been reformatted: what is left
  is the longest prefix of the half that fits.
\<close>

lemma split_write_full:
  assumes leaf: "page_inv (page_view leaf)" and right: "page_inv (page_view right)"
    and empty: "leaf_records right = []"
    and s: "s \<le> length S" and n: "length S = n + 1"
    and full: "8160 < room_of (take s S) \<or> gap (page_view right) < room_of (drop s S)"
  shows "\<exists>leaf' right'. split_write leaf right orig S s n k = Some (Err PageFull, leaf', right', orig) \<and>
    leaf_records leaf' = fitting 8160 (take s S) \<and>
    leaf_records right' = (if room_of (take s S) \<le> 8160
      then fitting (gap (page_view right)) (drop s S) else [])"
proof (cases "room_of (take s S) \<le> 8160")
  case False
  then obtain l1 where "append_loop leaf_page.append_at (take s S) (fresh_leaf leaf) =
      Some (Err PageFull, l1)" "leaf_records l1 = fitting 8160 (take s S)"
    using leaf_page.append_loop_outcome [OF fresh_leaf_page(1) [of leaf], of "take s S"]
      fresh_leaf_page(2,3) [of leaf] by auto
  then show ?thesis using False empty by (simp add: split_write_start [OF leaf])
next
  case True
  obtain l1 where l1: "append_loop leaf_page.append_at (take s S) (fresh_leaf leaf) = Some (Ok (), l1)"
    "leaf_records l1 = fitting 8160 (take s S)"
    using leaf_page.append_loop_outcome [OF fresh_leaf_page(1) [of leaf], of "take s S"] True
      fresh_leaf_page(2,3) [of leaf] by auto
  obtain r1 where r1: "append_loop leaf_page.append_at (drop s S) right = Some (Err PageFull, r1)"
    "leaf_records r1 = fitting (gap (page_view right)) (drop s S)"
    using leaf_page.append_loop_outcome [OF right, of "drop s S"] full True empty by auto
  have sl: "slice S s (Suc n) = Some (drop s S)"
    using s n by (simp add: range_of_def)
  show ?thesis
    using l1 r1 True by (simp add: split_write_start [OF leaf] sl)
qed

subsection \<open>The whole split\<close>

definition with_new :: "nat \<Rightarrow> 'a \<Rightarrow> 'a list \<Rightarrow> 'a list" where
  "with_new p x xs = take p xs @ x # drop p xs"

text \<open>The size the code splits by, and the index it splits at.\<close>

definition counted_size :: "nat \<Rightarrow> bytes \<Rightarrow> bytes list \<Rightarrow> nat" where
  "counted_size p data recs =
     sum_list (map length recs) + (if p < length recs then length data else 0)"

definition split_at_index :: "nat \<Rightarrow> bytes \<Rightarrow> bytes list \<Rightarrow> nat" where
  "split_at_index p data recs =
     find_split_index_by_size (with_new p data recs) (counted_size p data recs)"

lemma length_with_new: "p \<le> length xs \<Longrightarrow> length (with_new p x xs) = length xs + 1"
  by (simp add: with_new_def)

lemma sum_with_new: "sum_list (map length (with_new p x xs)) = sum_list (map length xs) + length x"
proof -
  have "sum_list (map length xs) = sum_list (map length (take p xs)) + sum_list (map length (drop p xs))"
    by (metis append_take_drop_id map_append sum_list_append)
  then show ?thesis by (simp add: with_new_def)
qed

lemma split_at_index_less:
  assumes "p \<le> length recs" and "data \<noteq> []"
  shows "split_at_index p data recs < length (with_new p data recs)"
proof -
  have "counted_size p data recs \<le> sum_list (map length (with_new p data recs))"
    by (simp add: sum_with_new counted_size_def)
  moreover have "0 < sum_list (map length (with_new p data recs))"
    using assms(2) by (simp add: sum_with_new)
  ultimately have "counted_size p data recs div 2 < sum_list (map length (with_new p data recs))"
    by linarith
  then show ?thesis
    using split_index_loop_less [of "counted_size p data recs div 2" 0 "with_new p data recs" 0]
    by (simp add: split_at_index_def find_split_index_by_size_def)
qed

lemma split_start_fields [simp]:
  "sorted_keys split_start = []" "sorted_records split_start = []" "sorted_key_index split_start = 0"
  "new_record_inserted split_start = False" "total_size split_start = 0"
  by (simp_all add: split_start_def)

lemma split_run:
  assumes D: "decimal_laws D" and ok: "leaf_ok D t (page_view leaf)" and fits: "record_fits D t pk r"
    and right: "page_inv (page_view right)" and empty: "leaf_records right = []"
    and cols: "td_columns t \<noteq> []"
    and key: "key = key_values pk (td_columns t) r" and data: "data = record_layout D r"
    and recs: "recs = leaf_records leaf"
    and p: "p = split_position D key (leaf_keys D t (page_view leaf))"
  shows "split_and_insert D leaf r right orig t =
      split_write leaf right orig (with_new p data recs) (split_at_index p data recs) (length recs)
        (with_new p key (leaf_keys D t (page_view leaf)) ! split_at_index p data recs)"
    and "p \<le> length recs" and "split_at_index p data recs \<le> length recs"
proof -
  let ?page = "page_view leaf" and ?ks = "leaf_keys D t (page_view leaf)"
  note rk = record_fits_keys [OF D fits, folded key data]
  have inv: "page_inv ?page" and read: "list_all (readable D t) recs"
    using ok recs by (simp_all add: leaf_ok_def)
  show p_le: "p \<le> length recs" using split_position_le [of D key ?ks] p recs by simp
  have "length (td_columns t) = length r"
    using fits list_all2_lengthD by (auto simp: record_fits_def record_ok_def)
  then have "0 < (length r + 7) div 8" using cols by (cases r) auto
  then have "data \<noteq> []" using data by (simp add: record_layout_def null_bitmap_of_def)
  then have s: "split_at_index p data recs < length (with_new p data recs)"
    by (rule split_at_index_less [OF p_le])
  then show "split_at_index p data recs \<le> length recs" using length_with_new [OF p_le, of data] by simp
  have rc: "leaf_get_item_count right = Some 0" using leaf_count [OF right] empty by simp
  have lc: "leaf_get_item_count leaf = Some (of_nat (items ?page))" using leaf_count [OF inv] by simp
  have u: "unat (of_nat (items ?page) :: u16) = items ?page"
    using page_invD(5) [OF inv] by (intro unat_of_nat_u16) simp
  let ?is = "upto_u16 (of_nat (items ?page))"
  have rs: "recs = map (\<lambda>i. records ?page ! unat i) ?is"
    using map_records_upto [OF inv] recs by simp
  have ks: "?ks = map (record_key D t) recs" by (simp add: leaf_keys_def recs)
  have idx: "\<forall>i \<in> set ?is. unat i < items ?page \<and> readable D t (records ?page ! unat i)"
    using upto_u16_unat [of _ "of_nat (items ?page)"] u read recs by (auto simp: list_all_length)
  have collect: "split_collect D t ?page key data ?is split_start = Some (Ok
    (if p < length ?ks
     then split_done split_start (take p ?ks @ key # drop p ?ks) (take p recs @ data # drop p recs) True
            (sum_list (map length recs) + length data)
     else split_done split_start ?ks recs False (sum_list (map length recs))))"
    using inv idx rs ks p
    by (intro split_collect_ok) (simp_all add: split_st_ok_def split_start_def)
  have mid: "index (with_new p key ?ks) (split_at_index p data recs) =
      Some (with_new p key ?ks ! split_at_index p data recs)"
    using s length_with_new [OF p_le, of data] length_with_new [of p ?ks key] p_le recs by simp
  show "split_and_insert D leaf r right orig t =
      split_write leaf right orig (with_new p data recs) (split_at_index p data recs) (length recs)
        (with_new p key ?ks ! split_at_index p data recs)"
  proof (cases "p < length ?ks")
    case True
    have "find_split_index_by_size (with_new p data recs) (sum_list (map length recs) + length data) =
        split_at_index p data recs"
      using True recs by (simp add: split_at_index_def counted_size_def)
    then show ?thesis
      using True mid recs collect
      by (simp add: split_and_insert_def rc lc rk u split_done_def with_new_def Let_def)
  next
    case False
    then have pn: "p = length recs" using p_le recs by simp
    then have "find_split_index_by_size (with_new p data recs) (sum_list (map length recs)) =
        split_at_index p data recs"
      by (simp add: split_at_index_def counted_size_def)
    then show ?thesis
      using False mid pn recs collect
      by (simp add: split_and_insert_def rc lc rk u split_done_def with_new_def split_push_def
          vec_insert_def Let_def)
  qed
qed

lemma with_new_keys:
  assumes D: "decimal_laws D" and ok: "leaf_ok D t page"
    and point: "insertion_point D (leaf_keys D t page) key p"
    and data: "readable D t data" "record_key D t data = key"
  shows "sorted_wrt (key_less D) (with_new p key (leaf_keys D t page))"
    and "map (record_key D t) (with_new p data (records page)) = with_new p key (leaf_keys D t page)"
    and "list_all (readable D t) (with_new p data (records page))"
proof -
  show "sorted_wrt (key_less D) (with_new p key (leaf_keys D t page))"
    using ok point total_cmp.increasing_insert [OF key_order [OF D], of "leaf_keys D t page" p key]
    by (simp add: leaf_ok_def insertion_point_def key_less_def [abs_def] with_new_def)
  show "map (record_key D t) (with_new p data (records page)) = with_new p key (leaf_keys D t page)"
    by (simp add: with_new_def leaf_keys_def take_map drop_map data(2))
  show "list_all (readable D t) (with_new p data (records page))"
    using ok data(1) by (auto simp: with_new_def leaf_ok_def list_all_iff dest: in_set_takeD in_set_dropD)
qed

lemma leaf_ok_part:
  assumes "sorted_wrt (key_less D) (map (record_key D t) S)" and "list_all (readable D t) S"
    and "page_inv page" and "records page = take s S \<or> records page = drop s S"
  shows "leaf_ok D t page"
proof -
  have "list_all (readable D t) (records page)"
    using assms(2,4) set_take_subset [of s S] set_drop_subset [of s S] unfolding list_all_iff by auto
  moreover have "leaf_keys D t page = take s (map (record_key D t) S) \<or>
      leaf_keys D t page = drop s (map (record_key D t) S)"
    using assms(4) by (auto simp: leaf_keys_def take_map drop_map)
  then have "sorted_wrt (key_less D) (leaf_keys D t page)"
    using assms(1) by (auto simp: sorted_wrt_take sorted_wrt_drop)
  ultimately show ?thesis using assms(3) by (simp add: leaf_ok_def)
qed

lemma split_outcome:
  assumes D: "decimal_laws D" and ok: "leaf_ok D t (page_view leaf)" and fits: "record_fits D t pk r"
    and right: "page_inv (page_view right)" and empty: "leaf_records right = []"
    and orig: "pred_option (\<lambda>n. page_inv (page_view n)) orig" and cols: "td_columns t \<noteq> []"
    and point: "insertion_point D (leaf_keys D t (page_view leaf)) (key_values pk (td_columns t) r) p"
    and S: "S = with_new p (record_layout D r) (leaf_records leaf)"
    and s: "s = split_at_index p (record_layout D r) (leaf_records leaf)"
    and room: "room_of (take s S) \<le> 8160" "room_of (drop s S) \<le> gap (page_view right)"
    and K: "K = map (record_key D t) S"
  shows "\<exists>leaf' right'. split_and_insert D leaf r right orig t = Some (Ok (K ! s), leaf', right',
      map_option (\<lambda>n. with_prev n (Some (pid_page_index (lnv_page_id right)))) orig) \<and>
    split_result leaf right leaf' right' S s \<and>
    leaf_ok D t (page_view leaf') \<and> leaf_ok D t (page_view right') \<and> s < length S \<and>
    (\<forall>b \<in> set (take s S). key_less D (record_key D t b) (K ! s)) \<and>
    (\<forall>b \<in> set (drop s S). \<not> key_less D (record_key D t b) (K ! s))"
proof -
  let ?key = "key_values pk (td_columns t) r" and ?data = "record_layout D r"
  let ?recs = "leaf_records leaf"
  have inv: "page_inv (page_view leaf)" using ok by (simp add: leaf_ok_def)
  have p: "p = split_position D ?key (leaf_keys D t (page_view leaf))" using split_position_point [OF D point] by simp
  note run = split_run [OF D ok fits right empty cols refl refl refl p]
  note wk = with_new_keys [OF D ok point record_fits_keys(3,4) [OF D fits], folded S]
  have lenS: "length S = length ?recs + 1" using S length_with_new [OF run(2)] by simp
  have less: "s < length S" using run(3) s lenS by simp
  obtain leaf' right' where w: "split_write leaf right orig S s (length ?recs) (K ! s) =
      Some (Ok (K ! s), leaf', right', map_option (\<lambda>n. with_prev n (Some (pid_page_index (lnv_page_id right)))) orig)"
    "split_result leaf right leaf' right' S s"
    using split_write_ok [OF inv right empty orig less_imp_le [OF less] lenS room, of "K ! s"]
    by (elim exE conjE) (rule that)
  have parts: "page_inv (page_view leaf')" "page_inv (page_view right')"
    "leaf_records leaf' = take s S" "leaf_records right' = drop s S"
    using w(2) by (simp_all add: split_result_def)
  have sorted: "sorted_wrt (key_less D) K" using wk(1,2) K by simp
  have "leaf_ok D t (page_view leaf')" "leaf_ok D t (page_view right')"
    by (rule leaf_ok_part [OF sorted [unfolded K] wk(3) parts(1) disjI1 [OF parts(3)]],
        rule leaf_ok_part [OF sorted [unfolded K] wk(3) parts(2) disjI2 [OF parts(4)]])
  moreover have "key_less D (record_key D t b) (K ! s)" if "b \<in> set (take s S)" for b
    using that sorted less by (auto simp: in_set_conv_nth K sorted_wrt_iff_nth_less)
  moreover have "\<not> key_less D (record_key D t b) (K ! s)" if b: "b \<in> set (drop s S)" for b
  proof -
    obtain j where j: "s \<le> j" "j < length K" "record_key D t b = K ! j"
    proof -
      obtain i where "i < length (drop s S)" "drop s S ! i = b" using b [unfolded in_set_conv_nth] by blast
      then show thesis using that [of "s + i"] K by simp
    qed
    show ?thesis
    proof (cases "s = j")
      case True
      then show ?thesis using j(3) total_cmp.cmp_less_irrefl [OF key_order [OF D]] by (simp add: key_less_def)
    next
      case False
      then have "key_less D (K ! s) (K ! j)" using sorted j by (simp add: sorted_wrt_iff_nth_less)
      then show ?thesis using j(3) total_cmp.cmp_less_asym [OF key_order [OF D]] by (auto simp: key_less_def)
    qed
  qed
  ultimately show ?thesis using run(1) w less wk(2) by (auto simp: K s S)
qed

text \<open>
  C7: splitting a well-formed leaf into an empty right sibling, with a new record whose key the leaf
  does not hold and where both halves fit a page, distributes the old records and the new one in key
  order over the two leaves, returns the first key of the right leaf as the separator, leaves both
  leaves well-formed with every key of the left below it and none of the right, and links the right
  leaf between the left one and its old successor. The pointer of the left leaf to its predecessor
  is not kept.
\<close>

theorem split_and_insert_correct:
  assumes "decimal_laws D" and "leaf_ok D t (page_view leaf)" and "record_fits D t pk r"
    and "page_inv (page_view right)" and "leaf_records right = []"
    and "pred_option (\<lambda>n. page_inv (page_view n)) orig" and "td_columns t \<noteq> []"
    and "insertion_point D (leaf_keys D t (page_view leaf)) (key_values pk (td_columns t) r) p"
    and "S = with_new p (record_layout D r) (leaf_records leaf)"
    and "s = split_at_index p (record_layout D r) (leaf_records leaf)"
    and "room_of (take s S) \<le> 8160" and "room_of (drop s S) \<le> gap (page_view right)"
  shows "\<exists>leaf' right' k. split_and_insert D leaf r right orig t = Some (Ok k, leaf', right',
      map_option (\<lambda>n. with_prev n (Some (pid_page_index (lnv_page_id right)))) orig) \<and>
    split_result leaf right leaf' right' S s \<and>
    leaf_ok D t (page_view leaf') \<and> leaf_ok D t (page_view right') \<and>
    leaf_keys D t (page_view right') \<noteq> [] \<and> k = hd (leaf_keys D t (page_view right')) \<and>
    (\<forall>a \<in> set (leaf_keys D t (page_view leaf')). key_less D a k) \<and>
    (\<forall>a \<in> set (leaf_keys D t (page_view right')). \<not> key_less D a k)"
  using split_outcome [OF assms refl]
proof (elim exE conjE, goal_cases)
  case (1 leaf' right')
  have "leaf_keys D t (page_view leaf') = map (record_key D t) (take s S)"
    "leaf_keys D t (page_view right') = map (record_key D t) (drop s S)"
    using 1(2) by (simp_all add: split_result_def leaf_keys_def)
  then show ?case
    using 1 by (intro exI [of _ leaf'] exI [of _ right']) (simp add: hd_map hd_drop_conv_nth)
qed

text \<open>
  C21: where one of the two halves does not fit its page, the split reports a full page after it has
  already reformatted the leaf: only the records of the left half that fit are left in it, the right
  leaf has at most a part of the others, and the rest of the records is in neither.
\<close>

theorem split_and_insert_full:
  assumes "decimal_laws D" and "leaf_ok D t (page_view leaf)" and "record_fits D t pk r"
    and "page_inv (page_view right)" and "leaf_records right = []" and "td_columns t \<noteq> []"
    and "insertion_point D (leaf_keys D t (page_view leaf)) (key_values pk (td_columns t) r) p"
    and "S = with_new p (record_layout D r) (leaf_records leaf)"
    and "s = split_at_index p (record_layout D r) (leaf_records leaf)"
    and "8160 < room_of (take s S) \<or> gap (page_view right) < room_of (drop s S)"
  shows "\<exists>leaf' right'. split_and_insert D leaf r right orig t = Some (Err PageFull, leaf', right', orig) \<and>
    leaf_records leaf' = fitting 8160 (take s S) \<and>
    leaf_records right' = (if room_of (take s S) \<le> 8160
      then fitting (gap (page_view right)) (drop s S) else []) \<and>
    length (leaf_records leaf') + length (leaf_records right') < length S"
proof -
  let ?key = "key_values pk (td_columns t) r" and ?data = "record_layout D r"
  have inv: "page_inv (page_view leaf)" using assms(2) by (simp add: leaf_ok_def)
  have p: "p = split_position D ?key (leaf_keys D t (page_view leaf))"
    using split_position_point [OF assms(1,7)] by simp
  note run = split_run [OF assms(1-6) refl refl refl p]
  have lenS: "length S = length (leaf_records leaf) + 1" using assms(8) length_with_new [OF run(2)] by simp
  have s: "s \<le> length S" using run(3) assms(9) lenS by simp
  obtain leaf' right' where w: "split_and_insert D leaf r right orig t =
      Some (Err PageFull, leaf', right', orig)"
    "leaf_records leaf' = fitting 8160 (take s S)"
    "leaf_records right' = (if room_of (take s S) \<le> 8160
      then fitting (gap (page_view right)) (drop s S) else [])"
    using split_write_full [OF inv assms(4,5) s lenS assms(10), of orig
        "with_new p ?key (leaf_keys D t (page_view leaf)) ! s"] run(1)
    unfolding assms(8,9) by auto
  have le: "length (fitting n xs) \<le> length xs" for n xs
    using fitting_prefix [of n xs] by (rule prefix_length_le)
  have lt: "length (fitting n xs) < length xs" if "n < room_of xs" for n xs
  proof -
    obtain zs where zs: "xs = fitting n xs @ zs" using fitting_prefix by (rule prefixE)
    have "zs \<noteq> []" using zs fitting_all_iff [of n xs] that by (cases zs) auto
    then show ?thesis using arg_cong [OF zs, of length] by simp
  qed
  have "length (leaf_records leaf') + length (leaf_records right') < length (take s S) + length (drop s S)"
    using w(2,3) assms(10) le [of 8160 "take s S"] le [of "gap (page_view right)" "drop s S"]
      lt [of 8160 "take s S"] lt [of "gap (page_view right)" "drop s S"]
    by (cases "room_of (take s S) \<le> 8160") auto
  also have "length (take s S) + length (drop s S) = length S" using s by simp
  finally show ?thesis using w by blast
qed

subsection \<open>A leaf of one large record\<close>

text \<open>
  Two records of 5009 bytes need two pages. A leaf that holds the one with key 1 splits well for a
  new key 0. For a new key 2 the size of the new record is not counted, the split index is 0 and
  both records go to the right page, where only one fits.
\<close>

definition big_record :: "i32 \<Rightarrow> example_dec record_values" where
  "big_record k = [V_Int k, V_Text (replicate 5000 CHR ''x'')]"

abbreviation big_data :: "i32 \<Rightarrow> bytes" where
  "big_data k \<equiv> record_layout example_decimal (big_record k)"

lemma length_big [simp]: "length (big_data k) = 5009"
  by (simp add: big_record_def record_layout_def)

lemma is_str_x: "is_str (replicate n CHR ''x'')"
  by (induction n) (simp_all add: is_str_def)

lemma big_fits: "record_fits example_decimal example_table [''id''] (big_record k)"
  using example_primary_key is_str_x [of 5000]
  by (simp add: record_fits_def key_values_def column_value_def example_table_def big_record_def
      record_ok_def record_layout_def)

lemma big_key: "key_values [''id''] (td_columns example_table) (big_record k) = [V_Int k]"
  by (simp add: key_values_def column_value_def example_table_def big_record_def)

definition one_leaf :: leaf_node_view where
  "one_leaf = leaf_node_view_new (page_id_new 1 10) (insert_buffer (init_buffer PT_LeafNode None) 0 (big_data 1))"

definition empty_leaf :: leaf_node_view where
  "empty_leaf = leaf_node_view_new (page_id_new 1 11) (init_buffer PT_LeafNode None)"

lemma one_leaf_page:
  "page_inv (page_view one_leaf)" "leaf_records one_leaf = [big_data 1]"
  "leaf_ok example_decimal example_table (page_view one_leaf)"
  "leaf_keys example_decimal example_table (page_view one_leaf) = [[V_Int 1]]"
proof -
  have "insertable (init_buffer PT_LeafNode None) 0 (big_data 1)"
    by (simp add: insertable_def empty_page)
  from insert_buffer_page [OF this] show inv: "page_inv (page_view one_leaf)"
    and recs: "leaf_records one_leaf = [big_data 1]"
    by (simp_all add: one_leaf_def leaf_node_view_new_def empty_page)
  note rk = record_fits_keys [OF example_decimal_laws big_fits [of 1], unfolded big_key]
  show "leaf_keys example_decimal example_table (page_view one_leaf) = [[V_Int 1]]"
    by (simp add: leaf_keys_def recs rk)
  then show "leaf_ok example_decimal example_table (page_view one_leaf)"
    using inv recs rk by (simp add: leaf_ok_def)
qed

lemma empty_leaf_page:
  "page_inv (page_view empty_leaf)" "leaf_records empty_leaf = []" "gap (page_view empty_leaf) = 8160"
  by (simp_all add: empty_leaf_def leaf_node_view_new_def empty_page)

lemma one_leaf_points:
  "insertion_point example_decimal [[V_Int 1]] [V_Int 0] 0"
  "insertion_point example_decimal [[V_Int 1]] [V_Int 2] 1"
  by (simp_all add: insertion_point_def key_less_def key_cmp_def data_value_cmp_def
      int_cmp_def)

lemma example_columns: "td_columns example_table \<noteq> []"
  by (simp add: example_table_def)

lemma one_leaf_split:
  "split_at_index 0 (big_data k) [big_data 1] = 1"
  "split_at_index 1 (big_data k) [big_data 1] = 0"
  by (simp_all add: split_at_index_def with_new_def counted_size_def find_split_index_by_size_def)

theorem split_and_insert_correct_witness:
  "\<exists>leaf' right' k. split_and_insert example_decimal one_leaf (big_record 0) empty_leaf None example_table =
      Some (Ok k, leaf', right', None) \<and>
    leaf_records leaf' = [big_data 0] \<and> leaf_records right' = [big_data 1]"
  using split_and_insert_correct [OF example_decimal_laws one_leaf_page(3) big_fits empty_leaf_page(1,2),
      of None 0 0 "with_new 0 (big_data 0) [big_data 1]" 1]
  by (simp add: one_leaf_page(2,4) big_key one_leaf_points one_leaf_split with_new_def
      empty_leaf_page(3) split_result_def example_columns) blast

theorem split_and_insert_full_witness:
  "\<exists>leaf' right'. split_and_insert example_decimal one_leaf (big_record 2) empty_leaf None example_table =
      Some (Err PageFull, leaf', right', None) \<and>
    leaf_records leaf' = [] \<and> leaf_records right' = [big_data 1]"
  using split_and_insert_full [OF example_decimal_laws one_leaf_page(3) big_fits empty_leaf_page(1,2),
      of 2 1 "with_new 1 (big_data 2) [big_data 1]" 0 None]
  by (simp add: one_leaf_page(2,4) big_key one_leaf_points [simplified] one_leaf_split [simplified]
      with_new_def empty_leaf_page(3) example_columns) blast

end
