(* ===== verification/Leaf_Map.thy ===== *)
theory Leaf_Map
  imports Leaf_Node
begin

text \<open>
  What a leaf is for: it is a map from keys to records. The interface of such a map, its operations
  answering as those of \<open>LeafNodeView\<close>, is a locale; a leaf is an interpretation of it, and a run
  of insertions and updates on the pages of the code refines the run on the abstract map. Splitting
  and merging keep the map, and the separator of a split tells which of the two leaves has a key.
\<close>

section \<open>Maps of records\<close>

text \<open>
  The abstract map. Keys that the order takes for equal are one key. An operation that answers
  \<open>Ok\<close> puts its record; one that fails changes nothing.
\<close>

definition put :: "('k \<Rightarrow> 'k \<Rightarrow> bool) \<Rightarrow> 'k \<Rightarrow> 'v \<Rightarrow> ('k \<Rightarrow> 'v option) \<Rightarrow> 'k \<Rightarrow> 'v option" where
  "put same key v m = (\<lambda>k. if same k key then Some v else m k)"

definition after :: "('k \<Rightarrow> 'k \<Rightarrow> bool) \<Rightarrow> 'k \<Rightarrow> 'v \<Rightarrow> (storage_error, u16) rust_result \<Rightarrow>
    ('k \<Rightarrow> 'v option) \<Rightarrow> 'k \<Rightarrow> 'v option" where
  "after same key v res m = (case res of Ok _ \<Rightarrow> put same key v m | Err _ \<Rightarrow> m)"

text \<open>The answers: the error \<open>e\<close> exactly when the key is not as the operation needs it.\<close>

definition answers :: "bool \<Rightarrow> storage_error \<Rightarrow> (storage_error, u16) rust_result \<Rightarrow> bool" where
  "answers possible e res \<longleftrightarrow> (if possible then res = Err PageFull \<or> (\<exists>i. res = Ok i) else res = Err e)"

datatype 'r op = Insert 'r | Update 'r

primrec op_record :: "'r op \<Rightarrow> 'r" where
  "op_record (Insert r) = r"
| "op_record (Update r) = r"

primrec admits :: "'v option \<Rightarrow> 'r op \<Rightarrow> (storage_error, u16) rust_result \<Rightarrow> bool" where
  "admits old (Insert r) res = answers (old = None) DuplicateKey res"
| "admits old (Update r) res = answers (old \<noteq> None) KeyNotFound res"

fun map_run :: "('k \<Rightarrow> 'k \<Rightarrow> bool) \<Rightarrow> ('r \<Rightarrow> 'k) \<Rightarrow> ('r \<Rightarrow> 'v) \<Rightarrow>
    'r op list \<Rightarrow> (storage_error, u16) rust_result list \<Rightarrow> ('k \<Rightarrow> 'v option) \<Rightarrow> ('k \<Rightarrow> 'v option) option" where
  "map_run same key_of content [] [] m = Some m"
| "map_run same key_of content (op # ops) (res # ress) m =
     (if admits (m (key_of (op_record op))) op res
      then map_run same key_of content ops ress (after same (key_of (op_record op)) (content (op_record op)) res m)
      else None)"
| "map_run same key_of content _ _ m = None"

lemma map_run_Nil: "map_run same key_of content [] ress m = Some m' \<longleftrightarrow> ress = [] \<and> m' = m"
  by (cases ress) auto

lemma map_run_Cons:
  "map_run same key_of content (op # ops) ress m = Some m' \<longleftrightarrow> (\<exists>res rest. ress = res # rest \<and>
     admits (m (key_of (op_record op))) op res \<and>
     map_run same key_of content ops rest (after same (key_of (op_record op)) (content (op_record op)) res m) = Some m')"
  by (cases ress) auto

text \<open>A run of operations on an implementation.\<close>

type_synonym ('m, 'r) operation = "'m \<Rightarrow> 'r \<Rightarrow> ((storage_error, u16) rust_result \<times> 'm) option"

fun run_ops :: "('m, 'r) operation \<Rightarrow> ('m, 'r) operation \<Rightarrow> 'r op list \<Rightarrow> 'm \<Rightarrow>
    ((storage_error, u16) rust_result list \<times> 'm) option" where
  "run_ops ins upd [] m = Some ([], m)"
| "run_ops ins upd (op # ops) m = do {
     (res, m) \<leftarrow> (case op of Insert r \<Rightarrow> ins m r | Update r \<Rightarrow> upd m r);
     (ress, m) \<leftarrow> run_ops ins upd ops m;
     Some (res # ress, m)
   }"

locale record_map =
  fixes inv :: "'m \<Rightarrow> bool"
    and lookup :: "'m \<Rightarrow> 'k \<Rightarrow> 'v option"
    and same :: "'k \<Rightarrow> 'k \<Rightarrow> bool"
    and fits :: "'r \<Rightarrow> bool"
    and key_of :: "'r \<Rightarrow> 'k"
    and content :: "'r \<Rightarrow> 'v"
    and ins :: "('m, 'r) operation"
    and upd :: "('m, 'r) operation"
  assumes ins_outcome: "inv m \<Longrightarrow> fits r \<Longrightarrow> \<exists>res m'. ins m r = Some (res, m') \<and> inv m' \<and>
      admits (lookup m (key_of r)) (Insert r) res \<and> lookup m' = after same (key_of r) (content r) res (lookup m)"
    and upd_outcome: "inv m \<Longrightarrow> fits r \<Longrightarrow> \<exists>res m'. upd m r = Some (res, m') \<and> inv m' \<and>
      admits (lookup m (key_of r)) (Update r) res \<and> lookup m' = after same (key_of r) (content r) res (lookup m)"
begin

lemma op_outcome:
  assumes "inv m" and "fits (op_record op)"
  shows "\<exists>res m'. (case op of Insert r \<Rightarrow> ins m r | Update r \<Rightarrow> upd m r) = Some (res, m') \<and> inv m' \<and>
    admits (lookup m (key_of (op_record op))) op res \<and>
    lookup m' = after same (key_of (op_record op)) (content (op_record op)) res (lookup m)"
  using ins_outcome upd_outcome assms by (cases op) auto

lemma run_refines:
  assumes "inv m" and "\<forall>op \<in> set ops. fits (op_record op)"
  shows "\<exists>ress m'. run_ops ins upd ops m = Some (ress, m') \<and> inv m' \<and>
    map_run same key_of content ops ress (lookup m) = Some (lookup m')"
  using assms
proof (induction ops arbitrary: m)
  case Nil
  then show ?case by simp
next
  case (Cons op ops)
  obtain res m1 where op: "(case op of Insert r \<Rightarrow> ins m r | Update r \<Rightarrow> upd m r) = Some (res, m1)" "inv m1"
    "admits (lookup m (key_of (op_record op))) op res"
    "lookup m1 = after same (key_of (op_record op)) (content (op_record op)) res (lookup m)"
    using op_outcome [of m op] Cons.prems by auto
  obtain ress m' where "run_ops ins upd ops m1 = Some (ress, m')" "inv m'"
    "map_run same key_of content ops ress (lookup m1) = Some (lookup m')"
    using Cons.IH [OF op(2)] Cons.prems(2) by auto
  then show ?case using op by (intro exI [of _ "res # ress"] exI [of _ m']) simp
qed

end

section \<open>The map of a leaf\<close>

definition find_record :: "'d decimal_ops \<Rightarrow> table_definition \<Rightarrow> bytes list \<Rightarrow> 'd key \<Rightarrow> bytes option" where
  "find_record D t rs k = List.find (\<lambda>b. key_eq D k (record_key D t b)) rs"

abbreviation leaf_map :: "'d decimal_ops \<Rightarrow> table_definition \<Rightarrow> leaf_node_view \<Rightarrow> 'd key \<Rightarrow> bytes option" where
  "leaf_map D t leaf \<equiv> find_record D t (leaf_records leaf)"

lemma find_record_append:
  "find_record D t (xs @ ys) k = (case find_record D t xs k of None \<Rightarrow> find_record D t ys k | Some b \<Rightarrow> Some b)"
  by (induction xs) (simp_all add: find_record_def)

lemma find_record_Cons:
  "find_record D t (b # bs) k = (if key_eq D k (record_key D t b) then Some b else find_record D t bs k)"
  by (simp add: find_record_def)

lemma find_record_None: "find_record D t rs k = None \<longleftrightarrow> (\<forall>b \<in> set rs. \<not> key_eq D k (record_key D t b))"
  by (auto simp: find_record_def find_None_iff)

lemma found_iff:
  "key_found D (leaf_keys D t page) k i \<longleftrightarrow> i < items page \<and> key_eq D k (record_key D t (records page ! i))"
  by (cases "i < items page") (simp_all add: key_found_def leaf_keys_def)

text \<open>On a well-formed leaf it is the record at the one index that the search finds.\<close>

lemma found_record:
  assumes "leaf_ok D t page" and "decimal_laws D"
  shows "key_found D (leaf_keys D t page) k i \<Longrightarrow> find_record D t (records page) k = Some (records page ! i)"
    and "find_record D t (records page) k = None \<longleftrightarrow> (\<forall>i. \<not> key_found D (leaf_keys D t page) k i)"
proof -
  show none: "find_record D t (records page) k = None \<longleftrightarrow> (\<forall>i. \<not> key_found D (leaf_keys D t page) k i)"
    by (simp add: find_record_None found_iff all_set_conv_all_nth)
  assume found: "key_found D (leaf_keys D t page) k i"
  then obtain b where b: "find_record D t (records page) k = Some b" using none by fastforce
  then obtain j where j: "j < items page" "b = records page ! j" "key_eq D k (record_key D t b)"
    by (auto simp: find_record_def find_Some_iff)
  then have "key_found D (leaf_keys D t page) k j" by (simp add: found_iff)
  then show "find_record D t (records page) k = Some (records page ! i)"
    using found_unique(1) [OF assms found] b j by simp
qed

lemma same_key_found:
  assumes "decimal_laws D" and "key_eq D k key"
  shows "key_found D ks k i \<longleftrightarrow> key_found D ks key i"
  using total_cmp.eq_trans [OF key_order [OF assms(1)]] total_cmp.eq_sym [OF key_order [OF assms(1)]] assms(2)
  unfolding key_found_def by blast

text \<open>A record put among the others, at its place or in the place of the one with its key.\<close>

lemma find_record_insert:
  assumes D: "decimal_laws D" and "insertion_point D (leaf_keys D t page) key i" and ok: "leaf_ok D t page"
    and "record_key D t data = key"
  shows "find_record D t (take i (records page) @ data # drop i (records page)) =
    put (key_eq D) key data (find_record D t (records page))"
proof
  fix k
  have split: "find_record D t (records page) k = (case find_record D t (take i (records page)) k of
      None \<Rightarrow> find_record D t (drop i (records page)) k | Some b \<Rightarrow> Some b)"
    using find_record_append [of D t "take i (records page)" "drop i (records page)" k] by simp
  have "find_record D t (records page) k = None" if "key_eq D k key"
    using found_record(2) [OF ok D] point_not_found [OF ok D assms(2)] same_key_found [OF D that] by blast
  then show "find_record D t (take i (records page) @ data # drop i (records page)) k =
      put (key_eq D) key data (find_record D t (records page)) k"
    using split assms(4) by (auto simp: put_def find_record_append find_record_Cons split: option.splits)
qed

lemma find_record_replace:
  assumes D: "decimal_laws D" and found: "key_found D (leaf_keys D t page) key i" and ok: "leaf_ok D t page"
    and "record_key D t data = key"
  shows "find_record D t ((records page)[i := data]) = put (key_eq D) key data (find_record D t (records page))"
proof
  fix k
  let ?rs = "records page"
  have i: "i < items page" "key_eq D key (record_key D t (?rs ! i))"
    using found by (simp_all add: found_iff)
  have same: "key_eq D k (record_key D t (?rs ! i)) \<longleftrightarrow> key_eq D k key"
    using total_cmp.eq_trans [OF key_order [OF D]] total_cmp.eq_sym [OF key_order [OF D]] i(2) by blast
  have split: "find_record D t ?rs k = (case find_record D t (take i ?rs) k of
      None \<Rightarrow> find_record D t (?rs ! i # drop (Suc i) ?rs) k | Some b \<Rightarrow> Some b)"
    using find_record_append [of D t "take i ?rs" "?rs ! i # drop (Suc i) ?rs" k] id_take_nth_drop [of i ?rs] i(1)
    by simp
  have "find_record D t (take i ?rs) k = None" if "key_eq D k key"
  proof (rule ccontr)
    assume "find_record D t (take i ?rs) k \<noteq> None"
    then obtain b where "b \<in> set (take i ?rs)" "key_eq D k (record_key D t b)" by (auto simp: find_record_None)
    then obtain j where "j < i" "key_eq D k (record_key D t (?rs ! j))" by (auto simp: in_set_conv_nth)
    then have "key_found D (leaf_keys D t page) k j" "j \<noteq> i" using i(1) by (simp_all add: found_iff)
    then show False using found_unique(1) [OF ok D found] same_key_found [OF D that] by blast
  qed
  then show "find_record D t (?rs[i := data]) k = put (key_eq D) key data (find_record D t ?rs) k"
    using split i(1) same assms(4)
    by (auto simp: put_def upd_conv_take_nth_drop find_record_append find_record_Cons split: option.splits)
qed

interpretation leaf: record_map "\<lambda>l. decimal_laws D \<and> leaf_ok D t (page_view l)" "leaf_map D t" "key_eq D"
  "record_fits D t pk" "key_values pk (td_columns t)" "record_layout D"
  "\<lambda>l r. insert_record D l r t" "\<lambda>l r. update_record D l r t" for D t pk
proof
  fix leaf :: leaf_node_view and r
  assume inv: "decimal_laws D \<and> leaf_ok D t (page_view leaf)" and fits: "record_fits D t pk r"
  then have D: "decimal_laws D" and ok: "leaf_ok D t (page_view leaf)" by simp_all
  note found = found_record(2) [OF ok D, of "key_values pk (td_columns t) r"]
    and none = point_not_found [OF ok D, of "key_values pk (td_columns t) r"]
  note key = record_fits_keys(4) [OF D fits]
  show "\<exists>res leaf'. insert_record D leaf r t = Some (res, leaf') \<and>
      (decimal_laws D \<and> leaf_ok D t (page_view leaf')) \<and>
      admits (leaf_map D t leaf (key_values pk (td_columns t) r)) (Insert r) res \<and>
      leaf_map D t leaf' = after (key_eq D) (key_values pk (td_columns t) r) (record_layout D r) res (leaf_map D t leaf)"
    using insert_record_steps [OF D ok fits]
  proof (elim exE conjE, goal_cases)
    case (1 leaf' res)
    show ?case
    proof (cases res)
      case (Inl e)
      then show ?thesis using 1 D found none by (auto simp: answers_def after_def)
    next
      case (Inr i)
      then have p: "insertion_point D (leaf_keys D t (page_view leaf)) (key_values pk (td_columns t) r) (unat i)"
        using 1 by simp
      show ?thesis using 1 Inr D found none [OF p] find_record_insert [OF D p ok key]
        by (auto simp: answers_def after_def)
    qed
  qed
  show "\<exists>res leaf'. update_record D leaf r t = Some (res, leaf') \<and>
      (decimal_laws D \<and> leaf_ok D t (page_view leaf')) \<and>
      admits (leaf_map D t leaf (key_values pk (td_columns t) r)) (Update r) res \<and>
      leaf_map D t leaf' = after (key_eq D) (key_values pk (td_columns t) r) (record_layout D r) res (leaf_map D t leaf)"
    using update_record_steps [OF D ok fits]
  proof (elim exE conjE, goal_cases)
    case (1 leaf' res)
    show ?case
    proof (cases res)
      case (Inl e)
      then show ?thesis using 1 D found none by (auto simp: answers_def after_def)
    next
      case (Inr i)
      then have f: "key_found D (leaf_keys D t (page_view leaf)) (key_values pk (td_columns t) r) (unat i)"
        using 1 by simp
      show ?thesis using 1 Inr D found f find_record_replace [OF D f ok key]
        by (auto simp: answers_def after_def)
    qed
  qed
qed

section \<open>Reading a record\<close>

text \<open>A key is looked up with the binary search and the record at its index is read.\<close>

definition read_record :: "'d decimal_ops \<Rightarrow> table_definition \<Rightarrow> bytes \<Rightarrow> 'd key \<Rightarrow> bytes option option" where
  "read_record D t page k = do {
     res \<leftarrow> find_key D page k t;
     (case res of Ok i \<Rightarrow> get_record page (of_nat i) | Err _ \<Rightarrow> Some None)
   }"

lemma read_record_eq:
  assumes ok: "leaf_ok D t page" and D: "decimal_laws D"
  shows "read_record D t page k = Some (find_record D t (records page) k)"
proof -
  have inv: "page_inv page" using ok by (simp add: leaf_ok_def)
  obtain res where res: "find_key D page k t = Some res"
    "case res of Ok i \<Rightarrow> key_found D (leaf_keys D t page) k i
     | Err i \<Rightarrow> insertion_point D (leaf_keys D t page) k i"
    using find_key_ok [OF ok D] by blast
  show ?thesis
  proof (cases res)
    case (Inl i)
    then show ?thesis using res point_not_found [OF ok D, of k i] found_record(2) [OF ok D, of k]
      by (simp add: read_record_def)
  next
    case (Inr i)
    then have f: "key_found D (leaf_keys D t page) k i" using res by simp
    then have i: "i < items page" by (simp add: key_found_def)
    then have "unat (of_nat i :: u16) = i" using page_invD(5) [OF inv] by (intro unat_of_nat_u16) simp
    then show ?thesis using res(1) Inr i found_record(1) [OF ok D f] get_record_eq [OF inv, of "of_nat i"]
      by (simp add: read_record_def)
  qed
qed

section \<open>Splitting\<close>

text \<open>
  The keys that a split puts left are below the separator and the ones it puts right are not, so
  that the separator decides where a key is.
\<close>

lemma map_by_separator:
  assumes D: "decimal_laws D"
    and left: "\<forall>b \<in> set xs. key_less D (record_key D t b) sep"
    and right: "\<forall>b \<in> set ys. \<not> key_less D (record_key D t b) sep"
  shows "find_record D t (if key_less D k sep then xs else ys) k = find_record D t (xs @ ys) k"
    and "find_record D t (if key_less D k sep then ys else xs) k = None"
proof -
  have "key_less D a sep \<longleftrightarrow> key_less D k sep" if "key_eq D k a" for a
    using total_cmp.cmp_equal_left [OF key_order [OF D], of k a sep] total_cmp.eq_iff_cmp [OF key_order [OF D]] that
    by (simp add: key_less_def)
  then show none: "find_record D t (if key_less D k sep then ys else xs) k = None"
    using left right unfolding find_record_None by (auto split: if_splits)
  then show "find_record D t (if key_less D k sep then xs else ys) k = find_record D t (xs @ ys) k"
    by (auto simp: find_record_append split: option.splits if_splits)
qed

text \<open>The leaf with the one large record of key 1.\<close>

lemma int_key_eq: "key_eq D [V_Int a] [V_Int b] \<longleftrightarrow> a = b"
  by (simp add: key_eq_def slice_eq_def)

lemma one_leaf_map: "leaf_map example_decimal example_table one_leaf [V_Int k] = (if k = 1 then Some (big_data 1) else None)"
  using one_leaf_page(2,4) by (simp add: find_record_def leaf_keys_def int_key_eq)

section \<open>Properties\<close>

text \<open>
  C4: A leaf implements a map from keys to records: whatever sequence of records is inserted and updated,
  every operation answers as it does on the abstract map (a duplicate exactly when the map has the
  key, an unknown key exactly when it has not, otherwise the position or a full page), and in the end
  the binary search finds under every key the record that the abstract map has for it.
\<close>

theorem leaf_implements_map:
  assumes "decimal_laws D" and "leaf_ok D t (page_view leaf)" and "\<forall>op \<in> set ops. record_fits D t pk (op_record op)"
  shows "\<exists>ress leaf' m.
    run_ops (\<lambda>l r. insert_record D l r t) (\<lambda>l r. update_record D l r t) ops leaf = Some (ress, leaf') \<and>
    leaf_ok D t (page_view leaf') \<and>
    map_run (key_eq D) (key_values pk (td_columns t)) (record_layout D) ops ress (leaf_map D t leaf) = Some m \<and>
    (\<forall>k. read_record D t (page_view leaf') k = Some (m k))"
  using leaf.run_refines [of D t leaf ops pk] read_record_eq assms by fastforce

theorem leaf_implements_map_witness:
  "\<exists>leaf'. run_ops (\<lambda>l r. insert_record example_decimal l r example_table) (\<lambda>l r. update_record example_decimal l r example_table)
      [Insert (big_record 1), Update (big_record 0)] one_leaf = Some ([Err DuplicateKey, Err KeyNotFound], leaf') \<and>
    read_record example_decimal example_table (page_view leaf') [V_Int 1] = Some (Some (big_data 1))"
proof -
  have "\<forall>op \<in> set [Insert (big_record 1), Update (big_record 0)].
      record_fits example_decimal example_table [''id''] (op_record op)"
    by (simp add: big_fits)
  from leaf_implements_map [OF example_decimal_laws one_leaf_page(3) this]
  show ?thesis
    by (auto simp: map_run_Cons map_run_Nil big_key one_leaf_map after_def answers_def)
qed

text \<open>
  C8: Splitting a leaf keeps its map: where both halves fit a page, every key is found, by the binary
  search in the leaf that a comparison with the separator selects, with the record it had, or with
  the new one if it is the new key; and in the other leaf it is not found.
\<close>

theorem split_keeps_map:
  assumes "decimal_laws D" and "leaf_ok D t (page_view leaf)" and "record_fits D t pk r"
    and "page_inv (page_view right)" and "leaf_records right = []"
    and "pred_option (\<lambda>n. page_inv (page_view n)) orig" and "td_columns t \<noteq> []"
    and "insertion_point D (leaf_keys D t (page_view leaf)) (key_values pk (td_columns t) r) p"
    and "S = with_new p (record_layout D r) (leaf_records leaf)"
    and "s = split_at_index p (record_layout D r) (leaf_records leaf)"
    and "room_of (take s S) \<le> 8160" and "room_of (drop s S) \<le> gap (page_view right)"
  shows "\<exists>leaf' right' sep. split_and_insert D leaf r right orig t = Some (Ok sep, leaf', right',
      map_option (\<lambda>n. with_prev n (Some (pid_page_index (lnv_page_id right)))) orig) \<and>
    (\<forall>k. read_record D t (page_view (if key_cmp D k sep = Less then leaf' else right')) k =
        Some (put (key_eq D) (key_values pk (td_columns t) r) (record_layout D r) (leaf_map D t leaf) k) \<and>
      read_record D t (page_view (if key_cmp D k sep = Less then right' else leaf')) k = Some None)"
  using split_outcome [OF assms refl]
proof (elim exE conjE, goal_cases)
  case (1 leaf' right')
  let ?sep = "map (record_key D t) S ! s"
  have recs: "leaf_records leaf' = take s S" "leaf_records right' = drop s S"
    using 1(2) by (simp_all add: split_result_def)
  note sep = map_by_separator [OF assms(1) 1(6,7), unfolded append_take_drop_id]
  have S: "find_record D t S = put (key_eq D) (key_values pk (td_columns t) r) (record_layout D r) (leaf_map D t leaf)"
    using find_record_insert [OF assms(1,8,2) record_fits_keys(4) [OF assms(1,3)]] assms(9) by (simp add: with_new_def)
  show ?case
  proof (intro exI conjI allI)
    show "split_and_insert D leaf r right orig t = Some (Ok ?sep, leaf', right',
        map_option (\<lambda>n. with_prev n (Some (pid_page_index (lnv_page_id right)))) orig)" by (rule 1(1))
    fix k
    show "read_record D t (page_view (if key_cmp D k ?sep = Less then leaf' else right')) k =
        Some (put (key_eq D) (key_values pk (td_columns t) r) (record_layout D r) (leaf_map D t leaf) k)"
      using sep(1) [of k] 1(3,4) by (simp add: read_record_eq [OF _ assms(1)] recs S key_less_def split: if_splits)
    show "read_record D t (page_view (if key_cmp D k ?sep = Less then right' else leaf')) k = Some None"
      using sep(2) [of k] 1(3,4) by (simp add: read_record_eq [OF _ assms(1)] recs key_less_def split: if_splits)
  qed
qed

theorem split_keeps_map_witness:
  "\<exists>leaf' right' sep. split_and_insert example_decimal one_leaf (big_record 0) empty_leaf None example_table =
      Some (Ok sep, leaf', right', None) \<and>
    read_record example_decimal example_table
      (page_view (if key_cmp example_decimal [V_Int 1] sep = Less then leaf' else right')) [V_Int 1] = Some (Some (big_data 1))"
proof -
  note w = split_keeps_map [OF example_decimal_laws one_leaf_page(3) big_fits empty_leaf_page(1,2),
      of None 0 0 "with_new 0 (big_data 0) [big_data 1]" 1]
  have "\<exists>leaf' right' sep. split_and_insert example_decimal one_leaf (big_record 0) empty_leaf None example_table =
      Some (Ok sep, leaf', right', None) \<and>
    (\<forall>k. read_record example_decimal example_table
        (page_view (if key_cmp example_decimal k sep = Less then leaf' else right')) k =
      Some (put (key_eq example_decimal) [V_Int 0] (big_data 0) (leaf_map example_decimal example_table one_leaf) k) \<and>
      read_record example_decimal example_table
        (page_view (if key_cmp example_decimal k sep = Less then right' else leaf')) k = Some None)"
    using w by (simp add: one_leaf_page(2,4) big_key one_leaf_points one_leaf_split with_new_def
        empty_leaf_page(3) example_columns)
  moreover have "put (key_eq example_decimal) [V_Int 0] (big_data 0) (leaf_map example_decimal example_table one_leaf) [V_Int 1] =
      Some (big_data 1)" by (simp add: put_def int_key_eq one_leaf_map)
  ultimately show ?thesis by metis
qed

end
