(* ===== verification/Evictor.thy ===== *)
theory Evictor
  imports Prelude
begin

text \<open>
  \<open>crates/storage/src/evictor.rs\<close>: the \<open>Evictor\<close> trait, stated as a locale over the set of frames
  that may be evicted, and the clock algorithm that implements it. The state is behind a mutex, so
  every operation is one atomic step; a vector index out of bounds is the panic \<open>None\<close>.
\<close>

section \<open>Definitions\<close>

record clock_evictor_state =
  clock_hand_pos :: usize
  second_chances :: "bool list"
  is_in_evictor :: "bool list"
  evictor_size :: usize

definition clock_evictor_new :: "usize \<Rightarrow> clock_evictor_state" where
  "clock_evictor_new pool_size =
     \<lparr>clock_hand_pos = 0, second_chances = replicate pool_size False,
      is_in_evictor = replicate pool_size False, evictor_size = 0\<rparr>"

definition evictor_add :: "clock_evictor_state \<Rightarrow> usize \<Rightarrow> clock_evictor_state option" where
  "evictor_add state frame_id = do {
     present \<leftarrow> index (is_in_evictor state) frame_id;
     let state = (if \<not> present
       then state\<lparr>is_in_evictor := (is_in_evictor state)[frame_id := True],
                  evictor_size := evictor_size state + 1\<rparr>
       else state);
     chances \<leftarrow> set_index (second_chances state) frame_id True;
     Some (state\<lparr>second_chances := chances\<rparr>)
   }"

definition evictor_remove :: "clock_evictor_state \<Rightarrow> usize \<Rightarrow> clock_evictor_state option" where
  "evictor_remove state frame_id = do {
     present \<leftarrow> index (is_in_evictor state) frame_id;
     (if present then do {
        new_size \<leftarrow> checked_sub (evictor_size state) 1;
        Some (state\<lparr>is_in_evictor := (is_in_evictor state)[frame_id := False],
                    evictor_size := new_size\<rparr>)
      }
      else Some state)
   }"

text \<open>
  The loop \<open>for _ in 0..(len * 2)\<close>: the first argument counts the iterations left, the result is the
  victim, if any, and the state the operation leaves.
\<close>

primrec victim_loop ::
  "nat \<Rightarrow> usize \<Rightarrow> usize \<Rightarrow> clock_evictor_state \<Rightarrow> (usize option \<times> clock_evictor_state) option" where
  "victim_loop 0 len i state = Some (None, state\<lparr>clock_hand_pos := i\<rparr>)"
| "victim_loop (Suc n) len i state = do {
     present \<leftarrow> index (is_in_evictor state) i;
     (if present then do {
        chance \<leftarrow> index (second_chances state) i;
        (if \<not> chance then do {
           new_size \<leftarrow> checked_sub (evictor_size state) 1;
           Some (Some i,
             state\<lparr>is_in_evictor := (is_in_evictor state)[i := False], evictor_size := new_size,
                   clock_hand_pos := (i + 1) mod len\<rparr>)
         }
         else victim_loop n len ((i + 1) mod len)
                (state\<lparr>second_chances := (second_chances state)[i := False]\<rparr>))
      }
      else victim_loop n len ((i + 1) mod len) state)
   }"

definition evictor_victim :: "clock_evictor_state \<Rightarrow> (usize option \<times> clock_evictor_state) option" where
  "evictor_victim state =
     (let len = length (is_in_evictor state)
      in victim_loop (len * 2) len (clock_hand_pos state) state)"

section \<open>The contract of the trait\<close>

text \<open>
  What the buffer pool relies on: adding and removing change membership of one frame, the size is
  the number of members, and a victim is a member, which is then no longer one; there is a victim
  whenever there is a member.
\<close>

locale evictor =
  fixes ok :: "'s \<Rightarrow> bool"
    and capacity :: "'s \<Rightarrow> nat"
    and members :: "'s \<Rightarrow> nat set"
    and add :: "'s \<Rightarrow> usize \<Rightarrow> 's option"
    and remove :: "'s \<Rightarrow> usize \<Rightarrow> 's option"
    and size_of :: "'s \<Rightarrow> usize"
    and victim :: "'s \<Rightarrow> (usize option \<times> 's) option"
  assumes members_bounded: "ok s \<Longrightarrow> members s \<subseteq> {..<capacity s}"
    and add_member: "ok s \<Longrightarrow> f < capacity s \<Longrightarrow>
      \<exists>s'. add s f = Some s' \<and> ok s' \<and> capacity s' = capacity s \<and> members s' = insert f (members s)"
    and remove_member: "ok s \<Longrightarrow> f < capacity s \<Longrightarrow>
      \<exists>s'. remove s f = Some s' \<and> ok s' \<and> capacity s' = capacity s \<and> members s' = members s - {f}"
    and size_members: "ok s \<Longrightarrow> size_of s = card (members s)"
    and victim_member: "ok s \<Longrightarrow>
      \<exists>r s'. victim s = Some (r, s') \<and> ok s' \<and> capacity s' = capacity s \<and>
        (case r of
           None \<Rightarrow> members s = {} \<and> members s' = {}
         | Some f \<Rightarrow> f \<in> members s \<and> members s' = members s - {f})"
begin

lemma finite_members: "ok s \<Longrightarrow> finite (members s)"
  using members_bounded finite_subset by blast

text \<open>A frame that is not a member is never the victim, and every victim frees one place.\<close>

lemma victim_not_other:
  assumes "ok s" and "f \<notin> members s" and "victim s = Some (r, s')"
  shows "r \<noteq> Some f"
  using victim_member [OF assms(1)] assms(2,3) by (auto split: option.splits)

lemma victim_exists:
  assumes "ok s" and "members s \<noteq> {}"
  shows "\<exists>f s'. victim s = Some (Some f, s') \<and> f \<in> members s \<and>
    size_of s' + 1 = size_of s"
proof -
  obtain r s' where v: "victim s = Some (r, s')" "ok s'"
    "case r of None \<Rightarrow> members s = {} \<and> members s' = {}
     | Some f \<Rightarrow> f \<in> members s \<and> members s' = members s - {f}"
    using victim_member [OF assms(1)] by blast
  then obtain f where f: "r = Some f" "f \<in> members s" "members s' = members s - {f}"
    using assms(2) by (cases r) auto
  have "card (members s') + 1 = card (members s)"
    using f(2,3) card_Suc_Diff1 [OF finite_members [OF assms(1)] f(2)] by simp
  then show ?thesis using v f size_members assms(1) by auto
qed

end

section \<open>The clock algorithm meets the contract\<close>

definition evictable :: "clock_evictor_state \<Rightarrow> nat set" where
  "evictable s = {f. f < length (is_in_evictor s) \<and> is_in_evictor s ! f}"

definition clock_ok :: "clock_evictor_state \<Rightarrow> bool" where
  "clock_ok s \<longleftrightarrow> length (second_chances s) = length (is_in_evictor s) \<and>
     evictor_size s = card (evictable s) \<and>
     (is_in_evictor s = [] \<or> clock_hand_pos s < length (is_in_evictor s))"

abbreviation clock_capacity :: "clock_evictor_state \<Rightarrow> nat" where
  "clock_capacity s \<equiv> length (is_in_evictor s)"

lemma finite_evictable [simp]: "finite (evictable s)"
  by (simp add: evictable_def)

lemma evictable_add:
  "f < clock_capacity s \<Longrightarrow>
   evictable (s\<lparr>is_in_evictor := (is_in_evictor s)[f := True], evictor_size := n\<rparr>) = insert f (evictable s)"
  by (auto simp: evictable_def nth_list_update)

lemma nth_removed: "x < length l \<Longrightarrow> l[f := False] ! x \<longleftrightarrow> x \<noteq> f \<and> l ! x"
  by (cases "x = f") simp_all

lemma evictable_del:
  "evictable (s\<lparr>is_in_evictor := (is_in_evictor s)[f := False], evictor_size := n\<rparr>) = evictable s - {f}"
  by (auto simp: evictable_def nth_removed)

lemma evictable_other [simp]:
  "evictable (s\<lparr>second_chances := c\<rparr>) = evictable s"
  "evictable (s\<lparr>clock_hand_pos := h\<rparr>) = evictable s"
  by (simp_all add: evictable_def)

lemma clock_new_ok: "clock_ok (clock_evictor_new n)" "evictable (clock_evictor_new n) = {}"
  by (auto simp: clock_ok_def clock_evictor_new_def evictable_def)

lemma evictor_add_ok:
  assumes "clock_ok s" and "f < clock_capacity s"
  shows "\<exists>s'. evictor_add s f = Some s' \<and> clock_ok s' \<and> clock_capacity s' = clock_capacity s \<and>
    evictable s' = insert f (evictable s)"
proof (cases "is_in_evictor s ! f")
  case True
  then have "insert f (evictable s) = evictable s" using assms(2) by (auto simp: evictable_def)
  then show ?thesis
    using True assms by (simp add: evictor_add_def set_index_def clock_ok_def)
next
  case False
  then have "f \<notin> evictable s" by (simp add: evictable_def)
  then show ?thesis
    using False assms evictable_add [OF assms(2)]
    by (simp add: evictor_add_def set_index_def clock_ok_def)
qed

lemma evictor_remove_ok:
  assumes "clock_ok s" and "f < clock_capacity s"
  shows "\<exists>s'. evictor_remove s f = Some s' \<and> clock_ok s' \<and> clock_capacity s' = clock_capacity s \<and>
    evictable s' = evictable s - {f}"
proof (cases "is_in_evictor s ! f")
  case True
  then have f: "f \<in> evictable s" using assms(2) by (simp add: evictable_def)
  then have "1 \<le> card (evictable s)" by (metis One_nat_def Suc_leI card_gt_0_iff empty_iff finite_evictable)
  then show ?thesis
    using True f assms evictable_del [where s = s and f = f]
    by (simp add: evictor_remove_def clock_ok_def card_Diff_singleton)
next
  case False
  then have "evictable s - {f} = evictable s" by (auto simp: evictable_def)
  then show ?thesis using False assms by (simp add: evictor_remove_def)
qed

text \<open>
  The loop keeps the invariant and, if it ends without a victim, the members.
\<close>

lemma victim_loop_ok:
  assumes "clock_ok s" and "i < clock_capacity s" and "len = clock_capacity s"
  shows "\<exists>r s'. victim_loop n len i s = Some (r, s') \<and> clock_ok s' \<and> clock_capacity s' = len \<and>
    (case r of None \<Rightarrow> evictable s' = evictable s
     | Some f \<Rightarrow> f \<in> evictable s \<and> evictable s' = evictable s - {f})"
  using assms
proof (induction n arbitrary: i s)
  case 0
  then show ?case by (auto simp: clock_ok_def)
next
  case (Suc n)
  have next_lt: "(i + 1) mod len < len" by (rule mod_less_divisor) (use Suc.prems in linarith)
  show ?case
  proof (cases "is_in_evictor s ! i")
    case False
    then show ?thesis using Suc.IH [OF Suc.prems(1), of "(i + 1) mod len"] Suc.prems next_lt by simp
  next
    case present: True
    then have f: "i \<in> evictable s" using Suc.prems(2) by (simp add: evictable_def)
    show ?thesis
    proof (cases "second_chances s ! i")
      case True
      let ?s = "s\<lparr>second_chances := (second_chances s)[i := False]\<rparr>"
      have "clock_ok ?s" "length (second_chances s) = clock_capacity s"
        using Suc.prems(1) by (simp_all add: clock_ok_def)
      then show ?thesis
        using Suc.IH [of ?s "(i + 1) mod len", unfolded evictable_other] Suc.prems present True next_lt
        by simp
    next
      case False
      have "1 \<le> card (evictable s)"
        using f by (metis One_nat_def Suc_leI card_gt_0_iff empty_iff finite_evictable)
      then show ?thesis
        using False present Suc.prems f evictable_del [where s = s and f = i] next_lt
        by (auto simp: clock_ok_def card_Diff_singleton)
    qed
  qed
qed

lemma cyclic_other: "0 < d \<Longrightarrow> d < len \<Longrightarrow> i < len \<Longrightarrow> (i + d) mod len \<noteq> (i :: nat)"
  by (cases "i + d < len") (simp_all add: mod_if, linarith)

lemma cyclic_step: "((i + 1) mod len + e) mod len = (i + Suc e) mod (len :: nat)"
  using mod_add_left_eq [of "i + 1" len e] by simp

text \<open>
  A member at cyclic distance \<open>d\<close> from the hand is reached, so there is a victim, within \<open>d + 1\<close>
  iterations when it has no second chance and within one more round when it has.
\<close>

lemma victim_loop_finds:
  assumes "length (second_chances s) = len" and "clock_capacity s = len" and "d < len"
    and "is_in_evictor s ! ((i + d) mod len)" and "1 \<le> evictor_size s" and "i < len"
    and "d + (if second_chances s ! ((i + d) mod len) then len else 0) < n"
  shows "\<exists>f s'. victim_loop n len i s = Some (Some f, s')"
  using assms
proof (induction n arbitrary: i d s)
  case 0
  then show ?case by simp
next
  case (Suc n)
  let ?j = "(i + 1) mod len"
  have j: "?j < len" by (rule mod_less_divisor) (use Suc.prems(6) in linarith)
  have shift: "(?j + (d - 1)) mod len = (i + d) mod len" if "0 < d"
    using cyclic_step [of i len "d - 1"] that by simp
  have round: "(?j + (len - 1)) mod len = i"
    using cyclic_step [of i len "len - 1"] Suc.prems(6) by simp
  show ?case
  proof (cases "is_in_evictor s ! i")
    case False
    then have d: "0 < d" using Suc.prems(4,6) by (cases d) simp_all
    have "\<exists>f s'. victim_loop n len ?j s = Some (Some f, s')"
      using Suc.prems d shift [OF d] j by (intro Suc.IH [of s "d - 1" ?j]) auto
    then show ?thesis using False Suc.prems(2,6) by simp
  next
    case present: True
    show ?thesis
    proof (cases "second_chances s ! i")
      case False
      then show ?thesis using present Suc.prems by simp
    next
      case chance: True
      let ?s = "s\<lparr>second_chances := (second_chances s)[i := False]\<rparr>"
      have "\<exists>f s'. victim_loop n len ?j ?s = Some (Some f, s')"
      proof (cases "d = 0")
        case True
        then show ?thesis
          using Suc.prems chance present round j
          by (intro Suc.IH [of ?s "len - 1" ?j]) (auto simp: nth_list_update)
      next
        case False
        then have "(i + d) mod len \<noteq> i" using Suc.prems(3,6) by (intro cyclic_other) simp_all
        then show ?thesis
          using False Suc.prems shift j
          by (intro Suc.IH [of ?s "d - 1" ?j]) (auto simp: nth_list_update)
      qed
      then show ?thesis using present chance Suc.prems by simp
    qed
  qed
qed

text \<open>The first member without a second chance is the victim, and those passed lose theirs.\<close>

lemma victim_loop_first:
  assumes "length (second_chances s) = len" and "clock_capacity s = len" and "i < len" and "d < len"
    and "d < n" and "f = (i + d) mod len" and "is_in_evictor s ! f" and "\<not> second_chances s ! f"
    and "1 \<le> evictor_size s"
    and "\<forall>e < d. is_in_evictor s ! ((i + e) mod len) \<longrightarrow> second_chances s ! ((i + e) mod len)"
  shows "\<exists>s'. victim_loop n len i s = Some (Some f, s') \<and> clock_hand_pos s' = (f + 1) mod len \<and>
    (\<forall>g < len. second_chances s' ! g \<longleftrightarrow> second_chances s ! g \<and>
      \<not> (is_in_evictor s ! g \<and> (\<exists>e < d. g = (i + e) mod len)))"
  using assms
proof (induction d arbitrary: n i s)
  case 0
  then obtain m where "n = Suc m" by (cases n) simp_all
  then show ?case using 0 by simp
next
  case (Suc d)
  then obtain m where m: "n = Suc m" "d < m" by (cases n) simp_all
  let ?j = "(i + 1) mod len"
  let ?s = "if is_in_evictor s ! i then s\<lparr>second_chances := (second_chances s)[i := False]\<rparr> else s"
  have j: "?j < len" by (rule mod_less_divisor) (use Suc.prems(3) in linarith)
  have i0: "(i + 0) mod len = i" using Suc.prems(3) by simp
  have chance: "is_in_evictor s ! i \<longrightarrow> second_chances s ! i"
    using Suc.prems(10) i0 by (metis zero_less_Suc)
  have step: "victim_loop n len i s = victim_loop m len ?j ?s"
    using m(1) chance Suc.prems(1-3) by simp
  have sc: "second_chances ?s ! g \<longleftrightarrow> second_chances s ! g \<and> \<not> (is_in_evictor s ! g \<and> g = i)"
    if "g < len" for g
    using that Suc.prems(1) by (simp add: nth_removed) blast
  have same: "is_in_evictor ?s = is_in_evictor s" "evictor_size ?s = evictor_size s"
    "length (second_chances ?s) = length (second_chances s)" by simp_all
  have f: "f < len" using Suc.prems(3,6) by (metis mod_less_divisor not_less_zero neq0_conv)
  have passed: "\<forall>e < d. is_in_evictor s ! ((?j + e) mod len) \<longrightarrow> second_chances ?s ! ((?j + e) mod len)"
  proof (intro allI impI)
    fix e
    assume e: "e < d" "is_in_evictor s ! ((?j + e) mod len)"
    have eq: "(?j + e) mod len = (i + Suc e) mod len" by (rule cyclic_step)
    have "(i + Suc e) mod len \<noteq> i" using e(1) Suc.prems(3,4) by (intro cyclic_other) simp_all
    moreover have "second_chances s ! ((i + Suc e) mod len)" using Suc.prems(10) [rule_format, of "Suc e"] e eq by simp
    moreover have "(i + Suc e) mod len < len"
      by (rule mod_less_divisor) (use Suc.prems(3) in linarith)
    ultimately show "second_chances ?s ! ((?j + e) mod len)" unfolding eq using sc by blast
  qed
  have "\<exists>s'. victim_loop m len ?j ?s = Some (Some f, s') \<and> clock_hand_pos s' = (f + 1) mod len \<and>
    (\<forall>g < len. second_chances s' ! g \<longleftrightarrow> second_chances ?s ! g \<and>
      \<not> (is_in_evictor ?s ! g \<and> (\<exists>e < d. g = (?j + e) mod len)))"
  proof (rule Suc.IH)
    show "f = (?j + d) mod len" using Suc.prems(6) cyclic_step [of i len d] by simp
    show "\<not> second_chances ?s ! f" using sc [OF f] Suc.prems(8) by blast
  qed (use Suc.prems m(2) j same passed in auto)
  then obtain s' where s': "victim_loop m len ?j ?s = Some (Some f, s')"
    "clock_hand_pos s' = (f + 1) mod len"
    "\<forall>g < len. second_chances s' ! g \<longleftrightarrow> second_chances ?s ! g \<and>
      \<not> (is_in_evictor s ! g \<and> (\<exists>e < d. g = (?j + e) mod len))"
    unfolding same(1) by blast
  have ex: "(\<exists>e < Suc d. g = (i + e) mod len) \<longleftrightarrow> g = i \<or> (\<exists>e < d. g = (?j + e) mod len)" for g
    unfolding cyclic_step using i0 by (auto simp: less_Suc_eq_0_disj)
  show ?case
    unfolding step using s' sc ex by (intro exI [of _ s']) auto
qed

lemma clock_victim_ok:
  assumes ok: "clock_ok s"
  shows "\<exists>r s'. evictor_victim s = Some (r, s') \<and> clock_ok s' \<and> clock_capacity s' = clock_capacity s \<and>
    (case r of None \<Rightarrow> evictable s = {} \<and> evictable s' = {}
     | Some f \<Rightarrow> f \<in> evictable s \<and> evictable s' = evictable s - {f})"
proof (cases "is_in_evictor s = []")
  case True
  then show ?thesis using ok by (simp add: evictor_victim_def evictable_def clock_ok_def)
next
  case False
  then have hand: "clock_hand_pos s < clock_capacity s" using ok by (simp add: clock_ok_def)
  obtain r s' where r: "evictor_victim s = Some (r, s')" "clock_ok s'" "clock_capacity s' = clock_capacity s"
    "case r of None \<Rightarrow> evictable s' = evictable s
     | Some f \<Rightarrow> f \<in> evictable s \<and> evictable s' = evictable s - {f}"
    using victim_loop_ok [OF ok hand refl, of "clock_capacity s * 2"]
    by (auto simp: evictor_victim_def Let_def)
  show ?thesis
  proof (cases "evictable s = {}")
    case True
    then show ?thesis using r by (cases r) auto
  next
    case False
    then obtain f where f: "f < clock_capacity s" "is_in_evictor s ! f" "f \<in> evictable s"
      by (auto simp: evictable_def)
    let ?len = "clock_capacity s" and ?i = "clock_hand_pos s"
    define d where "d = (f + ?len - ?i) mod ?len"
    have d: "d < ?len" unfolding d_def by (rule mod_less_divisor) (use f(1) in linarith)
    have "(?i + d) mod ?len = (?i + (f + ?len - ?i)) mod ?len"
      unfolding d_def by (rule mod_add_right_eq)
    also have "?i + (f + ?len - ?i) = f + ?len" using hand by linarith
    finally have fd: "(?i + d) mod ?len = f" using f(1) by simp
    have "1 \<le> evictor_size s"
      using ok f(3) by (metis One_nat_def Suc_leI card_gt_0_iff clock_ok_def empty_iff finite_evictable)
    moreover have "d + (if second_chances s ! ((?i + d) mod ?len) then ?len else 0) < ?len * 2"
      using d by simp
    ultimately obtain g s'' where "evictor_victim s = Some (Some g, s'')"
      using victim_loop_finds [of s ?len d ?i "?len * 2"] ok d fd f(2) hand
      by (auto simp: clock_ok_def evictor_victim_def Let_def)
    then show ?thesis using r by auto
  qed
qed

interpretation clock: evictor clock_ok clock_capacity evictable evictor_add evictor_remove
  evictor_size evictor_victim
proof
  show "evictable s \<subseteq> {..<clock_capacity s}" for s by (auto simp: evictable_def)
  show "evictor_size s = card (evictable s)" if "clock_ok s" for s using that by (simp add: clock_ok_def)
qed (use evictor_add_ok evictor_remove_ok clock_victim_ok in blast)+

section \<open>Properties\<close>

text \<open>
  C29: from a well-formed state the clock evicts exactly when a frame is eligible: the victim was
  eligible, it and only it stops being so, and the reported size is the number of eligible frames
  before and after; two sweeps are always enough.
\<close>

theorem clock_victim_correct:
  assumes "clock_ok s"
  shows "\<exists>r s'. evictor_victim s = Some (r, s') \<and> clock_ok s' \<and>
    evictor_size s = card (evictable s) \<and> evictor_size s' = card (evictable s') \<and>
    (case r of None \<Rightarrow> evictable s = {} \<and> evictable s' = {}
     | Some f \<Rightarrow> f \<in> evictable s \<and> evictable s' = evictable s - {f})"
proof -
  obtain r s' where r: "evictor_victim s = Some (r, s')" "clock_ok s'"
    "case r of None \<Rightarrow> evictable s = {} \<and> evictable s' = {}
     | Some f \<Rightarrow> f \<in> evictable s \<and> evictable s' = evictable s - {f}"
    using clock.victim_member [OF assms] by blast
  then show ?thesis using clock.size_members assms by blast
qed

definition example_clock :: clock_evictor_state where
  "example_clock = \<lparr>clock_hand_pos = 1, second_chances = [False, True, True],
     is_in_evictor = [True, False, True], evictor_size = 2\<rparr>"

lemma example_clock_fields:
  "clock_hand_pos example_clock = 1" "second_chances example_clock = [False, True, True]"
  "clock_capacity example_clock = 3" "evictor_size example_clock = 2"
  "evictable example_clock = {0, 2}"
  by (auto simp: evictable_def example_clock_def less_Suc_eq numeral_3_eq_3 numeral_2_eq_2)

lemma example_clock_ok: "clock_ok example_clock"
  by (simp add: clock_ok_def example_clock_fields)

lemma example_clock_run:
  "evictor_victim example_clock = Some (Some 0,
     \<lparr>clock_hand_pos = 1, second_chances = [False, True, False],
      is_in_evictor = [False, False, True], evictor_size = 1\<rparr>)"
  by code_simp

theorem clock_victim_correct_witness:
  "\<exists>s'. evictor_victim example_clock = Some (Some 0, s') \<and> clock_ok s' \<and> 0 \<in> evictable example_clock"
  using clock_victim_correct [OF example_clock_ok] by (simp add: example_clock_run)

text \<open>
  C30: the policy of the clock: when some eligible frame has no second chance, the first such frame
  from the hand on is evicted, the eligible frames passed before it lose their second chance, and the
  hand moves past it.
\<close>

theorem clock_victim_first:
  assumes "clock_ok s" and "d < clock_capacity s"
    and "len = clock_capacity s" and "f = (clock_hand_pos s + d) mod len"
    and "f \<in> evictable s" and "\<not> second_chances s ! f"
    and "\<forall>e < d. (clock_hand_pos s + e) mod len \<in> evictable s \<longrightarrow>
      second_chances s ! ((clock_hand_pos s + e) mod len)"
  shows "\<exists>s'. evictor_victim s = Some (Some f, s') \<and> clock_hand_pos s' = (f + 1) mod len \<and>
    (\<forall>g < len. second_chances s' ! g \<longleftrightarrow> second_chances s ! g \<and>
      \<not> (g \<in> evictable s \<and> (\<exists>e < d. g = (clock_hand_pos s + e) mod len)))"
proof -
  have len: "length (second_chances s) = len" "clock_capacity s = len"
    using assms(1,3) by (simp_all add: clock_ok_def)
  have hand: "clock_hand_pos s < len" using assms(1-3) by (auto simp: clock_ok_def)
  have in_ev: "g \<in> evictable s \<longleftrightarrow> is_in_evictor s ! g" if "g < len" for g
    using that len by (simp add: evictable_def)
  have lt: "(clock_hand_pos s + e) mod len < len" for e
    by (rule mod_less_divisor) (use hand in linarith)
  have size: "1 \<le> evictor_size s"
    using assms(1,5) by (metis One_nat_def Suc_leI card_gt_0_iff clock_ok_def empty_iff finite_evictable)
  have "\<exists>s'. victim_loop (len * 2) len (clock_hand_pos s) s = Some (Some f, s') \<and>
    clock_hand_pos s' = (f + 1) mod len \<and>
    (\<forall>g < len. second_chances s' ! g \<longleftrightarrow> second_chances s ! g \<and>
      \<not> (is_in_evictor s ! g \<and> (\<exists>e < d. g = (clock_hand_pos s + e) mod len)))"
  proof (rule victim_loop_first [OF len hand _ _ assms(4) _ assms(6) size])
    show "d < len" "d < len * 2" using assms(2) len(2) by simp_all
    show "is_in_evictor s ! f" using assms(5) in_ev [of f] lt [of d] assms(4) by simp
    show "\<forall>e < d. is_in_evictor s ! ((clock_hand_pos s + e) mod len) \<longrightarrow>
        second_chances s ! ((clock_hand_pos s + e) mod len)"
      using assms(7) in_ev [OF lt] by blast
  qed
  then have "\<exists>s'. evictor_victim s = Some (Some f, s') \<and> clock_hand_pos s' = (f + 1) mod len \<and>
    (\<forall>g < len. second_chances s' ! g \<longleftrightarrow> second_chances s ! g \<and>
      \<not> (is_in_evictor s ! g \<and> (\<exists>e < d. g = (clock_hand_pos s + e) mod len)))"
    by (simp only: evictor_victim_def len(2) Let_def)
  then show ?thesis using in_ev by blast
qed

theorem clock_victim_first_witness:
  "\<exists>s'. evictor_victim example_clock = Some (Some 0, s') \<and> clock_hand_pos s' = 1"
proof -
  have capacity: "2 < clock_capacity example_clock" "3 = clock_capacity example_clock"
    by (simp_all add: example_clock_fields)
  have frame: "0 = (clock_hand_pos example_clock + 2) mod 3" "0 \<in> evictable example_clock"
    "\<not> second_chances example_clock ! 0"
    by (simp_all add: example_clock_fields)
  have before: "\<forall>e < 2. (clock_hand_pos example_clock + e) mod 3 \<in> evictable example_clock \<longrightarrow>
      second_chances example_clock ! ((clock_hand_pos example_clock + e) mod 3)"
    by (auto simp: example_clock_fields less_2_cases_iff)
  obtain s' where "evictor_victim example_clock = Some (Some 0, s')" "clock_hand_pos s' = (0 + 1) mod 3"
    using clock_victim_first [OF example_clock_ok capacity frame before] by (elim exE conjE)
  then show ?thesis by simp
qed

end
