(* ===== verification/Frame.thy ===== *)
theory Frame
  imports Page_Id Evictor
begin

text \<open>
  \<open>crates/storage/src/frame.rs\<close> and \<open>page_guard.rs\<close>: a frame of the buffer pool and the guards that
  unpin it. The fields of a frame are atomics or behind a lock, so every operation is one atomic
  step on the record. The pin count is a 64-bit counter that wraps around on overflow; an unpin of
  a frame that is not pinned is the panic \<open>None\<close>.

  Dropping a guard is two atomic steps: the decrement of the pin count and, when the count was 1,
  the call of the evictor. \<open>guard_drop\<close> is their composition without interruption.
\<close>

section \<open>Frames\<close>

record frame =
  frame_data :: bytes
  frame_id :: usize
  frame_dirty :: bool
  frame_page_id :: "page_id option"
  frame_pin_count :: usize

definition frame_new :: "usize \<Rightarrow> frame" where
  "frame_new i =
     \<lparr>frame_data = replicate PAGE_SIZE 0, frame_id = i, frame_dirty = False,
      frame_page_id = None, frame_pin_count = 0\<rparr>"

definition frame_default :: frame where
  "frame_default = frame_new 0"

text \<open>\<open>fetch_sub\<close> returns the previous value, which must be positive.\<close>

definition decrement_pin_count :: "frame \<Rightarrow> (usize \<times> frame) option" where
  "decrement_pin_count f =
     (let prev_count = frame_pin_count f;
          f = f\<lparr>frame_pin_count := (prev_count + 2 ^ 64 - 1) mod 2 ^ 64\<rparr>
      in if prev_count > 0 then Some (prev_count, f) else panic)"

definition increment_pin_count :: "frame \<Rightarrow> usize \<times> frame" where
  "increment_pin_count f =
     (frame_pin_count f, f\<lparr>frame_pin_count := (frame_pin_count f + 1) mod 2 ^ 64\<rparr>)"

definition set_dirty :: "bool \<Rightarrow> frame \<Rightarrow> frame" where
  "set_dirty val f = f\<lparr>frame_dirty := val\<rparr>"

definition set_page_id :: "page_id option \<Rightarrow> frame \<Rightarrow> frame" where
  "set_page_id page_id f = f\<lparr>frame_page_id := page_id\<rparr>"

text \<open>The bytes behind the lock: what a read guard derefs to, and the store of a whole page.\<close>

definition read_data :: "frame \<Rightarrow> bytes" where
  "read_data f = frame_data f"

definition write_data :: "bytes \<Rightarrow> frame \<Rightarrow> frame" where
  "write_data bytes f = f\<lparr>frame_data := bytes\<rparr>"

section \<open>Guards\<close>

text \<open>
  A guard references its frame and the evictor; both live in the buffer pool, so the guard is the
  pair of references read from the shared state.
\<close>

record page_guard =
  guard_evictor :: clock_evictor_state
  guard_frame :: frame

definition page_read_guard_new :: "clock_evictor_state \<Rightarrow> frame \<Rightarrow> page_guard" where
  "page_read_guard_new ev f = \<lparr>guard_evictor = ev, guard_frame = f\<rparr>"

definition page_write_guard_new :: "clock_evictor_state \<Rightarrow> frame \<Rightarrow> page_guard" where
  "page_write_guard_new ev f = \<lparr>guard_evictor = ev, guard_frame = f\<rparr>"

definition page_read_guard_deref :: "page_guard \<Rightarrow> bytes" where
  "page_read_guard_deref g = read_data (guard_frame g)"

definition page_write_guard_deref :: "page_guard \<Rightarrow> bytes" where
  "page_write_guard_deref g = read_data (guard_frame g)"

text \<open>A store through \<open>deref_mut\<close>: \<open>guard[i] = v\<close> panics out of range.\<close>

definition page_write_guard_store :: "usize \<Rightarrow> u8 \<Rightarrow> page_guard \<Rightarrow> page_guard option" where
  "page_write_guard_store i v g = do {
     bytes \<leftarrow> set_index (read_data (guard_frame g)) i v;
     Some (g\<lparr>guard_frame := write_data bytes (guard_frame g)\<rparr>)
   }"

definition mark_dirty :: "page_guard \<Rightarrow> page_guard" where
  "mark_dirty g = g\<lparr>guard_frame := set_dirty True (guard_frame g)\<rparr>"

definition guard_page_id :: "page_guard \<Rightarrow> page_id option" where
  "guard_page_id g = frame_page_id (guard_frame g)"

definition page_read_guard_drop :: "page_guard \<Rightarrow> page_guard option" where
  "page_read_guard_drop g = do {
     (prev, f) \<leftarrow> decrement_pin_count (guard_frame g);
     (if prev = 1 then do {
        ev \<leftarrow> evictor_add (guard_evictor g) (frame_id f);
        Some \<lparr>guard_evictor = ev, guard_frame = f\<rparr>
      }
      else Some (g\<lparr>guard_frame := f\<rparr>))
   }"

definition page_write_guard_drop :: "page_guard \<Rightarrow> page_guard option" where
  "page_write_guard_drop g = do {
     (prev, f) \<leftarrow> decrement_pin_count (guard_frame g);
     (if prev = 1 then do {
        ev \<leftarrow> evictor_add (guard_evictor g) (frame_id f);
        Some \<lparr>guard_evictor = ev, guard_frame = f\<rparr>
      }
      else Some (g\<lparr>guard_frame := f\<rparr>))
   }"

section \<open>Lemmas\<close>

named_theorems frame_simps \<open>what the operations of a frame do to its fields\<close>

lemma decrement_pinned:
  "0 < frame_pin_count f \<Longrightarrow> frame_pin_count f < 2 ^ 64 \<Longrightarrow>
   decrement_pin_count f = Some (frame_pin_count f, f\<lparr>frame_pin_count := frame_pin_count f - 1\<rparr>)"
proof -
  assume pinned: "0 < frame_pin_count f" "frame_pin_count f < 2 ^ 64"
  then have "frame_pin_count f + 2 ^ 64 - 1 = frame_pin_count f - 1 + 2 ^ 64" by linarith
  then have "(frame_pin_count f + 2 ^ 64 - 1) mod 2 ^ 64 = (frame_pin_count f - 1) mod 2 ^ 64"
    by (simp only: mod_add_self2)
  then show ?thesis using pinned by (simp add: decrement_pin_count_def Let_def)
qed

lemma increment_below:
  "frame_pin_count f + 1 < 2 ^ 64 \<Longrightarrow>
   increment_pin_count f = (frame_pin_count f, f\<lparr>frame_pin_count := frame_pin_count f + 1\<rparr>)"
  by (simp add: increment_pin_count_def)

lemma set_fields [simp, frame_simps]:
  "frame_pin_count (set_dirty b f) = frame_pin_count f"
  "frame_pin_count (set_page_id p f) = frame_pin_count f"
  "frame_pin_count (write_data d f) = frame_pin_count f"
  "frame_page_id (set_dirty b f) = frame_page_id f"
  "frame_page_id (set_page_id p f) = p"
  "frame_page_id (write_data d f) = frame_page_id f"
  "frame_id (set_dirty b f) = frame_id f"
  "frame_id (set_page_id p f) = frame_id f"
  "frame_id (write_data d f) = frame_id f"
  "frame_data (set_dirty b f) = frame_data f"
  "frame_data (set_page_id p f) = frame_data f"
  "frame_data (write_data d f) = d"
  "frame_dirty (set_dirty b f) = b"
  "frame_dirty (set_page_id p f) = frame_dirty f"
  "frame_dirty (write_data d f) = frame_dirty f"
  by (simp_all add: set_dirty_def set_page_id_def write_data_def)

lemma frame_new_fields [simp, frame_simps]:
  "frame_pin_count (frame_new i) = 0" "frame_page_id (frame_new i) = None"
  "frame_id (frame_new i) = i" "frame_dirty (frame_new i) = False"
  "frame_data (frame_new i) = replicate PAGE_SIZE 0"
  by (simp_all add: frame_new_def)

end
