(* ===== verification/File_System.thy ===== *)
theory File_System
  imports Prelude
begin

text \<open>
  \<open>crates/storage/src/file_system.rs\<close>: the traits \<open>FileSystem\<close> and \<open>FileHandle\<close> and their
  implementation on \<open>tokio::fs\<close>. The operations of \<open>tokio::fs\<close> are a parameter (a record of
  functions on the state of the world) of which only documented behaviour is assumed
  (\<open>os_documented\<close>); the contract the disk manager relies on is the locale \<open>file_store\<close>, and the
  tokio implementation meets it for every such parameter. A path is the list of its components.
\<close>

type_synonym path = "string list"
type_synonym io_error = string

section \<open>The parameter: \<open>tokio::fs\<close>\<close>

record open_options =
  oo_read :: bool
  oo_write :: bool
  oo_create_new :: bool
  oo_create :: bool
  oo_truncate :: bool

text \<open>\<open>OpenOptions::new()\<close>: every flag is off.\<close>

definition open_options_new :: open_options where
  "open_options_new = \<lparr>oo_read = False, oo_write = False, oo_create_new = False,
     oo_create = False, oo_truncate = False\<rparr>"

record ('w, 'f) os_fs =
  os_create_dir_all :: "path \<Rightarrow> 'w \<Rightarrow> (io_error, unit) rust_result \<times> 'w"
  os_open :: "open_options \<Rightarrow> path \<Rightarrow> 'w \<Rightarrow> (io_error, 'f) rust_result \<times> 'w"
  os_remove_file :: "path \<Rightarrow> 'w \<Rightarrow> (io_error, unit) rust_result \<times> 'w"
  os_try_exists :: "path \<Rightarrow> 'w \<Rightarrow> (io_error, bool) rust_result \<times> 'w"
  os_metadata_len :: "'f \<Rightarrow> 'w \<Rightarrow> (io_error, u64) rust_result \<times> 'w"
  os_seek :: "'f \<Rightarrow> u64 \<Rightarrow> 'w \<Rightarrow> (io_error, u64) rust_result \<times> 'w"
  os_read :: "'f \<Rightarrow> bytes \<Rightarrow> 'w \<Rightarrow> (io_error, usize) rust_result \<times> bytes \<times> 'w"
  os_set_len :: "'f \<Rightarrow> u64 \<Rightarrow> 'w \<Rightarrow> (io_error, unit) rust_result \<times> 'w"
  os_write_all :: "'f \<Rightarrow> bytes \<Rightarrow> 'w \<Rightarrow> (io_error, unit) rust_result \<times> 'w"

section \<open>The traits\<close>

text \<open>
  The method table of the two traits; \<open>'h\<close> is the type of \<open>dyn FileHandle\<close>. \<open>read_at\<close> returns the
  buffer it leaves.
\<close>

record ('w, 'h) file_system =
  fs_create_dir_all :: "path \<Rightarrow> 'w \<Rightarrow> (io_error, unit) rust_result \<times> 'w"
  fs_create_file :: "path \<Rightarrow> 'w \<Rightarrow> (io_error, 'h) rust_result \<times> 'w"
  fs_delete_file :: "path \<Rightarrow> 'w \<Rightarrow> (io_error, unit) rust_result \<times> 'w"
  fs_file_exists :: "path \<Rightarrow> 'w \<Rightarrow> (io_error, bool) rust_result \<times> 'w"
  fs_open_file :: "path \<Rightarrow> 'w \<Rightarrow> (io_error, 'h) rust_result \<times> 'w"
  fh_len :: "'h \<Rightarrow> 'w \<Rightarrow> (io_error, u64) rust_result \<times> 'w"
  fh_read_at :: "'h \<Rightarrow> bytes \<Rightarrow> u64 \<Rightarrow> 'w \<Rightarrow> (io_error, usize) rust_result \<times> bytes \<times> 'w"
  fh_set_len :: "'h \<Rightarrow> u64 \<Rightarrow> 'w \<Rightarrow> (io_error, unit) rust_result \<times> 'w"
  fh_write_at :: "'h \<Rightarrow> bytes \<Rightarrow> u64 \<Rightarrow> 'w \<Rightarrow> (io_error, unit) rust_result \<times> 'w"

section \<open>The implementation on tokio\<close>

text \<open>A handle is the file it wraps; its lock makes each method one atomic operation.\<close>

datatype 'f tokio_file_handle = TokioFileHandle (tokio_file: 'f)

definition tokio_file_handle_new :: "'f \<Rightarrow> 'f tokio_file_handle" where
  "tokio_file_handle_new file = TokioFileHandle file"

definition tokio_create_dir_all ::
  "('w, 'f) os_fs \<Rightarrow> path \<Rightarrow> 'w \<Rightarrow> (io_error, unit) rust_result \<times> 'w" where
  "tokio_create_dir_all os path w = os_create_dir_all os path w"

definition tokio_create_file ::
  "('w, 'f) os_fs \<Rightarrow> path \<Rightarrow> 'w \<Rightarrow> (io_error, 'f tokio_file_handle) rust_result \<times> 'w" where
  "tokio_create_file os path w =
     (case os_open os (open_options_new\<lparr>oo_read := True, oo_write := True, oo_create_new := True\<rparr>) path w of
        (Err e, w) \<Rightarrow> (Err e, w)
      | (Ok file, w) \<Rightarrow> (Ok (tokio_file_handle_new file), w))"

definition tokio_delete_file ::
  "('w, 'f) os_fs \<Rightarrow> path \<Rightarrow> 'w \<Rightarrow> (io_error, unit) rust_result \<times> 'w" where
  "tokio_delete_file os path w = os_remove_file os path w"

definition tokio_file_exists ::
  "('w, 'f) os_fs \<Rightarrow> path \<Rightarrow> 'w \<Rightarrow> (io_error, bool) rust_result \<times> 'w" where
  "tokio_file_exists os path w = os_try_exists os path w"

definition tokio_open_file ::
  "('w, 'f) os_fs \<Rightarrow> path \<Rightarrow> 'w \<Rightarrow> (io_error, 'f tokio_file_handle) rust_result \<times> 'w" where
  "tokio_open_file os path w =
     (case os_open os (open_options_new\<lparr>oo_read := True, oo_write := True, oo_create := False,
                         oo_truncate := False\<rparr>) path w of
        (Err e, w) \<Rightarrow> (Err e, w)
      | (Ok file, w) \<Rightarrow> (Ok (tokio_file_handle_new file), w))"

definition tokio_len ::
  "('w, 'f) os_fs \<Rightarrow> 'f tokio_file_handle \<Rightarrow> 'w \<Rightarrow> (io_error, u64) rust_result \<times> 'w" where
  "tokio_len os h w = os_metadata_len os (tokio_file h) w"

definition tokio_read_at ::
  "('w, 'f) os_fs \<Rightarrow> 'f tokio_file_handle \<Rightarrow> bytes \<Rightarrow> u64 \<Rightarrow> 'w \<Rightarrow>
   (io_error, usize) rust_result \<times> bytes \<times> 'w" where
  "tokio_read_at os h buffer offset w =
     (case os_seek os (tokio_file h) offset w of
        (Err e, w) \<Rightarrow> (Err e, buffer, w)
      | (Ok _, w) \<Rightarrow> os_read os (tokio_file h) buffer w)"

definition tokio_set_len ::
  "('w, 'f) os_fs \<Rightarrow> 'f tokio_file_handle \<Rightarrow> u64 \<Rightarrow> 'w \<Rightarrow> (io_error, unit) rust_result \<times> 'w" where
  "tokio_set_len os h len w = os_set_len os (tokio_file h) len w"

definition tokio_write_at ::
  "('w, 'f) os_fs \<Rightarrow> 'f tokio_file_handle \<Rightarrow> bytes \<Rightarrow> u64 \<Rightarrow> 'w \<Rightarrow>
   (io_error, unit) rust_result \<times> 'w" where
  "tokio_write_at os h data offset w =
     (case os_seek os (tokio_file h) offset w of
        (Err e, w) \<Rightarrow> (Err e, w)
      | (Ok _, w) \<Rightarrow> os_write_all os (tokio_file h) data w)"

definition tokio_file_system :: "('w, 'f) os_fs \<Rightarrow> ('w, 'f tokio_file_handle) file_system" where
  "tokio_file_system os =
     \<lparr>fs_create_dir_all = tokio_create_dir_all os, fs_create_file = tokio_create_file os,
      fs_delete_file = tokio_delete_file os, fs_file_exists = tokio_file_exists os,
      fs_open_file = tokio_open_file os, fh_len = tokio_len os, fh_read_at = tokio_read_at os,
      fh_set_len = tokio_set_len os, fh_write_at = tokio_write_at os\<rparr>"

section \<open>Documented behaviour of the parameter\<close>

text \<open>
  The bytes of a file after a write at an offset: a write past the end fills the gap with zeros.
\<close>

definition overlay :: "bytes \<Rightarrow> nat \<Rightarrow> bytes \<Rightarrow> bytes" where
  "overlay c off data =
     take off (c @ replicate (off - length c) 0) @ data @ drop (off + length data) c"

text \<open>
  A view of the world: the content of the files by path, the path an open file was opened at, and
  the position of its cursor. Every operation may fail; a failure changes no file, except that a
  failed write or resize leaves its own file with some content.
\<close>

definition open_documented ::
  "('w, 'f) os_fs \<Rightarrow> ('w \<Rightarrow> path \<Rightarrow> bytes option) \<Rightarrow> ('f \<Rightarrow> path) \<Rightarrow> bool" where
  "open_documented os files path_of \<longleftrightarrow> (\<forall>opts p w r w'.
     os_open os opts p w = (r, w') \<longrightarrow> \<not> oo_truncate opts \<longrightarrow> \<not> oo_create opts \<longrightarrow>
     (case r of
        Err _ \<Rightarrow> files w' = files w
      | Ok f \<Rightarrow> path_of f = p \<and>
          (if oo_create_new opts then files w p = None \<and> files w' = (files w)(p \<mapsto> [])
           else files w p \<noteq> None \<and> files w' = files w)))"

definition dirs_documented ::
  "('w, 'f) os_fs \<Rightarrow> ('w \<Rightarrow> path \<Rightarrow> bytes option) \<Rightarrow> bool" where
  "dirs_documented os files \<longleftrightarrow> (\<forall>p w.
     files (snd (os_create_dir_all os p w)) = files w \<and>
     files (snd (os_try_exists os p w)) = files w \<and>
     (\<forall>b. fst (os_try_exists os p w) = Ok b \<longrightarrow> (b \<longleftrightarrow> files w p \<noteq> None)))"

definition metadata_documented ::
  "('w, 'f) os_fs \<Rightarrow> ('w \<Rightarrow> path \<Rightarrow> bytes option) \<Rightarrow> ('f \<Rightarrow> path) \<Rightarrow> bool" where
  "metadata_documented os files path_of \<longleftrightarrow> (\<forall>f w c r w'.
     files w (path_of f) = Some c \<longrightarrow> os_metadata_len os f w = (r, w') \<longrightarrow>
     files w' = files w \<and> (\<forall>n. r = Ok n \<longrightarrow> unat n = length c))"

definition seek_documented ::
  "('w, 'f) os_fs \<Rightarrow> ('w \<Rightarrow> path \<Rightarrow> bytes option) \<Rightarrow> ('w \<Rightarrow> 'f \<Rightarrow> nat) \<Rightarrow> bool" where
  "seek_documented os files cursor \<longleftrightarrow> (\<forall>f off w r w'.
     os_seek os f off w = (r, w') \<longrightarrow>
     files w' = files w \<and> (\<forall>n. r = Ok n \<longrightarrow> cursor w' f = unat off))"

text \<open>
  A read may return fewer bytes than there are; it returns none only at the end of the file, or when
  the buffer is empty.
\<close>

definition read_documented ::
  "('w, 'f) os_fs \<Rightarrow> ('w \<Rightarrow> path \<Rightarrow> bytes option) \<Rightarrow> ('f \<Rightarrow> path) \<Rightarrow> ('w \<Rightarrow> 'f \<Rightarrow> nat) \<Rightarrow> bool" where
  "read_documented os files path_of cursor \<longleftrightarrow> (\<forall>f buf w c r buf' w'.
     files w (path_of f) = Some c \<longrightarrow> os_read os f buf w = (r, buf', w') \<longrightarrow>
     files w' = files w \<and> length buf' = length buf \<and>
     (\<forall>n. r = Ok n \<longrightarrow> n \<le> length buf \<and> n \<le> length c - cursor w f \<and>
        (n = 0 \<longrightarrow> buf = [] \<or> length c \<le> cursor w f) \<and> buf' = put buf 0 (range_of c (cursor w f) n)))"

definition write_documented ::
  "('w, 'f) os_fs \<Rightarrow> ('w \<Rightarrow> path \<Rightarrow> bytes option) \<Rightarrow> ('f \<Rightarrow> path) \<Rightarrow> ('w \<Rightarrow> 'f \<Rightarrow> nat) \<Rightarrow> bool" where
  "write_documented os files path_of cursor \<longleftrightarrow> (\<forall>f data w c r w'.
     files w (path_of f) = Some c \<longrightarrow> os_write_all os f data w = (r, w') \<longrightarrow>
     (case r of
        Ok _ \<Rightarrow> files w' = (files w)(path_of f \<mapsto> overlay c (cursor w f) data)
      | Err _ \<Rightarrow> \<exists>c'. files w' = (files w)(path_of f \<mapsto> c')))"

definition os_documented ::
  "('w, 'f) os_fs \<Rightarrow> ('w \<Rightarrow> path \<Rightarrow> bytes option) \<Rightarrow> ('f \<Rightarrow> path) \<Rightarrow> ('w \<Rightarrow> 'f \<Rightarrow> nat) \<Rightarrow> bool" where
  "os_documented os files path_of cursor \<longleftrightarrow>
     open_documented os files path_of \<and> dirs_documented os files \<and>
     metadata_documented os files path_of \<and> seek_documented os files cursor \<and>
     read_documented os files path_of cursor \<and> write_documented os files path_of cursor"

section \<open>The contract of the traits\<close>

locale file_store =
  fixes fs :: "('w, 'h) file_system"
    and lawful :: bool
    and files :: "'w \<Rightarrow> path \<Rightarrow> bytes option"
    and path_of :: "'h \<Rightarrow> path"
  assumes dirs_law: "lawful \<Longrightarrow> fs_create_dir_all fs p w = (r, w') \<Longrightarrow> files w' = files w"
    and exists_law: "lawful \<Longrightarrow> fs_file_exists fs p w = (q, w') \<Longrightarrow>
      files w' = files w \<and> (case q of Err _ \<Rightarrow> True | Ok b \<Rightarrow> b \<longleftrightarrow> files w p \<noteq> None)"
    and create_law: "lawful \<Longrightarrow> fs_create_file fs p w = (rh, w') \<Longrightarrow>
      (case rh of Err _ \<Rightarrow> files w' = files w
       | Ok h \<Rightarrow> path_of h = p \<and> files w p = None \<and> files w' = (files w)(p \<mapsto> []))"
    and open_law: "lawful \<Longrightarrow> fs_open_file fs p w = (rh, w') \<Longrightarrow> files w' = files w \<and>
      (case rh of Err _ \<Rightarrow> True | Ok h \<Rightarrow> path_of h = p \<and> files w p \<noteq> None)"
    and len_law: "lawful \<Longrightarrow> files w (path_of h) = Some c \<Longrightarrow> fh_len fs h w = (rn, w') \<Longrightarrow>
      files w' = files w \<and> (case rn of Err _ \<Rightarrow> True | Ok n \<Rightarrow> unat n = length c)"
    and read_law: "lawful \<Longrightarrow> files w (path_of h) = Some c \<Longrightarrow>
      fh_read_at fs h buf off w = (rc, buf', w') \<Longrightarrow> files w' = files w \<and> length buf' = length buf \<and>
      (case rc of Err _ \<Rightarrow> True
       | Ok n \<Rightarrow> n \<le> length buf \<and> n \<le> length c - unat off \<and>
           (n = 0 \<longrightarrow> buf = [] \<or> length c \<le> unat off) \<and> buf' = put buf 0 (range_of c (unat off) n))"
    and write_law: "lawful \<Longrightarrow> files w (path_of h) = Some c \<Longrightarrow> fh_write_at fs h data off w = (r, w') \<Longrightarrow>
      (case r of Ok _ \<Rightarrow> files w' = (files w)(path_of h \<mapsto> overlay c (unat off) data)
       | Err _ \<Rightarrow> \<exists>c'. files w' = (files w)(path_of h \<mapsto> c'))"
begin

lemma create_not_twice:
  assumes "lawful" and "files w p \<noteq> None"
  shows "\<exists>e w'. fs_create_file fs p w = (Err e, w') \<and> files w' = files w"
proof -
  obtain r w' where run: "fs_create_file fs p w = (r, w')" by fastforce
  show ?thesis using create_law [OF assms(1) run] assms(2) run by (cases r) auto
qed

end

section \<open>The tokio implementation meets the contract\<close>

lemmas tokio_defs = tokio_file_system_def tokio_create_dir_all_def tokio_create_file_def
  tokio_delete_file_def tokio_file_exists_def tokio_open_file_def tokio_len_def tokio_read_at_def
  tokio_set_len_def tokio_write_at_def tokio_file_handle_new_def open_options_new_def

lemma open_documentedD:
  assumes "os_documented os files path_of cursor" and "os_open os opts p w = (r, w')"
    and "\<not> oo_truncate opts" and "\<not> oo_create opts"
  shows "case r of Err _ \<Rightarrow> files w' = files w
    | Ok f \<Rightarrow> path_of f = p \<and>
        (if oo_create_new opts then files w p = None \<and> files w' = (files w)(p \<mapsto> [])
         else files w p \<noteq> None \<and> files w' = files w)"
  using assms unfolding os_documented_def open_documented_def by blast

lemma dirs_documentedD:
  assumes "os_documented os files path_of cursor"
  shows "files (snd (os_create_dir_all os p w)) = files w"
    and "files (snd (os_try_exists os p w)) = files w"
    and "fst (os_try_exists os p w) = Ok b \<Longrightarrow> b \<longleftrightarrow> files w p \<noteq> None"
  using assms unfolding os_documented_def dirs_documented_def by blast+

lemma tokio_create_law:
  assumes "os_documented os files path_of cursor"
    and run: "fs_create_file (tokio_file_system os) p w = (rh, w')"
  shows "case rh of Err _ \<Rightarrow> files w' = files w
    | Ok h \<Rightarrow> path_of (tokio_file h) = p \<and> files w p = None \<and> files w' = (files w)(p \<mapsto> [])"
proof -
  let ?opts = "open_options_new\<lparr>oo_read := True, oo_write := True, oo_create_new := True\<rparr>"
  obtain r w1 where o: "os_open os ?opts p w = (r, w1)" by fastforce
  have "case r of Err _ \<Rightarrow> files w1 = files w
    | Ok f \<Rightarrow> path_of f = p \<and> files w p = None \<and> files w1 = (files w)(p \<mapsto> [])"
    using open_documentedD [OF assms(1) o] by (cases r) (simp_all add: open_options_new_def)
  then show ?thesis
    using run o by (cases r) (auto simp: tokio_file_system_def tokio_create_file_def tokio_file_handle_new_def)
qed

lemma tokio_open_law:
  assumes "os_documented os files path_of cursor"
    and run: "fs_open_file (tokio_file_system os) p w = (rh, w')"
  shows "files w' = files w \<and> (case rh of Err _ \<Rightarrow> True
    | Ok h \<Rightarrow> path_of (tokio_file h) = p \<and> files w p \<noteq> None)"
proof -
  let ?opts = "open_options_new\<lparr>oo_read := True, oo_write := True, oo_create := False, oo_truncate := False\<rparr>"
  obtain r w1 where o: "os_open os ?opts p w = (r, w1)" by fastforce
  have "case r of Err _ \<Rightarrow> files w1 = files w
    | Ok f \<Rightarrow> path_of f = p \<and> files w p \<noteq> None \<and> files w1 = files w"
    using open_documentedD [OF assms(1) o] by (cases r) (simp_all add: open_options_new_def)
  then show ?thesis
    using run o by (cases r) (auto simp: tokio_file_system_def tokio_open_file_def tokio_file_handle_new_def)
qed

lemma tokio_read_law:
  assumes doc: "os_documented os files path_of cursor"
    and stored: "files w (path_of (tokio_file h)) = Some c"
    and run: "fh_read_at (tokio_file_system os) h buf off w = (rc, buf', w')"
  shows "files w' = files w \<and> length buf' = length buf \<and> (case rc of Err _ \<Rightarrow> True
    | Ok n \<Rightarrow> n \<le> length buf \<and> n \<le> length c - unat off \<and>
        (n = 0 \<longrightarrow> buf = [] \<or> length c \<le> unat off) \<and> buf' = put buf 0 (range_of c (unat off) n))"
proof -
  obtain r w1 where s: "os_seek os (tokio_file h) off w = (r, w1)" by fastforce
  have sought: "files w1 = files w" "\<And>n. r = Ok n \<Longrightarrow> cursor w1 (tokio_file h) = unat off"
    using doc s unfolding os_documented_def seek_documented_def by blast+
  show ?thesis
  proof (cases r)
    case (Inl e)
    then show ?thesis using run s sought(1) by (auto simp: tokio_file_system_def tokio_read_at_def)
  next
    case (Inr n)
    then have r: "os_read os (tokio_file h) buf w1 = (rc, buf', w')"
      using run s by (simp add: tokio_file_system_def tokio_read_at_def)
    have "files w1 (path_of (tokio_file h)) = Some c" using stored sought(1) by simp
    then have "files w' = files w1 \<and> length buf' = length buf \<and> (\<forall>n. rc = Ok n \<longrightarrow> n \<le> length buf \<and>
        n \<le> length c - cursor w1 (tokio_file h) \<and>
        (n = 0 \<longrightarrow> buf = [] \<or> length c \<le> cursor w1 (tokio_file h)) \<and>
        buf' = put buf 0 (range_of c (cursor w1 (tokio_file h)) n))"
      using doc r unfolding os_documented_def read_documented_def by blast
    then show ?thesis using sought(1) sought(2) [OF Inr] by (auto split: sum.splits)
  qed
qed

lemma tokio_write_law:
  assumes doc: "os_documented os files path_of cursor"
    and stored: "files w (path_of (tokio_file h)) = Some c"
    and run: "fh_write_at (tokio_file_system os) h data off w = (r, w')"
  shows "case r of
      Ok _ \<Rightarrow> files w' = (files w)(path_of (tokio_file h) \<mapsto> overlay c (unat off) data)
    | Err _ \<Rightarrow> \<exists>c'. files w' = (files w)(path_of (tokio_file h) \<mapsto> c')"
proof -
  obtain q w1 where s: "os_seek os (tokio_file h) off w = (q, w1)" by fastforce
  have sought: "files w1 = files w" "\<And>n. q = Ok n \<Longrightarrow> cursor w1 (tokio_file h) = unat off"
    using doc s unfolding os_documented_def seek_documented_def by blast+
  show ?thesis
  proof (cases q)
    case (Inl e)
    then have "r = Err e" "w' = w1"
      using run s by (simp_all add: tokio_file_system_def tokio_write_at_def)
    then have "files w' = (files w)(path_of (tokio_file h) \<mapsto> c)"
      using stored sought(1) by (simp add: fun_upd_idem)
    then show ?thesis using \<open>r = Err e\<close> by auto
  next
    case (Inr n)
    then have r: "os_write_all os (tokio_file h) data w1 = (r, w')"
      using run s by (simp add: tokio_file_system_def tokio_write_at_def)
    have "files w1 (path_of (tokio_file h)) = Some c" using stored sought(1) by simp
    then have "case r of
        Ok _ \<Rightarrow> files w' = (files w1)(path_of (tokio_file h) \<mapsto> overlay c (cursor w1 (tokio_file h)) data)
      | Err _ \<Rightarrow> \<exists>c'. files w' = (files w1)(path_of (tokio_file h) \<mapsto> c')"
      using doc r unfolding os_documented_def write_documented_def by blast
    then show ?thesis using sought(1) sought(2) [OF Inr] by (cases r) simp_all
  qed
qed

interpretation tokio: file_store "tokio_file_system os" "os_documented os files path_of cursor" files "\<lambda>h. path_of (tokio_file h)"
  for os :: "('w, 'f) os_fs" and files path_of cursor
proof (unfold_locales, goal_cases)
  case (1 p w r w')
  then show ?case using dirs_documentedD(1) [OF 1(1), of p w]
    by (simp add: tokio_file_system_def tokio_create_dir_all_def)
next
  case (2 p w q w')
  then show ?case using dirs_documentedD(2,3) [OF 2(1), where p = p and w = w]
    by (auto simp: tokio_file_system_def tokio_file_exists_def split: sum.splits)
next
  case (3 p w rh w')
  then show ?case by (rule tokio_create_law)
next
  case (4 p w rh w')
  then show ?case by (rule tokio_open_law)
next
  case (5 w h c rn w')
  then show ?case unfolding os_documented_def metadata_documented_def tokio_defs
    by (simp split: sum.splits)
next
  case (6 w h c buf off rc buf' w')
  then show ?case using tokio_read_law [OF 6] by (simp split: sum.splits)
next
  case (7 w h c data off r w')
  then show ?case by (rule tokio_write_law)
qed

section \<open>Bytes of a file\<close>

definition byte_at :: "bytes \<Rightarrow> nat \<Rightarrow> u8" where
  "byte_at c k = (if k < length c then c ! k else 0)"

lemma byte_at_overlay:
  "byte_at (overlay c off data) k =
     (if off \<le> k \<and> k < off + length data then data ! (k - off) else byte_at c k)"
  by (auto simp: byte_at_def overlay_def nth_append min_def)

lemma byte_at_Nil [simp]: "byte_at [] k = 0"
  by (simp add: byte_at_def)

lemma range_of_overlay:
  "range_of (overlay c off data) off (length data) = data"
  by (simp add: range_of_def overlay_def min_def)

lemma range_of_overlay_prefix:
  "n \<le> length data \<Longrightarrow> range_of (overlay c off data) off n = take n data"
  by (simp add: range_of_def overlay_def min_def)

lemma length_overlay [simp]: "length (overlay c off data) = max (length c) (off + length data)"
  by (auto simp: overlay_def min_def max_def)

section \<open>Properties\<close>

text \<open>
  C31: what is written through a handle of the tokio file system is what a following read at the same
  offset into a buffer of the same length returns, as far as the read goes: it returns at least one
  byte, when there are any, but may stop short of the end, and then leaves the rest of the buffer as
  it was. No other file is changed, and the read changes none.
\<close>

theorem tokio_write_read:
  assumes "os_documented os files path_of cursor" and "files w (path_of (tokio_file h)) \<noteq> None"
    and "tokio_write_at os h data off w = (Ok u, w1)"
    and "tokio_read_at os h buf off w1 = (Ok n, buf', w2)" and "length buf = length data"
  shows "n \<le> length data \<and> (data \<noteq> [] \<longrightarrow> 0 < n) \<and> buf' = take n data @ drop n buf \<and>
    files w2 = files w1 \<and> (\<forall>p. p \<noteq> path_of (tokio_file h) \<longrightarrow> files w2 p = files w p)"
proof -
  obtain c where c: "files w (path_of (tokio_file h)) = Some c" using assms(2) by blast
  have w1: "files w1 = (files w)(path_of (tokio_file h) \<mapsto> overlay c (unat off) data)"
    using tokio_write_law [OF assms(1) c, of data off] assms(3) by (simp add: tokio_file_system_def)
  then have c1: "files w1 (path_of (tokio_file h)) = Some (overlay c (unat off) data)" by simp
  have r: "fh_read_at (tokio_file_system os) h buf off w1 = (Ok n, buf', w2)"
    using assms(4) by (simp add: tokio_file_system_def)
  from tokio.read_law [OF assms(1) c1 r] have n: "n \<le> length data" "n = 0 \<Longrightarrow> buf = [] \<or>
      length (overlay c (unat off) data) \<le> unat off" "files w2 = files w1"
    and buf': "buf' = put buf 0 (range_of (overlay c (unat off) data) (unat off) n)"
    using assms(5) by simp_all
  have "0 < n" if "data \<noteq> []" using n(2) that assms(5) by (cases n) auto
  moreover have "buf' = take n data @ drop n buf"
    using n(1) assms(5) by (simp add: buf' range_of_overlay_prefix put_def min_def)
  ultimately show ?thesis using n w1 by simp
qed

text \<open>
  Creating a file at a path where a file exists fails and leaves every file as it was, although
  the documentation of the trait says that it overwrites an existing file.
\<close>

lemma tokio_create_existing:
  assumes "os_documented os files path_of cursor" and "files w p \<noteq> None"
  shows "\<exists>e w'. tokio_create_file os p w = (Err e, w') \<and> files w' = files w"
  using tokio.create_not_twice [OF assms] by (simp add: tokio_file_system_def)

section \<open>An instance of the parameter\<close>

text \<open>
  A file system in memory, on which the documented behaviour holds; a file is identified with its
  path. It is the concrete parameter of the witnesses.
\<close>

record memory =
  mem_files :: "path \<Rightarrow> bytes option"
  mem_cursor :: "path \<Rightarrow> nat"

definition memory_empty :: memory where
  "memory_empty = \<lparr>mem_files = \<lambda>_. None, mem_cursor = \<lambda>_. 0\<rparr>"

definition memory_open :: "open_options \<Rightarrow> path \<Rightarrow> memory \<Rightarrow> (io_error, path) rust_result \<times> memory" where
  "memory_open opts p w =
     (case mem_files w p of
        Some _ \<Rightarrow> (if oo_create_new opts then (Err ''exists'', w) else (Ok p, w))
      | None \<Rightarrow> (if oo_create_new opts then (Ok p, w\<lparr>mem_files := (mem_files w)(p \<mapsto> [])\<rparr>)
                 else (Err ''not found'', w)))"

definition memory_metadata :: "path \<Rightarrow> memory \<Rightarrow> (io_error, u64) rust_result \<times> memory" where
  "memory_metadata f w =
     (case mem_files w f of
        Some c \<Rightarrow> (if length c < 2 ^ 64 then (Ok (of_nat (length c)), w) else (Err ''length'', w))
      | None \<Rightarrow> (Err ''not found'', w))"

definition memory_read :: "path \<Rightarrow> bytes \<Rightarrow> memory \<Rightarrow> (io_error, usize) rust_result \<times> bytes \<times> memory" where
  "memory_read f buf w =
     (case mem_files w f of
        Some c \<Rightarrow> (let n = min (length buf) (length c - mem_cursor w f)
          in (Ok n, put buf 0 (range_of c (mem_cursor w f) n), w))
      | None \<Rightarrow> (Err ''not found'', buf, w))"

definition memory_write :: "path \<Rightarrow> bytes \<Rightarrow> memory \<Rightarrow> (io_error, unit) rust_result \<times> memory" where
  "memory_write f data w =
     (case mem_files w f of
        Some c \<Rightarrow> (Ok (), w\<lparr>mem_files := (mem_files w)(f \<mapsto> overlay c (mem_cursor w f) data)\<rparr>)
      | None \<Rightarrow> (Err ''not found'', w))"

definition memory_set_len :: "path \<Rightarrow> u64 \<Rightarrow> memory \<Rightarrow> (io_error, unit) rust_result \<times> memory" where
  "memory_set_len f len w =
     (case mem_files w f of
        Some c \<Rightarrow> (Ok (), w\<lparr>mem_files := (mem_files w)(f \<mapsto>
          take (unat len) (c @ replicate (unat len - length c) 0))\<rparr>)
      | None \<Rightarrow> (Err ''not found'', w))"

definition memory_fs :: "(memory, path) os_fs" where
  "memory_fs =
     \<lparr>os_create_dir_all = (\<lambda>p w. (Ok (), w)), os_open = memory_open,
      os_remove_file = (\<lambda>p w. (Ok (), w\<lparr>mem_files := (mem_files w)(p := None)\<rparr>)),
      os_try_exists = (\<lambda>p w. (Ok (mem_files w p \<noteq> None), w)), os_metadata_len = memory_metadata,
      os_seek = (\<lambda>f off w. (Ok off, w\<lparr>mem_cursor := (mem_cursor w)(f := unat off)\<rparr>)),
      os_read = memory_read, os_set_len = memory_set_len, os_write_all = memory_write\<rparr>"

lemmas memory_defs = memory_fs_def memory_open_def memory_metadata_def memory_read_def
  memory_write_def memory_set_len_def memory_empty_def

lemma min_eq_0: "min m n = (0 :: nat) \<longleftrightarrow> m = 0 \<or> n = 0"
  by (auto simp: min_def)

lemma memory_documented: "os_documented memory_fs mem_files (\<lambda>p. p) mem_cursor"
proof -
  have "open_documented memory_fs mem_files (\<lambda>p. p)"
    by (auto simp: open_documented_def memory_defs split: option.splits if_splits)
  moreover have "dirs_documented memory_fs mem_files"
    by (auto simp: dirs_documented_def memory_fs_def)
  moreover have "metadata_documented memory_fs mem_files (\<lambda>p. p)"
    by (auto simp: metadata_documented_def memory_defs unat_of_nat take_bit_nat_eq_self split: if_splits)
  moreover have "seek_documented memory_fs mem_files mem_cursor"
    by (auto simp: seek_documented_def memory_fs_def)
  moreover have "read_documented memory_fs mem_files (\<lambda>p. p) mem_cursor"
    by (auto simp: read_documented_def memory_fs_def memory_read_def Let_def put_def range_of_def min_eq_0)
  moreover have "write_documented memory_fs mem_files (\<lambda>p. p) mem_cursor"
    by (auto simp: write_documented_def memory_fs_def memory_write_def)
  ultimately show ?thesis by (simp add: os_documented_def)
qed

definition example_memory :: memory where
  "example_memory = \<lparr>mem_files = [[''data''] \<mapsto> [1, 2]], mem_cursor = \<lambda>_. 0\<rparr>"

lemma example_write:
  "\<exists>w1. tokio_write_at memory_fs (TokioFileHandle [''data'']) [7, 8, 9] 1 example_memory = (Ok (), w1) \<and>
     (\<exists>w2. tokio_read_at memory_fs (TokioFileHandle [''data'']) [0, 0, 0] 1 w1 = (Ok 3, [7, 8, 9], w2))"
  by (simp add: tokio_write_at_def tokio_read_at_def memory_defs example_memory_def overlay_def
      range_of_def put_def)

theorem tokio_write_read_witness:
  "\<exists>w1 w2 buf'. tokio_write_at memory_fs (TokioFileHandle [''data'']) [7, 8, 9] 1 example_memory = (Ok (), w1) \<and>
     tokio_read_at memory_fs (TokioFileHandle [''data'']) [0, 0, 0] 1 w1 = (Ok 3, buf', w2) \<and>
     buf' = [7, 8, 9] \<and> mem_files w2 = mem_files w1"
proof -
  have stored: "mem_files example_memory (tokio_file (TokioFileHandle [''data''])) \<noteq> None"
    by (simp add: example_memory_def)
  obtain w1 w2 where w: "tokio_write_at memory_fs (TokioFileHandle [''data'']) [7, 8, 9] 1 example_memory = (Ok (), w1)"
    and r: "tokio_read_at memory_fs (TokioFileHandle [''data'']) [0, 0, 0] 1 w1 = (Ok 3, [7, 8, 9], w2)"
    using example_write by (elim exE conjE)
  have "mem_files w2 = mem_files w1"
    using tokio_write_read [OF memory_documented stored w r] by simp
  then show ?thesis using w r by blast
qed

end
