(* ===== verification/Disk_Manager.thy ===== *)
theory Disk_Manager
  imports Page_Id File_System
begin

text \<open>
  \<open>crates/storage/src/disk_manager.rs\<close>: one file per table, pages at multiples of the page size. The
  manager caches the handle of each open table file and keeps the index of the next page to allocate.
  The operations take the file system, the manager and the world and return the result, the manager
  and the world they leave; \<open>None\<close> is a panic. Where an operation awaits the file system, what it
  does to its own maps before and after the await is a definition of its own, so that the
  interleavings of two operations can be stated.

  The contract for the buffer pool is the locale \<open>page_store\<close>: the disk is a map from page
  identifiers to pages.
\<close>

section \<open>Definitions\<close>

subsection \<open>Paths of table files\<close>

definition TABLE_FILE_EXTENSION :: string where "TABLE_FILE_EXTENSION = ''tbl''"

definition path_join :: "path \<Rightarrow> string \<Rightarrow> path" where
  "path_join p c = p @ [c]"

text \<open>The file name up to its last dot; a name whose only dot is the first character is all stem.\<close>

definition file_stem :: "string \<Rightarrow> string" where
  "file_stem s =
     (let r = dropWhile (\<lambda>c. c \<noteq> CHR ''.'') (rev s)
      in if r = [] \<or> tl r = [] then s else rev (tl r))"

definition with_extension :: "path \<Rightarrow> string \<Rightarrow> path" where
  "with_extension p ext = (if p = [] then p else butlast p @ [file_stem (last p) @ ''.'' @ ext])"

subsection \<open>The manager\<close>

record 'h disk_manager =
  base_path :: path
  file_handles :: "u32 \<Rightarrow> 'h option"
  next_page_ids :: "u32 \<Rightarrow> u32 option"

definition disk_manager_new :: "path \<Rightarrow> 'h disk_manager" where
  "disk_manager_new path = \<lparr>base_path = path, file_handles = \<lambda>_. None, next_page_ids = \<lambda>_. None\<rparr>"

definition table_path :: "path \<Rightarrow> u32 \<Rightarrow> path" where
  "table_path base table_id = with_extension (path_join base (show_nat (unat table_id))) TABLE_FILE_EXTENSION"

text \<open>
  After the file was opened: a handle that is in the cache by now wins; otherwise the entry of the
  next page index is made if it is absent and the handle is cached.
\<close>

definition install_opened :: "u32 \<Rightarrow> 'h \<Rightarrow> u64 \<Rightarrow> 'h disk_manager \<Rightarrow> 'h \<times> 'h disk_manager" where
  "install_opened table_id h file_length dm =
     (case file_handles dm table_id of
        Some cached \<Rightarrow> (cached, dm)
      | None \<Rightarrow>
          (let next_index = file_length div of_nat PAGE_SIZE;
               dm = dm\<lparr>next_page_ids :=
                 (case next_page_ids dm table_id of
                    None \<Rightarrow> (next_page_ids dm)(table_id \<mapsto> ucast next_index)
                  | Some _ \<Rightarrow> next_page_ids dm)\<rparr>
           in (h, dm\<lparr>file_handles := (file_handles dm)(table_id \<mapsto> h)\<rparr>)))"

definition get_file_handle ::
  "('w, 'h) file_system \<Rightarrow> u32 \<Rightarrow> 'h disk_manager \<Rightarrow> 'w \<Rightarrow>
   (io_error, 'h) rust_result \<times> 'h disk_manager \<times> 'w" where
  "get_file_handle fs table_id dm w =
     (case file_handles dm table_id of
        Some h \<Rightarrow> (Ok h, dm, w)
      | None \<Rightarrow>
          (case fs_open_file fs (table_path (base_path dm) table_id) w of
             (Err e, w) \<Rightarrow> (Err e, dm, w)
           | (Ok h, w) \<Rightarrow>
               (case fh_len fs h w of
                  (Err e, w) \<Rightarrow> (Err e, dm, w)
                | (Ok file_length, w) \<Rightarrow>
                    (let (h, dm) = install_opened table_id h file_length dm in (Ok h, dm, w)))))"

text \<open>The counter is taken and incremented in one atomic step, with wrap-around.\<close>

definition take_next_index :: "u32 \<Rightarrow> 'h disk_manager \<Rightarrow> (u32 \<times> 'h disk_manager) option" where
  "take_next_index table_id dm =
     (case next_page_ids dm table_id of
        None \<Rightarrow> panic
      | Some n \<Rightarrow> Some (n, dm\<lparr>next_page_ids := (next_page_ids dm)(table_id \<mapsto> n + 1)\<rparr>))"

definition page_offset :: "u32 \<Rightarrow> u64" where
  "page_offset i = ucast i * of_nat PAGE_SIZE"

definition allocate_page ::
  "('w, 'h) file_system \<Rightarrow> u32 \<Rightarrow> 'h disk_manager \<Rightarrow> 'w \<Rightarrow>
   ((io_error, page_id) rust_result \<times> 'h disk_manager \<times> 'w) option" where
  "allocate_page fs table_id dm w =
     (case get_file_handle fs table_id dm w of
        (Err e, dm, w) \<Rightarrow> Some (Err e, dm, w)
      | (Ok h, dm, w) \<Rightarrow> do {
          (next_index, dm) \<leftarrow> take_next_index table_id dm;
          (case fh_write_at fs h (replicate PAGE_SIZE 0) (page_offset next_index) w of
             (Err e, w) \<Rightarrow> Some (Err e, dm, w)
           | (Ok _, w) \<Rightarrow>
               Some (Ok \<lparr>pid_table_id = table_id, pid_page_index = next_index\<rparr>, dm, w))
        })"

definition install_created :: "u32 \<Rightarrow> 'h \<Rightarrow> 'h disk_manager \<Rightarrow> 'h disk_manager" where
  "install_created table_id h dm =
     dm\<lparr>file_handles := (file_handles dm)(table_id \<mapsto> h),
        next_page_ids := (next_page_ids dm)(table_id \<mapsto> 0)\<rparr>"

definition create_table_file ::
  "('w, 'h) file_system \<Rightarrow> u32 \<Rightarrow> 'h disk_manager \<Rightarrow> 'w \<Rightarrow>
   (io_error, unit) rust_result \<times> 'h disk_manager \<times> 'w" where
  "create_table_file fs table_id dm w =
     (case fs_create_dir_all fs (base_path dm) w of
        (Err e, w) \<Rightarrow> (Err e, dm, w)
      | (Ok _, w) \<Rightarrow>
          (case fs_create_file fs (table_path (base_path dm) table_id) w of
             (Err e, w) \<Rightarrow> (Err e, dm, w)
           | (Ok h, w) \<Rightarrow> (Ok (), install_created table_id h dm, w)))"

definition read_page ::
  "('w, 'h) file_system \<Rightarrow> page_id \<Rightarrow> bytes \<Rightarrow> 'h disk_manager \<Rightarrow> 'w \<Rightarrow>
   (io_error, unit) rust_result \<times> bytes \<times> 'h disk_manager \<times> 'w" where
  "read_page fs page_id buffer dm w =
     (case get_file_handle fs (pid_table_id page_id) dm w of
        (Err e, dm, w) \<Rightarrow> (Err e, buffer, dm, w)
      | (Ok h, dm, w) \<Rightarrow>
          (case fh_read_at fs h buffer (page_offset (pid_page_index page_id)) w of
             (Err e, buffer, w) \<Rightarrow> (Err e, buffer, dm, w)
           | (Ok _, buffer, w) \<Rightarrow> (Ok (), buffer, dm, w)))"

definition table_file_exists ::
  "('w, 'h) file_system \<Rightarrow> u32 \<Rightarrow> 'h disk_manager \<Rightarrow> 'w \<Rightarrow> (io_error, bool) rust_result \<times> 'w" where
  "table_file_exists fs table_id dm w = fs_file_exists fs (table_path (base_path dm) table_id) w"

definition write_page ::
  "('w, 'h) file_system \<Rightarrow> page_id \<Rightarrow> bytes \<Rightarrow> 'h disk_manager \<Rightarrow> 'w \<Rightarrow>
   (io_error, unit) rust_result \<times> 'h disk_manager \<times> 'w" where
  "write_page fs page_id buffer dm w =
     (case get_file_handle fs (pid_table_id page_id) dm w of
        (Err e, dm, w) \<Rightarrow> (Err e, dm, w)
      | (Ok h, dm, w) \<Rightarrow>
          (case fh_write_at fs h buffer (page_offset (pid_page_index page_id)) w of
             (Err e, w) \<Rightarrow> (Err e, dm, w)
           | (Ok _, w) \<Rightarrow> (Ok (), dm, w)))"

section \<open>Paths\<close>

lemma file_stem_no_dot: "CHR ''.'' \<notin> set s \<Longrightarrow> file_stem s = s"
proof -
  assume "CHR ''.'' \<notin> set s"
  then have "dropWhile (\<lambda>c. c \<noteq> CHR ''.'') (rev s) = []" by (auto simp: dropWhile_eq_Nil_conv)
  then show ?thesis by (simp add: file_stem_def)
qed

lemma table_path_eq: "table_path base t = base @ [show_nat (unat t) @ ''.tbl'']"
proof -
  have "CHR ''.'' \<notin> set (show_nat (unat t))" by (rule show_nat_no_char) (simp add: is_digit_def)
  then show ?thesis
    by (simp add: table_path_def path_join_def with_extension_def file_stem_no_dot TABLE_FILE_EXTENSION_def)
qed

lemma table_path_inject [simp]: "table_path base t = table_path base u \<longleftrightarrow> t = u"
proof -
  have "show_nat a = show_nat b \<longleftrightarrow> a = b" for a b
    by (metis digits_value_show)
  then show ?thesis by (simp add: table_path_eq word_unat_eq_iff)
qed

section \<open>Pages of a file\<close>

text \<open>The \<open>i\<close>-th page of a file; what is beyond the end of the file reads as zeros.\<close>

definition page_bytes :: "bytes \<Rightarrow> nat \<Rightarrow> bytes" where
  "page_bytes c i = map (\<lambda>k. byte_at c (i * PAGE_SIZE + k)) [0..<PAGE_SIZE]"

lemma length_page_bytes [simp]: "length (page_bytes c i) = PAGE_SIZE"
  by (simp add: page_bytes_def)

lemma nth_page_bytes [simp]: "k < PAGE_SIZE \<Longrightarrow> page_bytes c i ! k = byte_at c (i * PAGE_SIZE + k)"
  by (simp add: page_bytes_def)

lemma page_beyond: "length c \<le> i * PAGE_SIZE \<Longrightarrow> page_bytes c i = replicate PAGE_SIZE 0"
  by (rule nth_equalityI) (auto simp: byte_at_def)

lemma page_offset_unat [simp]: "unat (page_offset i) = unat i * PAGE_SIZE"
proof -
  have "unat i * PAGE_SIZE < 2 ^ 64" using unat_u32_less [of i] by (simp add: PAGE_SIZE_def)
  moreover have "unat (ucast i :: u64) = unat i"
    by (simp add: unsigned_ucast_eq take_bit_nat_eq_self unat_u32_less order_less_trans [OF unat_u32_less])
  ultimately show ?thesis
    by (simp add: page_offset_def unat_mult_lem [THEN iffD1] unat_word_ariths PAGE_SIZE_def)
qed

lemma page_overlay:
  assumes "length data = PAGE_SIZE"
  shows "page_bytes (overlay c (i * PAGE_SIZE) data) j = (if j = i then data else page_bytes c j)"
proof (rule nth_equalityI)
  show "length (page_bytes (overlay c (i * PAGE_SIZE) data) j) =
      length (if j = i then data else page_bytes c j)"
    using assms by simp
next
  fix k assume "k < length (page_bytes (overlay c (i * PAGE_SIZE) data) j)"
  then have k: "k < PAGE_SIZE" by simp
  have "i * PAGE_SIZE \<le> j * PAGE_SIZE + k \<and> j * PAGE_SIZE + k < i * PAGE_SIZE + PAGE_SIZE \<longleftrightarrow> j = i"
  proof
    assume h: "i * PAGE_SIZE \<le> j * PAGE_SIZE + k \<and> j * PAGE_SIZE + k < i * PAGE_SIZE + PAGE_SIZE"
    then have "i * PAGE_SIZE < Suc j * PAGE_SIZE" "j * PAGE_SIZE < Suc i * PAGE_SIZE"
      using k by simp_all
    then have "i < Suc j" "j < Suc i" by (simp_all only: mult_less_cancel2)
    then show "j = i" by simp
  qed (use k in simp)
  then show "page_bytes (overlay c (i * PAGE_SIZE) data) j ! k =
      (if j = i then data else page_bytes c j) ! k"
    using k assms by (auto simp: byte_at_overlay)
qed

text \<open>What a read of the \<open>i\<close>-th page into a buffer of zeros leaves when it returns \<open>n\<close> bytes.\<close>

lemma page_of_read:
  assumes "n \<le> PAGE_SIZE" and "n \<le> length c - i * PAGE_SIZE"
  shows "put (replicate PAGE_SIZE 0) 0 (range_of c (i * PAGE_SIZE) n) =
    take n (page_bytes c i) @ replicate (PAGE_SIZE - n) 0"
proof (rule nth_equalityI)
  have n: "length (range_of c (i * PAGE_SIZE) n) = n" using assms by (simp add: range_of_def)
  then show "length (put (replicate PAGE_SIZE 0) 0 (range_of c (i * PAGE_SIZE) n)) =
      length (take n (page_bytes c i) @ replicate (PAGE_SIZE - n) 0)" using assms by simp
  fix k assume "k < length (put (replicate PAGE_SIZE 0) 0 (range_of c (i * PAGE_SIZE) n))"
  then have k: "k < PAGE_SIZE" using n assms(1) by simp
  then show "put (replicate PAGE_SIZE 0) 0 (range_of c (i * PAGE_SIZE) n) ! k =
      (take n (page_bytes c i) @ replicate (PAGE_SIZE - n) 0) ! k"
    using n assms by (subst nth_put) (auto simp: byte_at_def range_of_def nth_append)
qed

lemma page_of_whole:
  assumes "n = min PAGE_SIZE (length c - i * PAGE_SIZE)"
  shows "take n (page_bytes c i) @ replicate (PAGE_SIZE - n) 0 = page_bytes c i"
  using assms by (intro nth_equalityI) (auto simp: byte_at_def nth_append)

section \<open>The state of the disk\<close>

text \<open>
  The abstract view: the page of an identifier, zeros when it is beyond the file, and the index the
  next allocation in a table takes. In a well-formed state the cached handles are open on the files
  of their tables, every file is a sequence of at most \<open>2 ^ 32 - 1\<close> pages, and the next index is
  beyond every page of the file.
\<close>

type_synonym disk = "path \<Rightarrow> bytes option"

definition page_of :: "disk \<Rightarrow> path \<Rightarrow> page_id \<Rightarrow> bytes" where
  "page_of d base p =
     (case d (table_path base (pid_table_id p)) of
        None \<Rightarrow> replicate PAGE_SIZE 0
      | Some c \<Rightarrow> page_bytes c (unat (pid_page_index p)))"

definition next_index :: "disk \<Rightarrow> 'h disk_manager \<Rightarrow> u32 \<Rightarrow> nat" where
  "next_index d dm t =
     (case next_page_ids dm t of
        Some n \<Rightarrow> unat n
      | None \<Rightarrow> (case d (table_path (base_path dm) t) of Some c \<Rightarrow> length c div PAGE_SIZE | None \<Rightarrow> 0))"

definition disk_ok :: "('h \<Rightarrow> path) \<Rightarrow> disk \<Rightarrow> 'h disk_manager \<Rightarrow> bool" where
  "disk_ok path_of d dm \<longleftrightarrow>
     (\<forall>t h. file_handles dm t = Some h \<longrightarrow>
        path_of h = table_path (base_path dm) t \<and> d (table_path (base_path dm) t) \<noteq> None) \<and>
     (\<forall>t. file_handles dm t = None \<longleftrightarrow> next_page_ids dm t = None) \<and>
     (\<forall>t c. d (table_path (base_path dm) t) = Some c \<longrightarrow>
        PAGE_SIZE dvd length c \<and> length c div PAGE_SIZE < 2 ^ 32 \<and>
        length c div PAGE_SIZE \<le> next_index d dm t)"

lemma disk_okD:
  assumes "disk_ok path_of d dm"
  shows "file_handles dm t = Some h \<Longrightarrow> path_of h = table_path (base_path dm) t"
    and "file_handles dm t = Some h \<Longrightarrow> \<exists>c. d (table_path (base_path dm) t) = Some c"
    and "file_handles dm t = None \<longleftrightarrow> next_page_ids dm t = None"
    and "d (table_path (base_path dm) t) = Some c \<Longrightarrow> PAGE_SIZE dvd length c"
    and "d (table_path (base_path dm) t) = Some c \<Longrightarrow> length c div PAGE_SIZE < 2 ^ 32"
    and "d (table_path (base_path dm) t) = Some c \<Longrightarrow> length c div PAGE_SIZE \<le> next_index d dm t"
  using assms by (auto simp: disk_ok_def)

lemma disk_okI:
  assumes "\<And>t h. file_handles dm t = Some h \<Longrightarrow> path_of h = table_path (base_path dm) t"
    and "\<And>t h. file_handles dm t = Some h \<Longrightarrow> d (table_path (base_path dm) t) \<noteq> None"
    and "\<And>t. file_handles dm t = None \<longleftrightarrow> next_page_ids dm t = None"
    and "\<And>t c. d (table_path (base_path dm) t) = Some c \<Longrightarrow> PAGE_SIZE dvd length c \<and>
      length c div PAGE_SIZE < 2 ^ 32 \<and> length c div PAGE_SIZE \<le> next_index d dm t"
  shows "disk_ok path_of d dm"
  using assms by (auto simp: disk_ok_def)

lemma next_index_cached: "next_page_ids dm t = Some n \<Longrightarrow> next_index d dm t = unat n"
  by (simp add: next_index_def)

lemma pages_length:
  assumes "disk_ok path_of d dm" and "d (table_path (base_path dm) t) = Some c"
  shows "length c \<le> next_index d dm t * PAGE_SIZE"
  using disk_okD(4,6) [OF assms] by (metis dvd_div_mult_self mult_le_mono1)

text \<open>A page that is not allocated reads as zeros.\<close>

lemma unallocated_zero:
  assumes "disk_ok path_of d dm" and "next_index d dm (pid_table_id p) \<le> unat (pid_page_index p)"
  shows "page_of d (base_path dm) p = replicate PAGE_SIZE 0"
proof (cases "d (table_path (base_path dm) (pid_table_id p))")
  case (Some c)
  have "length c \<le> unat (pid_page_index p) * PAGE_SIZE"
    using pages_length [OF assms(1) Some] assms(2) by (meson le_trans mult_le_mono1)
  then show ?thesis by (simp add: page_of_def Some page_beyond)
qed (simp add: page_of_def)

lemma install_opened_ok:
  assumes ok: "disk_ok path_of d dm" and none: "file_handles dm t = None"
    and h: "path_of h = table_path (base_path dm) t" and stored: "d (table_path (base_path dm) t) = Some c"
    and len: "unat n = length c"
  shows "\<exists>dm'. install_opened t h n dm = (h, dm') \<and> disk_ok path_of d dm' \<and>
    base_path dm' = base_path dm \<and> file_handles dm' t = Some h \<and>
    (\<forall>u. next_index d dm' u = next_index d dm u)"
proof -
  have absent: "next_page_ids dm t = None" using disk_okD(3) [OF ok] none by blast
  let ?i = "ucast (n div of_nat PAGE_SIZE) :: u32"
  let ?dm = "dm\<lparr>next_page_ids := (next_page_ids dm)(t \<mapsto> ?i), file_handles := (file_handles dm)(t \<mapsto> h)\<rparr>"
  have "unat (n div of_nat PAGE_SIZE :: u64) = length c div PAGE_SIZE"
    by (simp add: unat_div len [symmetric] PAGE_SIZE_def)
  then have i: "unat ?i = length c div PAGE_SIZE"
    using disk_okD(5) [OF ok stored] by (simp add: unsigned_ucast_eq take_bit_nat_eq_self)
  have ni: "next_index d ?dm u = next_index d dm u" for u
    using i stored absent by (auto simp: next_index_def split: option.splits)
  have "install_opened t h n dm = (h, ?dm)" by (simp add: install_opened_def none absent Let_def)
  moreover have "disk_ok path_of d ?dm"
  proof (rule disk_okI)
    fix u g assume "file_handles ?dm u = Some g"
    then show "path_of g = table_path (base_path ?dm) u" "d (table_path (base_path ?dm) u) \<noteq> None"
      using disk_okD(1,2) [OF ok, of u g] h stored by (auto split: if_splits)
  next
    fix u show "file_handles ?dm u = None \<longleftrightarrow> next_page_ids ?dm u = None"
      using disk_okD(3) [OF ok, of u] by simp
  next
    fix u e assume "d (table_path (base_path ?dm) u) = Some e"
    then show "PAGE_SIZE dvd length e \<and> length e div PAGE_SIZE < 2 ^ 32 \<and>
        length e div PAGE_SIZE \<le> next_index d ?dm u"
      using disk_okD(4,5,6) [OF ok, of u e] by (simp only: ni) simp
  qed
  ultimately show ?thesis using ni by simp
qed

lemma write_ok:
  assumes ok: "disk_ok path_of d dm" and stored: "d (table_path (base_path dm) t) = Some c"
    and i: "i < next_index d dm t" and cached: "next_page_ids dm t \<noteq> None" and data: "length data = PAGE_SIZE"
    and d': "d' = d(table_path (base_path dm) t \<mapsto> overlay c (i * PAGE_SIZE) data)"
  shows "disk_ok path_of d' dm \<and> (\<forall>u. next_index d' dm u = next_index d dm u)"
proof -
  obtain n where n: "next_page_ids dm t = Some n" using cached by blast
  have ni: "next_index d' dm u = next_index d dm u" for u
    using n by (cases "u = t") (auto simp: next_index_def d' split: option.splits)
  have bound: "i < 2 ^ 32" using i n unat_u32_less [of n] by (simp add: next_index_def)
  obtain k where k: "length c = k * PAGE_SIZE" using disk_okD(4) [OF ok stored]
    by (metis dvd_div_mult_self)
  have lk: "k < 2 ^ 32" "k \<le> next_index d dm t"
    using disk_okD(5,6) [OF ok stored] k by simp_all
  have len: "length (overlay c (i * PAGE_SIZE) data) = max k (Suc i) * PAGE_SIZE"
    by (simp add: k data nat_mult_max_left)
  have "disk_ok path_of d' dm"
  proof (rule disk_okI)
    fix u g assume "file_handles dm u = Some g"
    then show "path_of g = table_path (base_path dm) u" "d' (table_path (base_path dm) u) \<noteq> None"
      using disk_okD(1,2) [OF ok, of u g] d' by auto
  next
    fix u show "file_handles dm u = None \<longleftrightarrow> next_page_ids dm u = None"
      by (rule disk_okD(3) [OF ok])
  next
    fix u e assume e: "d' (table_path (base_path dm) u) = Some e"
    show "PAGE_SIZE dvd length e \<and> length e div PAGE_SIZE < 2 ^ 32 \<and>
        length e div PAGE_SIZE \<le> next_index d' dm u"
    proof (cases "u = t")
      case True
      then have "length e = max k (Suc i) * PAGE_SIZE" using e len d' by auto
      moreover have "Suc i < 2 ^ 32 \<or> Suc i = 2 ^ 32" using bound by linarith
      moreover have "next_index d dm t < 2 ^ 32" using n unat_u32_less [of n] by (simp add: next_index_def)
      ultimately show ?thesis using True lk i ni by simp
    next
      case False
      then show ?thesis using disk_okD(4,5,6) [OF ok, of u e] e d' ni by simp
    qed
  qed
  then show ?thesis using ni by blast
qed

lemma page_of_write:
  assumes "d (table_path base (pid_table_id p)) = Some c" and "length data = PAGE_SIZE"
    and "d' = d(table_path base (pid_table_id p) \<mapsto> overlay c (unat (pid_page_index p) * PAGE_SIZE) data)"
  shows "page_of d' base = (page_of d base)(p := data)"
proof
  fix q
  have "q = p \<longleftrightarrow> pid_table_id q = pid_table_id p \<and> unat (pid_page_index q) = unat (pid_page_index p)"
    by (cases q; cases p) (auto simp: word_unat_eq_iff)
  then show "page_of d' base q = ((page_of d base)(p := data)) q"
    using assms by (auto simp: page_of_def page_overlay split: option.splits)
qed

text \<open>Taking the next index of a table whose file is open.\<close>

lemma index_taken:
  assumes ok: "disk_ok path_of d dm" and n: "next_page_ids dm t = Some n" and room: "unat n + 1 < 2 ^ 32"
    and dm': "dm' = dm\<lparr>next_page_ids := (next_page_ids dm)(t \<mapsto> n + 1)\<rparr>"
  shows "disk_ok path_of d dm'" and "next_index d dm' u = (if u = t then unat n + 1 else next_index d dm u)"
proof -
  have "unat (n + 1) = unat n + 1" using room by (simp add: unat_word_ariths)
  then show bumped: "next_index d dm' u = (if u = t then unat n + 1 else next_index d dm u)" for u
    by (auto simp: next_index_def dm' split: option.splits)
  show "disk_ok path_of d dm'"
  proof (rule disk_okI)
    fix u g assume "file_handles dm' u = Some g"
    then show "path_of g = table_path (base_path dm') u" "d (table_path (base_path dm') u) \<noteq> None"
      using disk_okD(1,2) [OF ok, of u g] by (auto simp: dm')
  next
    fix u show "file_handles dm' u = None \<longleftrightarrow> next_page_ids dm' u = None"
      using disk_okD(3) [OF ok, of u] n by (auto simp: dm')
  next
    fix u e assume "d (table_path (base_path dm') u) = Some e"
    then show "PAGE_SIZE dvd length e \<and> length e div PAGE_SIZE < 2 ^ 32 \<and>
        length e div PAGE_SIZE \<le> next_index d dm' u"
      using disk_okD(4,5,6) [OF ok, of u e] next_index_cached [OF n, of d] unfolding bumped by (auto simp: dm')
  qed
qed

text \<open>Writing zeros at the index just taken changes no page.\<close>

lemma zeros_written:
  assumes ok: "disk_ok path_of d dm" and n: "next_page_ids dm t = Some n" and room: "unat n + 1 < 2 ^ 32"
    and dm': "dm' = dm\<lparr>next_page_ids := (next_page_ids dm)(t \<mapsto> n + 1)\<rparr>"
    and c: "d (table_path (base_path dm) t) = Some c"
    and d': "d' = d(table_path (base_path dm) t \<mapsto> overlay c (unat n * PAGE_SIZE) (replicate PAGE_SIZE 0))"
    and p: "p = \<lparr>pid_table_id = t, pid_page_index = n\<rparr>"
  shows "disk_ok path_of d' dm'" and "next_index d' dm' u = (if u = t then unat n + 1 else next_index d dm u)"
    and "page_of d' (base_path dm) = page_of d (base_path dm)"
    and "page_of d' (base_path dm) p = replicate PAGE_SIZE 0"
proof -
  note taken = index_taken [OF ok n room dm']
  have w: "disk_ok path_of d' dm' \<and> (\<forall>u. next_index d' dm' u = next_index d dm' u)"
    by (rule write_ok [OF taken(1), where t = t and c = c and i = "unat n" and data = "replicate PAGE_SIZE 0"])
      (use c taken(2) in \<open>simp_all add: dm' d'\<close>)
  then show "disk_ok path_of d' dm'" "next_index d' dm' u = (if u = t then unat n + 1 else next_index d dm u)"
    using taken(2) by simp_all
  have "page_of d' (base_path dm) = (page_of d (base_path dm))(p := replicate PAGE_SIZE 0)"
    by (rule page_of_write [where d = d and c = c]) (simp_all add: c d' p)
  moreover have "page_of d (base_path dm) p = replicate PAGE_SIZE 0"
    by (rule unallocated_zero [OF ok]) (simp add: p next_index_cached [OF n])
  ultimately show "page_of d' (base_path dm) = page_of d (base_path dm)"
    "page_of d' (base_path dm) p = replicate PAGE_SIZE 0" by auto
qed


lemma created_ok:
  assumes ok: "disk_ok path_of d dm" and fresh: "d (table_path (base_path dm) t) = None"
  shows "file_handles dm t = None \<and> next_page_ids dm t = None \<and>
    disk_ok path_of (d(table_path (base_path dm) t \<mapsto> [])) dm \<and>
    next_index (d(table_path (base_path dm) t \<mapsto> [])) dm t = 0"
proof -
  have none: "file_handles dm t = None" "next_page_ids dm t = None"
    using disk_okD(2,3) [OF ok, of t] fresh by (cases "file_handles dm t"; auto)+
  have ni: "next_index (d(table_path (base_path dm) t \<mapsto> [])) dm u = (if u = t then 0 else next_index d dm u)" for u
    using none by (auto simp: next_index_def split: option.splits)
  have "disk_ok path_of (d(table_path (base_path dm) t \<mapsto> [])) dm"
  proof (rule disk_okI)
    fix u g assume "file_handles dm u = Some g"
    then show "path_of g = table_path (base_path dm) u"
      "(d(table_path (base_path dm) t \<mapsto> [])) (table_path (base_path dm) u) \<noteq> None"
      using disk_okD(1,2) [OF ok, of u g] by auto
  next
    fix u show "file_handles dm u = None \<longleftrightarrow> next_page_ids dm u = None" by (rule disk_okD(3) [OF ok])
  next
    fix u e assume "(d(table_path (base_path dm) t \<mapsto> [])) (table_path (base_path dm) u) = Some e"
    then show "PAGE_SIZE dvd length e \<and> length e div PAGE_SIZE < 2 ^ 32 \<and>
        length e div PAGE_SIZE \<le> next_index (d(table_path (base_path dm) t \<mapsto> [])) dm u"
      using disk_okD(4,5,6) [OF ok, of u e] by (cases "u = t") (auto simp: ni)
  qed
  then show ?thesis using none ni by simp
qed

text \<open>
  \<open>read_page\<close> drops the number of bytes that the file system returned. \<open>bytes_read\<close> is that number, if
  the read succeeds, and \<open>bytes_stored\<close> the number of bytes there are of the page; a read that came
  short has left zeros where the file has bytes.
\<close>

definition bytes_read ::
  "('w, 'h) file_system \<Rightarrow> page_id \<Rightarrow> 'h disk_manager \<Rightarrow> 'w \<Rightarrow> usize option" where
  "bytes_read fs page_id dm w =
     (case get_file_handle fs (pid_table_id page_id) dm w of
        (Err e, dm, w) \<Rightarrow> None
      | (Ok h, dm, w) \<Rightarrow>
          (case fh_read_at fs h (replicate PAGE_SIZE 0) (page_offset (pid_page_index page_id)) w of
             (Err e, buffer, w) \<Rightarrow> None
           | (Ok n, buffer, w) \<Rightarrow> Some n))"

definition bytes_stored :: "disk \<Rightarrow> path \<Rightarrow> page_id \<Rightarrow> nat" where
  "bytes_stored d base p =
     (case d (table_path base (pid_table_id p)) of
        None \<Rightarrow> 0
      | Some c \<Rightarrow> min PAGE_SIZE (length c - unat (pid_page_index p) * PAGE_SIZE))"

section \<open>The operations\<close>

context file_store
begin

lemma get_handle_outcome:
  assumes lawful and ok: "disk_ok path_of (files w) dm" and run: "get_file_handle fs t dm w = (r, dm', w')"
  shows "files w' = files w \<and> disk_ok path_of (files w) dm' \<and> base_path dm' = base_path dm \<and>
    (\<forall>u. next_index (files w) dm' u = next_index (files w) dm u) \<and>
    (case r of Err _ \<Rightarrow> dm' = dm | Ok h \<Rightarrow> file_handles dm' t = Some h)"
proof (cases "file_handles dm t")
  case (Some h)
  then show ?thesis using run ok by (auto simp: get_file_handle_def)
next
  case None
  obtain rh w1 where o: "fs_open_file fs (table_path (base_path dm) t) w = (rh, w1)" by fastforce
  note law = open_law [OF assms(1) o]
  show ?thesis
  proof (cases rh)
    case (Inl e)
    then show ?thesis using run ok law None o by (auto simp: get_file_handle_def)
  next
    case (Inr h)
    then have h: "path_of h = table_path (base_path dm) t" and w1: "files w1 = files w"
      using law by simp_all
    obtain c where c: "files w (table_path (base_path dm) t) = Some c" using law Inr by auto
    have c1: "files w1 (path_of h) = Some c" using c h w1 by simp
    obtain rn w2 where l: "fh_len fs h w1 = (rn, w2)" by fastforce
    note law2 = len_law [OF assms(1) c1 l]
    show ?thesis
    proof (cases rn)
      case (Inl e)
      then show ?thesis using run ok law2 w1 None o Inr l by (auto simp: get_file_handle_def)
    next
      case (Inr n)
      then have n: "unat n = length c" and w2: "files w2 = files w" using law2 w1 by simp_all
      obtain dm1 where i: "install_opened t h n dm = (h, dm1)" "disk_ok path_of (files w) dm1"
        "base_path dm1 = base_path dm" "file_handles dm1 t = Some h"
        "\<forall>u. next_index (files w) dm1 u = next_index (files w) dm u"
        using install_opened_ok [OF ok None h c n] by blast
      have "(r, dm', w') = (Ok h, dm1, w2)"
        using run None o \<open>rh = Ok h\<close> l Inr i(1) by (simp add: get_file_handle_def)
      then show ?thesis using i w2 by auto
    qed
  qed
qed

text \<open>An operation of a page starts with the handle of its file.\<close>

lemma handle_file:
  assumes lawful and ok: "disk_ok path_of (files w) dm" and run: "get_file_handle fs t dm w = (Ok h, dm1, w1)"
  obtains c n where "disk_ok path_of (files w) dm1" and "base_path dm1 = base_path dm" and "files w1 = files w"
    and "\<forall>u. next_index (files w) dm1 u = next_index (files w) dm u"
    and "next_page_ids dm1 t = Some n" and "unat n = next_index (files w) dm t"
    and "path_of h = table_path (base_path dm) t" and "files w (table_path (base_path dm) t) = Some c"
proof -
  have h: "file_handles dm1 t = Some h" "disk_ok path_of (files w) dm1" "base_path dm1 = base_path dm"
    "files w1 = files w" "\<forall>u. next_index (files w) dm1 u = next_index (files w) dm u"
    using get_handle_outcome [OF assms(1) ok run] by simp_all
  obtain c where "files w (table_path (base_path dm) t) = Some c" using disk_okD(2) [OF h(2,1)] h(3) by auto
  moreover obtain n where n: "next_page_ids dm1 t = Some n" using disk_okD(3) [OF h(2), of t] h(1) by auto
  moreover have "unat n = next_index (files w) dm t" using next_index_cached [OF n, of "files w"] h(5) by simp
  moreover have "path_of h = table_path (base_path dm) t" using disk_okD(1) [OF h(2,1)] h(3) by simp
  ultimately show thesis using that h by blast
qed

lemma read_page_outcome:
  assumes lawful and ok: "disk_ok path_of (files w) dm"
    and run: "read_page fs p (replicate PAGE_SIZE 0) dm w = (r, buf, dm', w')"
  shows "files w' = files w \<and> disk_ok path_of (files w) dm' \<and> base_path dm' = base_path dm \<and>
    (\<forall>u. next_index (files w) dm' u = next_index (files w) dm u) \<and> length buf = PAGE_SIZE \<and>
    (r = Ok () \<longrightarrow> (\<exists>n. bytes_read fs p dm w = Some n \<and> n \<le> bytes_stored (files w) (base_path dm) p \<and>
       (n = 0 \<longrightarrow> bytes_stored (files w) (base_path dm) p = 0) \<and>
       buf = take n (page_of (files w) (base_path dm) p) @ replicate (PAGE_SIZE - n) 0))"
proof -
  obtain rh dm1 w1 where g: "get_file_handle fs (pid_table_id p) dm w = (rh, dm1, w1)"
    by (metis prod_cases3)
  show ?thesis
  proof (cases rh)
    case (Inl e)
    then show ?thesis using run get_handle_outcome [OF assms(1) ok g] g by (auto simp: read_page_def)
  next
    case (Inr h)
    obtain c where h: "disk_ok path_of (files w) dm1" "base_path dm1 = base_path dm" "files w1 = files w"
      "\<forall>u. next_index (files w) dm1 u = next_index (files w) dm u"
      and path: "path_of h = table_path (base_path dm) (pid_table_id p)"
      and c: "files w (table_path (base_path dm) (pid_table_id p)) = Some c"
      using handle_file [OF assms(1) ok g [unfolded Inr]] by metis
    have c1: "files w1 (path_of h) = Some c" using c path h(3) by simp
    obtain rc b w2 where rd: "fh_read_at fs h (replicate PAGE_SIZE 0) (page_offset (pid_page_index p)) w1 = (rc, b, w2)"
      by (metis prod_cases3)
    note law = read_law [OF assms(1) c1 rd]
    have res: "buf = b" "dm' = dm1" "w' = w2" "r = Ok () \<longrightarrow> (\<exists>n. rc = Ok n)"
      using run g Inr rd by (auto simp: read_page_def split: sum.splits)
    have "bytes_read fs p dm w = Some n \<and> n \<le> bytes_stored (files w) (base_path dm) p \<and>
       (n = 0 \<longrightarrow> bytes_stored (files w) (base_path dm) p = 0) \<and>
       buf = take n (page_of (files w) (base_path dm) p) @ replicate (PAGE_SIZE - n) 0" if n: "rc = Ok n" for n
      using law n res(1) c g Inr rd
      by (auto simp: bytes_read_def bytes_stored_def page_of_def page_of_read)
    then show ?thesis using law res h by auto
  qed
qed

lemma write_page_outcome:
  assumes lawful and ok: "disk_ok path_of (files w) dm"
    and alloc: "unat (pid_page_index p) < next_index (files w) dm (pid_table_id p)"
    and data: "length data = PAGE_SIZE" and run: "write_page fs p data dm w = (r, dm', w')"
  shows "base_path dm' = base_path dm \<and>
    (case r of
       Ok _ \<Rightarrow> disk_ok path_of (files w') dm' \<and>
         (\<forall>u. next_index (files w') dm' u = next_index (files w) dm u) \<and>
         page_of (files w') (base_path dm) = (page_of (files w) (base_path dm))(p := data)
     | Err _ \<Rightarrow> (\<forall>q. pid_table_id q = pid_table_id p \<or>
         page_of (files w') (base_path dm) q = page_of (files w) (base_path dm) q))"
proof -
  obtain rh dm1 w1 where g: "get_file_handle fs (pid_table_id p) dm w = (rh, dm1, w1)"
    by (metis prod_cases3)
  show ?thesis
  proof (cases rh)
    case (Inl e)
    then show ?thesis using run get_handle_outcome [OF assms(1) ok g] g by (auto simp: write_page_def)
  next
    case (Inr h)
    obtain c n where h: "disk_ok path_of (files w) dm1" "base_path dm1 = base_path dm" "files w1 = files w"
      "\<forall>u. next_index (files w) dm1 u = next_index (files w) dm u" "next_page_ids dm1 (pid_table_id p) = Some n"
      and path: "path_of h = table_path (base_path dm) (pid_table_id p)"
      and c: "files w (table_path (base_path dm) (pid_table_id p)) = Some c"
      using handle_file [OF assms(1) ok g [unfolded Inr]] by metis
    have c1: "files w1 (path_of h) = Some c" using c path h(3) by simp
    obtain q w2 where wr: "fh_write_at fs h data (page_offset (pid_page_index p)) w1 = (q, w2)"
      by fastforce
    note law = write_law [OF assms(1) c1 wr]
    have res: "dm' = dm1" "w' = w2" "r = (case q of Err e \<Rightarrow> Err e | Ok _ \<Rightarrow> Ok ())"
      using run g Inr wr by (auto simp: write_page_def split: sum.splits)
    show ?thesis
    proof (cases q)
      case (Inl e)
      then obtain c' where "files w2 = (files w1)(path_of h \<mapsto> c')" using law by auto
      then show ?thesis using res Inl h(2,3) path by (auto simp: page_of_def)
    next
      case (Inr u)
      then have w2: "files w2 = (files w)(table_path (base_path dm1) (pid_table_id p) \<mapsto>
          overlay c (unat (pid_page_index p) * PAGE_SIZE) data)"
        using law h(2,3) path by simp
      have "disk_ok path_of (files w2) dm1 \<and> (\<forall>u. next_index (files w2) dm1 u = next_index (files w) dm1 u)"
        by (rule write_ok [OF h(1) _ _ _ data w2]) (use c alloc h in simp_all)
      moreover have "page_of (files w2) (base_path dm) = (page_of (files w) (base_path dm))(p := data)"
        by (rule page_of_write [where d = "files w", OF c data]) (simp add: w2 h(2))
      ultimately show ?thesis using res Inr h(2,4) by simp
    qed
  qed
qed

lemma written_stored:
  assumes lawful and ok: "disk_ok path_of (files w) dm" and data: "length data = PAGE_SIZE"
    and run: "write_page fs p data dm w = (Ok u, dm', w')"
  shows "bytes_stored (files w') (base_path dm') p = PAGE_SIZE"
proof -
  obtain rh dm1 w1 where g: "get_file_handle fs (pid_table_id p) dm w = (rh, dm1, w1)"
    by (metis prod_cases3)
  then obtain h where h: "rh = Ok h" using run by (cases rh) (auto simp: write_page_def)
  obtain c where base: "base_path dm1 = base_path dm" and w1: "files w1 = files w"
    and path: "path_of h = table_path (base_path dm) (pid_table_id p)"
    and c: "files w (table_path (base_path dm) (pid_table_id p)) = Some c"
    using handle_file [OF assms(1) ok g [unfolded h]] by metis
  have c1: "files w1 (path_of h) = Some c" using c path w1 by simp
  obtain q w2 where wr: "fh_write_at fs h data (page_offset (pid_page_index p)) w1 = (q, w2)" by fastforce
  then have "dm' = dm1" "w' = w2" "\<exists>v. q = Ok v" using run g h by (auto simp: write_page_def split: sum.splits)
  then have "files w' (table_path (base_path dm') (pid_table_id p)) =
      Some (overlay c (unat (pid_page_index p) * PAGE_SIZE) data)"
    using write_law [OF assms(1) c1 wr] base path by auto
  then show ?thesis using data by (simp add: bytes_stored_def)
qed

lemma allocate_page_outcome:
  assumes lawful and ok: "disk_ok path_of (files w) dm"
  shows "\<exists>r dm' w'. allocate_page fs t dm w = Some (r, dm', w') \<and> base_path dm' = base_path dm \<and>
    (case r of
       Err _ \<Rightarrow> (\<forall>q. pid_table_id q = t \<or> page_of (files w') (base_path dm) q = page_of (files w) (base_path dm) q)
     | Ok p \<Rightarrow> p = \<lparr>pid_table_id = t, pid_page_index = of_nat (next_index (files w) dm t)\<rparr> \<and>
         (next_index (files w) dm t + 1 < 2 ^ 32 \<longrightarrow>
            unat (pid_page_index p) = next_index (files w) dm t \<and>
            disk_ok path_of (files w') dm' \<and>
            next_index (files w') dm' t = next_index (files w) dm t + 1 \<and>
            (\<forall>u. u \<noteq> t \<longrightarrow> next_index (files w') dm' u = next_index (files w) dm u) \<and>
            page_of (files w') (base_path dm) = page_of (files w) (base_path dm) \<and>
            page_of (files w') (base_path dm) p = replicate PAGE_SIZE 0))"
proof -
  obtain rh dm1 w1 where g: "get_file_handle fs t dm w = (rh, dm1, w1)" by (metis prod_cases3)
  show ?thesis
  proof (cases rh)
    case (Inl e)
    then show ?thesis using get_handle_outcome [OF assms(1) ok g] g by (auto simp: allocate_page_def)
  next
    case (Inr h)
    obtain c n where h: "disk_ok path_of (files w) dm1" "base_path dm1 = base_path dm" "files w1 = files w"
      "\<forall>u. next_index (files w) dm1 u = next_index (files w) dm u"
      and n: "next_page_ids dm1 t = Some n" "unat n = next_index (files w) dm t"
      and path: "path_of h = table_path (base_path dm) t" and c: "files w (table_path (base_path dm) t) = Some c"
      using handle_file [OF assms(1) ok g [unfolded Inr]] by metis
    define dm2 where "dm2 = dm1\<lparr>next_page_ids := (next_page_ids dm1)(t \<mapsto> n + 1)\<rparr>"
    have c1: "files w1 (path_of h) = Some c" using c path h(3) by simp
    obtain q w2 where wr: "fh_write_at fs h (replicate PAGE_SIZE 0) (page_offset n) w1 = (q, w2)"
      by fastforce
    note law = write_law [OF assms(1) c1 wr]
    have run: "allocate_page fs t dm w = Some (case q of Err e \<Rightarrow> (Err e, dm2, w2)
        | Ok _ \<Rightarrow> (Ok \<lparr>pid_table_id = t, pid_page_index = n\<rparr>, dm2, w2))"
      using g Inr n(1) wr by (simp add: allocate_page_def take_next_index_def dm2_def split: sum.split)
    have base: "base_path dm2 = base_path dm" using h(2) by (simp add: dm2_def)
    show ?thesis
    proof (cases q)
      case (Inl e)
      then obtain c' where "files w2 = (files w1)(path_of h \<mapsto> c')" using law by auto
      then show ?thesis using run Inl base h(3) path by (auto simp: page_of_def)
    next
      case (Inr u)
      have w2: "files w2 = (files w)(table_path (base_path dm1) t \<mapsto>
          overlay c (unat n * PAGE_SIZE) (replicate PAGE_SIZE 0))"
        using law Inr h(2,3) path by simp
      have c2: "files w (table_path (base_path dm1) t) = Some c" using c h(2) by simp
      note zeros = zeros_written [OF h(1) n(1) _ dm2_def c2 w2 refl, unfolded n(2) h(2)]
      have "n = of_nat (next_index (files w) dm t)" by (simp add: n(2) [symmetric])
      then show ?thesis using run Inr base zeros n(2) h(4) by auto
    qed
  qed
qed

lemma create_table_outcome:
  assumes lawful and ok: "disk_ok path_of (files w) dm" and run: "create_table_file fs t dm w = (r, dm', w')"
  shows "base_path dm' = base_path dm \<and> disk_ok path_of (files w') dm' \<and>
    page_of (files w') (base_path dm) = page_of (files w) (base_path dm) \<and>
    (case r of
       Err _ \<Rightarrow> dm' = dm \<and> files w' = files w
     | Ok _ \<Rightarrow> files w (table_path (base_path dm) t) = None \<and>
         files w' = (files w)(table_path (base_path dm) t \<mapsto> []) \<and> next_page_ids dm' t = Some 0)"
proof -
  let ?p = "table_path (base_path dm) t"
  obtain q w1 where m: "fs_create_dir_all fs (base_path dm) w = (q, w1)" by fastforce
  have w1: "files w1 = files w" by (rule dirs_law [OF assms(1) m])
  obtain rh w2 where c: "fs_create_file fs ?p w1 = (rh, w2)" by fastforce
  note law = create_law [OF assms(1) c]
  show ?thesis
  proof (cases "\<exists>u h. q = Ok u \<and> rh = Ok h")
    case False
    then have "(\<exists>e. r = Err e) \<and> dm' = dm \<and> files w' = files w"
      using run m c w1 law by (auto simp: create_table_file_def split: sum.splits)
    then show ?thesis using ok by auto
  next
    case True
    then obtain u h where h: "q = Ok u" "rh = Ok h" by blast
    then have res: "r = Ok ()" "dm' = install_created t h dm" "w' = w2"
      using run m c by (simp_all add: create_table_file_def)
    have path: "path_of h = ?p" and fresh: "files w ?p = None" and w2: "files w2 = (files w)(?p \<mapsto> [])"
      using law h w1 by simp_all
    note created = created_ok [OF ok fresh]
    have ni: "next_index (files w2) dm' v = (if v = t then 0 else next_index (files w2) dm v)" for v
      by (auto simp: next_index_def res install_created_def split: option.splits)
    have base: "base_path dm' = base_path dm" by (simp add: res install_created_def)
    have "disk_ok path_of (files w2) dm'"
    proof (rule disk_okI, unfold base)
      have ok2: "disk_ok path_of (files w2) dm" using created w2 by simp
      {
        fix v g assume "file_handles dm' v = Some g"
        then show "path_of g = table_path (base_path dm) v" "files w2 (table_path (base_path dm) v) \<noteq> None"
          using disk_okD(1,2) [OF ok2, of v g] path w2 by (auto simp: res install_created_def split: if_splits)
      next
        fix v show "file_handles dm' v = None \<longleftrightarrow> next_page_ids dm' v = None"
          using disk_okD(3) [OF ok2, of v] by (simp add: res install_created_def)
      next
        fix v e assume "files w2 (table_path (base_path dm) v) = Some e"
        then show "PAGE_SIZE dvd length e \<and> length e div PAGE_SIZE < 2 ^ 32 \<and>
            length e div PAGE_SIZE \<le> next_index (files w2) dm' v"
          using disk_okD(4,5,6) [OF ok2, of v e] by (cases "v = t") (simp add: w2, simp add: ni)
      }
    qed
    moreover have "page_of (files w2) (base_path dm) = page_of (files w) (base_path dm)"
      using fresh by (auto simp: page_of_def w2 page_beyond split: option.splits intro!: ext)
    ultimately show ?thesis using res fresh w2 base by (simp add: install_created_def)
  qed
qed

end

text \<open>The two calls that a creation of a table file makes on the tokio file system.\<close>

lemma create_table_calls:
  assumes "create_table_file (tokio_file_system os) t dm w = (r, dm', w')"
  shows "r = Ok () \<longleftrightarrow> (\<exists>u w1 g w2. os_create_dir_all os (base_path dm) w = (Ok u, w1) \<and>
    os_open os (open_options_new\<lparr>oo_read := True, oo_write := True, oo_create_new := True\<rparr>)
      (table_path (base_path dm) t) w1 = (Ok g, w2))"
proof -
  obtain q w1 where m: "os_create_dir_all os (base_path dm) w = (q, w1)" by fastforce
  obtain rg w2 where o: "os_open os (open_options_new\<lparr>oo_read := True, oo_write := True, oo_create_new := True\<rparr>)
      (table_path (base_path dm) t) w1 = (rg, w2)" by fastforce
  show ?thesis using assms m o
    by (cases q; cases rg)
      (auto simp: create_table_file_def tokio_file_system_def tokio_create_dir_all_def tokio_create_file_def)
qed

section \<open>The contract for the buffer pool\<close>

text \<open>
  The disk as the buffer pool sees it: a page for every identifier, of which those below the next
  index of their table are allocated. A failed operation promises nothing about the later state, and
  a read returns the page only if it is \<open>whole\<close>, that is not cut short.
\<close>

locale page_store =
  fixes allocate :: "u32 \<Rightarrow> 's \<Rightarrow> ((io_error, page_id) rust_result \<times> 's) option"
    and get :: "page_id \<Rightarrow> bytes \<Rightarrow> 's \<Rightarrow> (io_error, unit) rust_result \<times> bytes \<times> 's"
    and store :: "page_id \<Rightarrow> bytes \<Rightarrow> 's \<Rightarrow> (io_error, unit) rust_result \<times> 's"
    and good :: bool
    and whole :: "page_id \<Rightarrow> 's \<Rightarrow> bool"
    and ok :: "'s \<Rightarrow> bool"
    and content :: "'s \<Rightarrow> page_id \<Rightarrow> bytes"
    and next_of :: "'s \<Rightarrow> u32 \<Rightarrow> nat"
  assumes read_law: "good \<Longrightarrow> ok s \<Longrightarrow> get p (replicate PAGE_SIZE 0) s = (r, buf, s') \<Longrightarrow>
      ok s' \<and> content s' = content s \<and> next_of s' = next_of s \<and> length buf = PAGE_SIZE \<and>
      (r = Ok () \<and> whole p s \<longrightarrow> buf = content s p)"
    and write_law: "good \<Longrightarrow> ok s \<Longrightarrow> unat (pid_page_index p) < next_of s (pid_table_id p) \<Longrightarrow>
      length data = PAGE_SIZE \<Longrightarrow> store p data s = (Ok u, s') \<Longrightarrow>
      ok s' \<and> content s' = (content s)(p := data) \<and> next_of s' = next_of s"
    and allocate_law: "good \<Longrightarrow> ok s \<Longrightarrow> \<exists>r s'. allocate t s = Some (r, s') \<and>
      (case r of Err _ \<Rightarrow> True
       | Ok p \<Rightarrow> next_of s t + 1 < 2 ^ 32 \<longrightarrow>
           p = \<lparr>pid_table_id = t, pid_page_index = of_nat (next_of s t)\<rparr> \<and>
           ok s' \<and> content s' = content s \<and> content s p = replicate PAGE_SIZE 0 \<and>
           next_of s' = (next_of s)(t := next_of s t + 1))"
begin

text \<open>Two allocations in a row never return the same page.\<close>

lemma allocate_distinct:
  assumes good and "ok s" and "allocate t s = Some (Ok p, s1)" and "allocate u s1 = Some (Ok q, s2)"
    and "next_of s t + 1 < 2 ^ 32" and "next_of s1 u + 1 < 2 ^ 32"
  shows "p \<noteq> q"
proof -
  obtain r s1' where "allocate t s = Some (r, s1')" and r: "case r of Err _ \<Rightarrow> True
       | Ok p \<Rightarrow> next_of s t + 1 < 2 ^ 32 \<longrightarrow>
           p = \<lparr>pid_table_id = t, pid_page_index = of_nat (next_of s t)\<rparr> \<and>
           ok s1' \<and> content s1' = content s \<and> content s p = replicate PAGE_SIZE 0 \<and>
           next_of s1' = (next_of s)(t := next_of s t + 1)"
    using allocate_law [OF assms(1,2), of t] by blast
  then have p: "p = \<lparr>pid_table_id = t, pid_page_index = of_nat (next_of s t)\<rparr>" "ok s1"
    "next_of s1 = (next_of s)(t := next_of s t + 1)"
    using assms(3,5) by auto
  obtain r2 s2' where "allocate u s1 = Some (r2, s2')" and "case r2 of Err _ \<Rightarrow> True
       | Ok p \<Rightarrow> next_of s1 u + 1 < 2 ^ 32 \<longrightarrow>
           p = \<lparr>pid_table_id = u, pid_page_index = of_nat (next_of s1 u)\<rparr> \<and>
           ok s2' \<and> content s2' = content s1 \<and> content s1 p = replicate PAGE_SIZE 0 \<and>
           next_of s2' = (next_of s1)(u := next_of s1 u + 1)"
    using allocate_law [OF assms(1) p(2), of u] by blast
  then have q: "q = \<lparr>pid_table_id = u, pid_page_index = of_nat (next_of s1 u)\<rparr>"
    using assms(4,6) by auto
  have "unat (of_nat (next_of s t) :: u32) = next_of s t" "unat (of_nat (next_of s1 u) :: u32) = next_of s1 u"
    using assms(5,6) by (simp_all add: unat_of_nat take_bit_nat_eq_self)
  then show ?thesis using p q by (metis Suc_eq_plus1 fun_upd_same n_not_Suc_n page_id.select_convs(1,2))
qed

end

lemma page_of_stored:
  "take (bytes_stored d base p) (page_of d base p) @ replicate (PAGE_SIZE - bytes_stored d base p) 0 = page_of d base p"
  by (simp add: bytes_stored_def page_of_def page_of_whole split: option.split)

text \<open>The disk manager on any file store that keeps the contract of the traits is a page store.\<close>

type_synonym ('w, 'h) disk_state = "'h disk_manager \<times> 'w"

definition disk_allocate ::
  "('w, 'h) file_system \<Rightarrow> u32 \<Rightarrow> ('w, 'h) disk_state \<Rightarrow>
   ((io_error, page_id) rust_result \<times> ('w, 'h) disk_state) option" where
  "disk_allocate fs t s = allocate_page fs t (fst s) (snd s)"

definition disk_read ::
  "('w, 'h) file_system \<Rightarrow> page_id \<Rightarrow> bytes \<Rightarrow> ('w, 'h) disk_state \<Rightarrow>
   (io_error, unit) rust_result \<times> bytes \<times> ('w, 'h) disk_state" where
  "disk_read fs p buffer s = read_page fs p buffer (fst s) (snd s)"

definition disk_write ::
  "('w, 'h) file_system \<Rightarrow> page_id \<Rightarrow> bytes \<Rightarrow> ('w, 'h) disk_state \<Rightarrow>
   (io_error, unit) rust_result \<times> ('w, 'h) disk_state" where
  "disk_write fs p buffer s = write_page fs p buffer (fst s) (snd s)"

definition disk_state_ok ::
  "('w \<Rightarrow> disk) \<Rightarrow> ('h \<Rightarrow> path) \<Rightarrow> ('w, 'h) disk_state \<Rightarrow> bool" where
  "disk_state_ok files path_of s \<longleftrightarrow> disk_ok path_of (files (snd s)) (fst s)"

definition disk_whole ::
  "('w, 'h) file_system \<Rightarrow> ('w \<Rightarrow> disk) \<Rightarrow> page_id \<Rightarrow> ('w, 'h) disk_state \<Rightarrow> bool" where
  "disk_whole fs files p s \<longleftrightarrow>
     (case bytes_read fs p (fst s) (snd s) of
        None \<Rightarrow> True
      | Some n \<Rightarrow> n = bytes_stored (files (snd s)) (base_path (fst s)) p)"

definition disk_content :: "('w \<Rightarrow> disk) \<Rightarrow> ('w, 'h) disk_state \<Rightarrow> page_id \<Rightarrow> bytes" where
  "disk_content files s = page_of (files (snd s)) (base_path (fst s))"

definition disk_next :: "('w \<Rightarrow> disk) \<Rightarrow> ('w, 'h) disk_state \<Rightarrow> u32 \<Rightarrow> nat" where
  "disk_next files s = next_index (files (snd s)) (fst s)"

lemmas disk_state_defs = disk_allocate_def disk_read_def disk_write_def disk_state_ok_def
  disk_content_def disk_next_def disk_whole_def

sublocale file_store \<subseteq> disk: page_store "disk_allocate fs" "disk_read fs" "disk_write fs" lawful
  "disk_whole fs files" "disk_state_ok files path_of" "disk_content files" "disk_next files"
proof (unfold_locales, goal_cases)
  case (1 s p r buf s')
  have "read_page fs p (replicate PAGE_SIZE 0) (fst s) (snd s) = (r, buf, fst s', snd s')"
    using 1(3) by (simp add: disk_read_def)
  from read_page_outcome [OF 1(1) _ this] show ?case
    using 1(2) page_of_stored [of "files (snd s)" "base_path (fst s)" p]
    by (auto simp: disk_state_defs intro!: ext)
next
  case (2 s p data u s')
  have "write_page fs p data (fst s) (snd s) = (Ok u, fst s', snd s')"
    using 2(5) by (simp add: disk_write_def)
  from write_page_outcome [OF 2(1) _ _ 2(4) this] show ?case
    using 2(2,3) by (auto simp: disk_state_defs intro!: ext)
next
  case (3 s t)
  obtain r dm' w' where "allocate_page fs t (fst s) (snd s) = Some (r, dm', w')"
    and out: "base_path dm' = base_path (fst s)" "case r of Err _ \<Rightarrow> True
     | Ok p \<Rightarrow> p = \<lparr>pid_table_id = t, pid_page_index = of_nat (next_index (files (snd s)) (fst s) t)\<rparr> \<and>
         (next_index (files (snd s)) (fst s) t + 1 < 2 ^ 32 \<longrightarrow>
            disk_ok path_of (files w') dm' \<and>
            next_index (files w') dm' t = next_index (files (snd s)) (fst s) t + 1 \<and>
            (\<forall>u. u \<noteq> t \<longrightarrow> next_index (files w') dm' u = next_index (files (snd s)) (fst s) u) \<and>
            page_of (files w') (base_path (fst s)) = page_of (files (snd s)) (base_path (fst s)) \<and>
            page_of (files w') (base_path (fst s)) p = replicate PAGE_SIZE 0)"
    using allocate_page_outcome [OF 3(1), of "snd s" "fst s" t] 3(2)
    by (fastforce simp: disk_state_ok_def split: sum.splits)
  then have run: "disk_allocate fs t s = Some (r, (dm', w'))" by (simp add: disk_allocate_def)
  show ?case
  proof (intro exI conjI)
    show "disk_allocate fs t s = Some (r, (dm', w'))" by (rule run)
    show "case r of Err _ \<Rightarrow> True
       | Ok p \<Rightarrow> disk_next files s t + 1 < 2 ^ 32 \<longrightarrow>
           p = \<lparr>pid_table_id = t, pid_page_index = of_nat (disk_next files s t)\<rparr> \<and>
           disk_state_ok files path_of (dm', w') \<and>
           disk_content files (dm', w') = disk_content files s \<and>
           disk_content files s p = replicate PAGE_SIZE 0 \<and>
           disk_next files (dm', w') = (disk_next files s)(t := disk_next files s t + 1)"
    proof (cases r)
      case (Inr p)
      then show ?thesis using out by (auto simp: disk_state_defs intro!: ext)
    qed simp
  qed
qed

interpretation tokio_disk: page_store "disk_allocate (tokio_file_system os)"
  "disk_read (tokio_file_system os)" "disk_write (tokio_file_system os)"
  "os_documented os files path_of cursor" "disk_whole (tokio_file_system os) files"
  "disk_state_ok files (\<lambda>h. path_of (tokio_file h))" "disk_content files" "disk_next files"
  for os :: "('w, 'f) os_fs" and files path_of cursor
  by (rule tokio.disk.page_store_axioms)

section \<open>Properties\<close>

text \<open>
  C32: allocation on a well-formed disk never panics; when it succeeds and the table has room, it
  returns the next index of the table, no earlier page changes, the new page reads as zeros, and
  the next allocation takes the index after it.
\<close>

theorem allocate_page_correct:
  fixes os :: "('w, 'f) os_fs"
  assumes "os_documented os files path_of cursor"
    and "disk_ok (\<lambda>h. path_of (tokio_file h)) (files w) dm" and "next_index (files w) dm t + 1 < 2 ^ 32"
  shows "\<exists>r dm' w'. allocate_page (tokio_file_system os) t dm w = Some (r, dm', w') \<and>
    (case r of Err _ \<Rightarrow> True
     | Ok p \<Rightarrow> p = \<lparr>pid_table_id = t, pid_page_index = of_nat (next_index (files w) dm t)\<rparr> \<and>
         disk_ok (\<lambda>h. path_of (tokio_file h)) (files w') dm' \<and>
         next_index (files w') dm' = (next_index (files w) dm)(t := next_index (files w) dm t + 1) \<and>
         page_of (files w') (base_path dm') = page_of (files w) (base_path dm) \<and>
         page_of (files w') (base_path dm') p = replicate PAGE_SIZE 0)"
proof -
  obtain r dm' w' where run: "allocate_page (tokio_file_system os) t dm w = Some (r, dm', w')"
    and base: "base_path dm' = base_path dm"
    and out: "case r of
       Err _ \<Rightarrow> (\<forall>q. pid_table_id q = t \<or> page_of (files w') (base_path dm) q = page_of (files w) (base_path dm) q)
     | Ok p \<Rightarrow> p = \<lparr>pid_table_id = t, pid_page_index = of_nat (next_index (files w) dm t)\<rparr> \<and>
         (next_index (files w) dm t + 1 < 2 ^ 32 \<longrightarrow>
            unat (pid_page_index p) = next_index (files w) dm t \<and>
            disk_ok (\<lambda>h. path_of (tokio_file h)) (files w') dm' \<and>
            next_index (files w') dm' t = next_index (files w) dm t + 1 \<and>
            (\<forall>u. u \<noteq> t \<longrightarrow> next_index (files w') dm' u = next_index (files w) dm u) \<and>
            page_of (files w') (base_path dm) = page_of (files w) (base_path dm) \<and>
            page_of (files w') (base_path dm) p = replicate PAGE_SIZE 0)"
    using tokio.allocate_page_outcome [OF assms(1,2), of t] by blast
  show ?thesis
  proof (cases r)
    case (Inr p)
    then show ?thesis using run out base assms(3) by (auto intro!: ext)
  qed (use run in auto)
qed

text \<open>
  C33: what a read of a page returns after a write of the page. \<open>read_page\<close> does not look at the number of
  bytes it was given: the buffer has the first \<open>n\<close> bytes that were written, for the number \<open>n\<close> that it
  drops, which is positive but may be less than a page, and zeros behind them; it is the page that was
  written if the read was not cut short. Every other page of every table is as it was.
\<close>

theorem write_read_page:
  fixes os :: "('w, 'f) os_fs"
  assumes doc: "os_documented os files path_of cursor"
    and ok: "disk_ok (\<lambda>h. path_of (tokio_file h)) (files w) dm"
    and alloc: "unat (pid_page_index p) < next_index (files w) dm (pid_table_id p)"
    and data: "length data = PAGE_SIZE"
    and wr: "write_page (tokio_file_system os) p data dm w = (Ok u, dm1, w1)"
    and rd: "read_page (tokio_file_system os) p (replicate PAGE_SIZE 0) dm1 w1 = (Ok v, buf, dm2, w2)"
  shows "(\<exists>n. bytes_read (tokio_file_system os) p dm1 w1 = Some n \<and> 0 < n \<and> n \<le> PAGE_SIZE \<and>
      buf = take n data @ replicate (PAGE_SIZE - n) 0 \<and> (n = PAGE_SIZE \<longrightarrow> buf = data)) \<and>
    disk_ok (\<lambda>h. path_of (tokio_file h)) (files w2) dm2 \<and>
    page_of (files w2) (base_path dm2) = (page_of (files w) (base_path dm))(p := data)"
proof -
  note out = tokio.write_page_outcome [OF doc ok alloc data wr]
  then have ok1: "disk_ok (\<lambda>h. path_of (tokio_file h)) (files w1) dm1" by simp
  have "bytes_stored (files w1) (base_path dm1) p = PAGE_SIZE"
    by (rule tokio.written_stored [OF doc ok data wr])
  note read = tokio.read_page_outcome [OF doc ok1 rd, unfolded this]
  then obtain n where n: "bytes_read (tokio_file_system os) p dm1 w1 = Some n" "n \<le> PAGE_SIZE" "n \<noteq> 0"
    "buf = take n (page_of (files w1) (base_path dm1) p) @ replicate (PAGE_SIZE - n) 0"
    by auto
  have "page_of (files w1) (base_path dm1) p = data" using out by simp
  then show ?thesis using n read out data by auto
qed

text \<open>
  C34: the index counter wraps around: the allocation after the last index of a table returns index 0
  again and overwrites page 0 with zeros. The conversion that should stop it is from u32 to u32 and
  never fails.
\<close>

theorem allocate_page_wraps:
  fixes os :: "('w, 'f) os_fs"
  assumes "os_documented os files path_of cursor"
    and "disk_ok (\<lambda>h. path_of (tokio_file h)) (files w) dm"
    and "next_page_ids dm t = Some (- 1)"
    and "allocate_page (tokio_file_system os) t dm w = Some (Ok p, dm1, w1)"
    and "allocate_page (tokio_file_system os) t dm1 w1 = Some (Ok q, dm2, w2)"
  shows "p = \<lparr>pid_table_id = t, pid_page_index = - 1\<rparr> \<and> q = \<lparr>pid_table_id = t, pid_page_index = 0\<rparr> \<and>
    page_of (files w2) (base_path dm) q = replicate PAGE_SIZE 0"
proof -
  obtain h where h: "file_handles dm t = Some h" using disk_okD(3) [OF assms(2), of t] assms(3) by auto
  obtain c where path: "path_of (tokio_file h) = table_path (base_path dm) t"
    and c: "files w (table_path (base_path dm) t) = Some c"
    using disk_okD(1,2) [OF assms(2) h] by blast
  let ?fs = "tokio_file_system os" and ?zero = "replicate PAGE_SIZE (0 :: u8)"
  obtain r1 v1 where w1: "fh_write_at ?fs h ?zero (page_offset (- 1)) w = (r1, v1)" by fastforce
  have one: "p = \<lparr>pid_table_id = t, pid_page_index = - 1\<rparr>" "w1 = v1" "\<exists>u. r1 = Ok u"
    "dm1 = dm\<lparr>next_page_ids := (next_page_ids dm)(t \<mapsto> 0)\<rparr>"
    using assms(3,4) h w1
    by (auto simp: allocate_page_def get_file_handle_def take_next_index_def split: sum.splits)
  then obtain c1 where c1: "files w1 (path_of (tokio_file h)) = Some c1"
    using tokio.write_law [OF assms(1) _ w1, of c] c path by auto
  obtain r2 v2 where w2: "fh_write_at ?fs h ?zero (page_offset 0) w1 = (r2, v2)" by fastforce
  have two: "q = \<lparr>pid_table_id = t, pid_page_index = 0\<rparr>" "w2 = v2" "\<exists>u. r2 = Ok u"
    using assms(5) h w2 one(4)
    by (auto simp: allocate_page_def get_file_handle_def take_next_index_def split: sum.splits)
  then have "files w2 (table_path (base_path dm) t) = Some (overlay c1 0 ?zero)"
    using tokio.write_law [OF assms(1) c1 w2] path by auto
  then show ?thesis using one(1) two(1) page_overlay [of ?zero c1 0 0] by (simp add: page_of_def)
qed

text \<open>
  C35: creating a table file succeeds exactly when the directory of the tables can be created, with the
  directories above it, and the path of the table can then be opened as a new file, which is never so
  when the file exists. Then the table is empty, its handle is cached and its next page is 0;
  otherwise neither the manager nor any file changes. The pages of every table stay what they were
  and the state stays well-formed.
\<close>

theorem create_table_file_correct:
  fixes os :: "('w, 'f) os_fs"
  assumes "os_documented os files path_of cursor"
    and "disk_ok (\<lambda>h. path_of (tokio_file h)) (files w) dm"
    and "create_table_file (tokio_file_system os) t dm w = (r, dm', w')"
  shows "disk_ok (\<lambda>h. path_of (tokio_file h)) (files w') dm' \<and>
    page_of (files w') (base_path dm) = page_of (files w) (base_path dm) \<and>
    (r = Ok () \<longleftrightarrow> (\<exists>u w1 g w2. os_create_dir_all os (base_path dm) w = (Ok u, w1) \<and>
       os_open os (open_options_new\<lparr>oo_read := True, oo_write := True, oo_create_new := True\<rparr>)
         (table_path (base_path dm) t) w1 = (Ok g, w2))) \<and>
    (case r of
       Err _ \<Rightarrow> dm' = dm \<and> files w' = files w
     | Ok _ \<Rightarrow> files w (table_path (base_path dm) t) = None \<and>
         files w' = (files w)(table_path (base_path dm) t \<mapsto> []) \<and> next_page_ids dm' t = Some 0)"
proof (intro conjI)
  note out = tokio.create_table_outcome [OF assms]
  show "disk_ok (\<lambda>h. path_of (tokio_file h)) (files w') dm'"
    "page_of (files w') (base_path dm) = page_of (files w) (base_path dm)" using out by simp_all
  show "r = Ok () \<longleftrightarrow> (\<exists>u w1 g w2. os_create_dir_all os (base_path dm) w = (Ok u, w1) \<and>
       os_open os (open_options_new\<lparr>oo_read := True, oo_write := True, oo_create_new := True\<rparr>)
         (table_path (base_path dm) t) w1 = (Ok g, w2))"
    by (rule create_table_calls [OF assms(3)])
  show "case r of
       Err _ \<Rightarrow> dm' = dm \<and> files w' = files w
     | Ok _ \<Rightarrow> files w (table_path (base_path dm) t) = None \<and>
         files w' = (files w)(table_path (base_path dm) t \<mapsto> []) \<and> next_page_ids dm' t = Some 0"
    using out by (simp split: sum.splits)
qed

text \<open>
  C36: creating a table file is not atomic: the file exists before its handle and its counter are
  installed. A page allocated in between by another task, and written by it, is allocated a second
  time and overwritten with zeros, because the installation resets the counter to 0.
\<close>

theorem create_table_race:
  fixes os :: "('w, 'f) os_fs"
  assumes doc: "os_documented os files path_of cursor"
    and ok: "disk_ok (\<lambda>h. path_of (tokio_file h)) (files w) dm"
    and created: "fs_create_file (tokio_file_system os) (table_path (base_path dm) t) w = (Ok h, w1)"
    and other: "allocate_page (tokio_file_system os) t dm w1 = Some (Ok p, dm1, w2)"
    and wr: "write_page (tokio_file_system os) p data dm1 w2 = (Ok u, dm2, w3)"
    and data: "length data = PAGE_SIZE"
    and again: "allocate_page (tokio_file_system os) t (install_created t h dm2) w3 = Some (Ok q, dm3, w4)"
  shows "q = p \<and> page_of (files w3) (base_path dm) p = data \<and>
    page_of (files w4) (base_path dm) p = replicate PAGE_SIZE 0"
proof -
  let ?path = "table_path (base_path dm) t"
  have law: "path_of (tokio_file h) = ?path" "files w ?path = None" "files w1 = (files w)(?path \<mapsto> [])"
    using tokio.create_law [OF doc created] by simp_all
  have ok1: "disk_ok (\<lambda>h. path_of (tokio_file h)) (files w1) dm" and zero: "next_index (files w1) dm t = 0"
    using created_ok [OF ok law(2)] law(3) by simp_all
  have p: "p = \<lparr>pid_table_id = t, pid_page_index = 0\<rparr>" "base_path dm1 = base_path dm"
    and ok2: "disk_ok (\<lambda>h. path_of (tokio_file h)) (files w2) dm1"
    and one: "next_index (files w2) dm1 t = 1"
    using tokio.allocate_page_outcome [OF doc ok1, of t] other zero by auto
  have alloc: "unat (pid_page_index p) < next_index (files w2) dm1 (pid_table_id p)" using p one by simp
  note out = tokio.write_page_outcome [OF doc ok2 alloc data wr]
  then have w3: "page_of (files w3) (base_path dm) p = data" using p by simp
  have ok3: "disk_ok (\<lambda>h. path_of (tokio_file h)) (files w3) dm2" and base2: "base_path dm2 = base_path dm"
    using out p by simp_all
  have "\<exists>c. files w3 ?path = Some c"
  proof -
    obtain g dm' w' where g: "get_file_handle (tokio_file_system os) t dm1 w2 = (g, dm', w')"
      by (metis prod_cases3)
    then have "(\<exists>h. g = Ok h) \<and> dm2 = dm'"
      using wr p(1) by (auto simp: write_page_def split: sum.splits prod.splits)
    then have "file_handles dm2 t \<noteq> None"
      using tokio.get_handle_outcome [OF doc ok2 g] by auto
    then show ?thesis using disk_okD(2) [OF ok3, of t] base2 by auto
  qed
  then obtain c where c: "files w3 (path_of (tokio_file h)) = Some c" using law(1) by auto
  let ?zero = "replicate PAGE_SIZE (0 :: u8)"
  obtain r v where w4: "fh_write_at (tokio_file_system os) h ?zero (page_offset 0) w3 = (r, v)" by fastforce
  have "q = \<lparr>pid_table_id = t, pid_page_index = 0\<rparr> \<and> w4 = v \<and> (\<exists>u. r = Ok u)"
    using again w4
    by (auto simp: allocate_page_def get_file_handle_def take_next_index_def install_created_def split: sum.splits)
  then have "q = p" "files w4 ?path = Some (overlay c 0 ?zero)"
    using tokio.write_law [OF doc c w4] law(1) p by auto
  then show ?thesis using w3 p page_overlay [of ?zero c 0 0] by (simp add: page_of_def)
qed

section \<open>Witnesses\<close>

text \<open>Table 7 in the directory \<open>db\<close>, on the file system in memory.\<close>

definition example_path :: path where "example_path = table_path [''db''] 7"

definition example_handle :: "path tokio_file_handle" where
  "example_handle = TokioFileHandle example_path"

definition example_disk :: "bytes \<Rightarrow> memory" where
  "example_disk c = \<lparr>mem_files = [example_path \<mapsto> c], mem_cursor = \<lambda>_. 0\<rparr>"

definition example_manager :: "u32 \<Rightarrow> path tokio_file_handle disk_manager" where
  "example_manager n = \<lparr>base_path = [''db''], file_handles = [7 \<mapsto> example_handle], next_page_ids = [7 \<mapsto> n]\<rparr>"

definition example_new :: "path tokio_file_handle disk_manager" where
  "example_new = disk_manager_new [''db'']"

abbreviation memory_system :: "(memory, path tokio_file_handle) file_system" where
  "memory_system \<equiv> tokio_file_system memory_fs"

lemmas disk_run_defs = allocate_page_def get_file_handle_def take_next_index_def install_opened_def
  read_page_def write_page_def tokio_defs memory_defs Let_def

lemma example_disk_ok:
  assumes "PAGE_SIZE dvd length c" and "length c div PAGE_SIZE \<le> unat n"
  shows "disk_ok tokio_file (mem_files (example_disk c)) (example_manager n)"
proof (rule disk_okI)
  fix t e assume "mem_files (example_disk c) (table_path (base_path (example_manager n)) t) = Some e"
  then have "t = 7" "e = c"
    by (simp_all add: example_disk_def example_manager_def example_path_def split: if_splits)
  then show "PAGE_SIZE dvd length e \<and> length e div PAGE_SIZE < 2 ^ 32 \<and>
      length e div PAGE_SIZE \<le> next_index (mem_files (example_disk c)) (example_manager n) t"
    using assms order_le_less_trans [OF assms(2) unat_u32_less [of n]]
    by (simp add: next_index_def example_manager_def)
qed (auto simp: example_manager_def example_disk_def example_handle_def example_path_def split: if_splits)

lemma example_fresh_ok: "disk_ok tokio_file (mem_files (example_disk [])) example_new"
  by (rule disk_okI)
    (auto simp: example_new_def disk_manager_new_def example_disk_def example_path_def next_index_def split: if_splits)

lemma example_allocate:
  "\<exists>dm' w'. allocate_page memory_system 7 example_new (example_disk []) =
     Some (Ok \<lparr>pid_table_id = 7, pid_page_index = 0\<rparr>, dm', w')"
  by (simp add: disk_run_defs example_new_def disk_manager_new_def example_disk_def example_path_def)

theorem allocate_page_correct_witness:
  "\<exists>dm' w'. allocate_page memory_system 7 example_new (example_disk []) =
     Some (Ok \<lparr>pid_table_id = 7, pid_page_index = 0\<rparr>, dm', w') \<and>
     next_index (mem_files w') dm' 7 = 1"
proof -
  have zero: "next_index (mem_files (example_disk [])) example_new 7 = 0"
    by (simp add: next_index_def example_new_def disk_manager_new_def example_disk_def example_path_def)
  obtain dm' w' where run: "allocate_page memory_system 7 example_new (example_disk []) =
     Some (Ok \<lparr>pid_table_id = 7, pid_page_index = 0\<rparr>, dm', w')"
    using example_allocate by blast
  have room: "next_index (mem_files (example_disk [])) example_new 7 + 1 < 2 ^ 32"
    using zero by simp
  show ?thesis
    using allocate_page_correct [OF memory_documented example_fresh_ok room] run zero by auto
qed

lemma example_write_read:
  fixes data :: bytes
  defines "s \<equiv> example_disk (replicate PAGE_SIZE 0)"
    and "p \<equiv> \<lparr>pid_table_id = 7, pid_page_index = 0\<rparr>"
  shows "\<exists>dm1 w1 buf dm2 w2. write_page memory_system p data (example_manager 1) s = (Ok (), dm1, w1) \<and>
    read_page memory_system p (replicate PAGE_SIZE 0) dm1 w1 = (Ok (), buf, dm2, w2)"
  by (simp add: disk_run_defs example_manager_def example_handle_def example_disk_def s_def p_def)

theorem write_read_page_witness:
  "\<exists>dm1 w1 dm2 w2. write_page memory_system \<lparr>pid_table_id = 7, pid_page_index = 0\<rparr> (replicate PAGE_SIZE 9)
       (example_manager 1) (example_disk (replicate PAGE_SIZE 0)) = (Ok (), dm1, w1) \<and>
     read_page memory_system \<lparr>pid_table_id = 7, pid_page_index = 0\<rparr> (replicate PAGE_SIZE 0) dm1 w1 =
       (Ok (), replicate PAGE_SIZE 9, dm2, w2)"
proof -
  let ?p = "\<lparr>pid_table_id = 7, pid_page_index = 0\<rparr>"
  obtain dm1 w1 buf dm2 w2 where wr: "write_page memory_system ?p (replicate PAGE_SIZE 9)
       (example_manager 1) (example_disk (replicate PAGE_SIZE 0)) = (Ok (), dm1, w1)"
    and rd: "read_page memory_system ?p (replicate PAGE_SIZE 0) dm1 w1 = (Ok (), buf, dm2, w2)"
    using example_write_read [where data = "replicate PAGE_SIZE 9"] by (elim exE conjE)
  have ok: "disk_ok tokio_file (mem_files (example_disk (replicate PAGE_SIZE 0))) (example_manager 1)"
    by (rule example_disk_ok) simp_all
  have alloc: "unat (pid_page_index ?p) <
      next_index (mem_files (example_disk (replicate PAGE_SIZE 0))) (example_manager 1) (pid_table_id ?p)"
    by (simp add: next_index_def example_manager_def)
  have count: "bytes_read memory_system ?p dm1 w1 = Some PAGE_SIZE"
    using wr by (auto simp: bytes_read_def disk_run_defs example_manager_def example_handle_def example_disk_def)
  have "buf = replicate PAGE_SIZE 9"
    using write_read_page [OF memory_documented ok alloc _ wr rd] count by auto
  then show ?thesis using wr rd by blast
qed

lemma example_wrap:
  "\<exists>dm1 w1 dm2 w2. allocate_page memory_system 7 (example_manager (- 1)) (example_disk []) =
      Some (Ok \<lparr>pid_table_id = 7, pid_page_index = - 1\<rparr>, dm1, w1) \<and>
    allocate_page memory_system 7 dm1 w1 = Some (Ok \<lparr>pid_table_id = 7, pid_page_index = 0\<rparr>, dm2, w2)"
  by (simp add: disk_run_defs example_manager_def example_handle_def example_disk_def)

theorem allocate_page_wraps_witness:
  "\<exists>dm1 w1 dm2 w2. allocate_page memory_system 7 (example_manager (- 1)) (example_disk []) =
      Some (Ok \<lparr>pid_table_id = 7, pid_page_index = - 1\<rparr>, dm1, w1) \<and>
    allocate_page memory_system 7 dm1 w1 = Some (Ok \<lparr>pid_table_id = 7, pid_page_index = 0\<rparr>, dm2, w2) \<and>
    page_of (mem_files w2) [''db''] \<lparr>pid_table_id = 7, pid_page_index = 0\<rparr> = replicate PAGE_SIZE 0"
proof -
  obtain dm1 w1 dm2 w2 where one: "allocate_page memory_system 7 (example_manager (- 1)) (example_disk []) =
      Some (Ok \<lparr>pid_table_id = 7, pid_page_index = - 1\<rparr>, dm1, w1)"
    and two: "allocate_page memory_system 7 dm1 w1 =
      Some (Ok \<lparr>pid_table_id = 7, pid_page_index = 0\<rparr>, dm2, w2)"
    using example_wrap by (elim exE conjE)
  have ok: "disk_ok tokio_file (mem_files (example_disk [])) (example_manager (- 1))"
    by (rule example_disk_ok) simp_all
  have last: "next_page_ids (example_manager (- 1)) 7 = Some (- 1)" by (simp add: example_manager_def)
  have "page_of (mem_files w2) (base_path (example_manager (- 1))) \<lparr>pid_table_id = 7, pid_page_index = 0\<rparr> =
      replicate PAGE_SIZE 0"
    using allocate_page_wraps [OF memory_documented ok last one two] by (elim conjE)
  then show ?thesis using one two by (auto simp: example_manager_def)
qed

theorem create_table_file_correct_witness:
  "\<exists>dm' w'. create_table_file memory_system 7 example_new memory_empty = (Ok (), dm', w') \<and>
     next_page_ids dm' 7 = Some 0 \<and> mem_files w' example_path = Some []"
proof -
  have ok: "disk_ok tokio_file (mem_files memory_empty) example_new"
    by (rule disk_okI) (simp_all add: example_new_def disk_manager_new_def memory_empty_def)
  have "\<exists>dm' w'. create_table_file memory_system 7 example_new memory_empty = (Ok (), dm', w')"
    by (simp add: create_table_file_def disk_run_defs)
  then obtain dm' w' where run:
    "create_table_file memory_system 7 example_new memory_empty = (Ok (), dm', w')" by blast
  have "next_page_ids dm' 7 = Some 0" and
    w': "mem_files w' = (mem_files memory_empty)(table_path (base_path example_new) 7 \<mapsto> [])"
    using create_table_file_correct [OF memory_documented ok run] by (auto simp only: sum.case)
  moreover have "mem_files w' example_path = Some []"
    unfolding w' by (simp add: example_new_def disk_manager_new_def example_path_def)
  ultimately show ?thesis using run by blast
qed

lemma example_race:
  fixes data :: bytes
  defines "p \<equiv> \<lparr>pid_table_id = 7, pid_page_index = 0\<rparr>" and "dm \<equiv> example_new"
  shows "\<exists>w1 dm1 w2 dm2 w3 dm3 w4.
    fs_create_file memory_system example_path memory_empty = (Ok example_handle, w1) \<and>
    allocate_page memory_system 7 dm w1 = Some (Ok p, dm1, w2) \<and>
    write_page memory_system p data dm1 w2 = (Ok (), dm2, w3) \<and>
    allocate_page memory_system 7 (install_created 7 example_handle dm2) w3 = Some (Ok p, dm3, w4)"
  by (simp add: disk_run_defs install_created_def example_new_def disk_manager_new_def example_path_def
      example_handle_def p_def dm_def)

theorem create_table_race_witness:
  "\<exists>w1 dm1 w2 dm2 w3 dm3 w4.
    fs_create_file memory_system example_path memory_empty = (Ok example_handle, w1) \<and>
    allocate_page memory_system 7 example_new w1 =
      Some (Ok \<lparr>pid_table_id = 7, pid_page_index = 0\<rparr>, dm1, w2) \<and>
    write_page memory_system \<lparr>pid_table_id = 7, pid_page_index = 0\<rparr> (replicate PAGE_SIZE 9) dm1 w2 =
      (Ok (), dm2, w3) \<and>
    allocate_page memory_system 7 (install_created 7 example_handle dm2) w3 =
      Some (Ok \<lparr>pid_table_id = 7, pid_page_index = 0\<rparr>, dm3, w4) \<and>
    page_of (mem_files w4) [''db''] \<lparr>pid_table_id = 7, pid_page_index = 0\<rparr> = replicate PAGE_SIZE 0"
proof -
  let ?p = "\<lparr>pid_table_id = 7, pid_page_index = 0\<rparr>" and ?dm = "example_new"
  obtain w1 dm1 w2 dm2 w3 dm3 w4 where
    one: "fs_create_file memory_system example_path memory_empty = (Ok example_handle, w1)"
    and two: "allocate_page memory_system 7 ?dm w1 = Some (Ok ?p, dm1, w2)"
    and three: "write_page memory_system ?p (replicate PAGE_SIZE 9) dm1 w2 = (Ok (), dm2, w3)"
    and four: "allocate_page memory_system 7 (install_created 7 example_handle dm2) w3 = Some (Ok ?p, dm3, w4)"
    using example_race [where data = "replicate PAGE_SIZE 9"] by (elim exE conjE)
  have ok: "disk_ok tokio_file (mem_files memory_empty) ?dm"
    by (rule disk_okI) (simp_all add: example_new_def disk_manager_new_def memory_empty_def)
  have path: "table_path (base_path ?dm) 7 = example_path"
    by (simp add: example_new_def disk_manager_new_def example_path_def)
  have "page_of (mem_files w4) (base_path ?dm) ?p = replicate PAGE_SIZE 0"
    using create_table_race [OF memory_documented ok _ two three _ four] one path by simp
  then show ?thesis using one two three four by (auto simp: example_new_def disk_manager_new_def)
qed

end
