(* ===== verification/Buffer_Pool.thy ===== *)
theory Buffer_Pool
  imports Frame Disk_Manager
begin

text \<open>
  \<open>crates/storage/src/buffer_pool_manager.rs\<close>, \<open>bpm_error.rs\<close> and \<open>page_processing_map.rs\<close>: the
  cache of pages. The code of an operation between two awaits runs under the locks it holds and is
  one atomic section: each section is a definition of its own on the state of the pool, and the
  operation composes the sections with the disk operations and the channels it awaits. \<open>None\<close> is a
  panic (while a mutex is held, so that it also poisons the pool).

  The disk is a parameter (\<open>allocate\<close>, \<open>get\<close> and \<open>store\<close> on a state of type \<open>'d\<close>; the disk manager
  is an instance). A broadcast channel is an opaque value of type \<open>'c\<close>: \<open>tx\<close> is the channel a
  section creates, a section that sends on a channel returns it, and \<open>recv\<close> is what awaiting a
  channel gives. A frame is its index in \<open>frames\<close>; the guard an operation returns is the index of
  the frame it holds.
\<close>

section \<open>Definitions\<close>

subsection \<open>State\<close>

datatype bpm_error =
    BufferFull
  | DiskRead string
  | DiskWrite string
  | Generic string
  | PageProcessingBroadcast string
  | PageAllocation string

record 'c page_processing_map =
  fetches :: "page_id \<Rightarrow> 'c option"
  flushes :: "page_id \<Rightarrow> 'c option"

definition page_processing_map_new :: "'c page_processing_map" where
  "page_processing_map_new = \<lparr>fetches = \<lambda>_. None, flushes = \<lambda>_. None\<rparr>"

record 'c buffer_pool =
  bpm_evictor :: clock_evictor_state
  frames :: "frame list"
  free_frames :: "usize list"
  page_io_processing :: "'c page_processing_map"
  page_table :: "page_id \<Rightarrow> usize option"

definition buffer_pool_new :: "usize \<Rightarrow> 'c buffer_pool" where
  "buffer_pool_new n =
     \<lparr>bpm_evictor = clock_evictor_new n, frames = map frame_new [0..<n],
      free_frames = [0..<n], page_io_processing = page_processing_map_new,
      page_table = \<lambda>_. None\<rparr>"

text \<open>\<open>Vec::pop\<close> takes the last element.\<close>

definition vec_pop :: "'a list \<Rightarrow> 'a option \<times> 'a list" where
  "vec_pop xs = (if xs = [] then (None, []) else (Some (last xs), butlast xs))"

definition update_frame :: "usize \<Rightarrow> (frame \<Rightarrow> frame) \<Rightarrow> 'c buffer_pool \<Rightarrow> 'c buffer_pool option" where
  "update_frame i g b = do {
     f \<leftarrow> index (frames b) i;
     Some (b\<lparr>frames := (frames b)[i := g f]\<rparr>)
   }"

definition set_fetch :: "page_id \<Rightarrow> 'c option \<Rightarrow> 'c buffer_pool \<Rightarrow> 'c buffer_pool" where
  "set_fetch p c b = b\<lparr>page_io_processing :=
     (page_io_processing b)\<lparr>fetches := (fetches (page_io_processing b))(p := c)\<rparr>\<rparr>"

definition set_flush :: "page_id \<Rightarrow> 'c option \<Rightarrow> 'c buffer_pool \<Rightarrow> 'c buffer_pool" where
  "set_flush p c b = b\<lparr>page_io_processing :=
     (page_io_processing b)\<lparr>flushes := (flushes (page_io_processing b))(p := c)\<rparr>\<rparr>"

subsection \<open>Pins\<close>

definition pin_frame :: "usize \<Rightarrow> 'c buffer_pool \<Rightarrow> 'c buffer_pool option" where
  "pin_frame i b = do {
     f \<leftarrow> index (frames b) i;
     (let (prev, f) = increment_pin_count f;
          b = b\<lparr>frames := (frames b)[i := f]\<rparr>
      in if prev = 0 then do {
           ev \<leftarrow> evictor_remove (bpm_evictor b) i;
           Some (b\<lparr>bpm_evictor := ev\<rparr>)
         }
         else Some b)
   }"

definition unpin_frame :: "usize \<Rightarrow> 'c buffer_pool \<Rightarrow> 'c buffer_pool option" where
  "unpin_frame i b = do {
     f \<leftarrow> index (frames b) i;
     (prev, f) \<leftarrow> decrement_pin_count f;
     (let b = b\<lparr>frames := (frames b)[i := f]\<rparr>
      in if prev = 1 then do {
           ev \<leftarrow> evictor_add (bpm_evictor b) i;
           Some (b\<lparr>bpm_evictor := ev\<rparr>)
         }
         else Some b)
   }"

text \<open>Dropping the guard of a frame of the pool.\<close>

definition release_read :: "usize \<Rightarrow> 'c buffer_pool \<Rightarrow> 'c buffer_pool option" where
  "release_read i b = do {
     f \<leftarrow> index (frames b) i;
     g \<leftarrow> page_read_guard_drop (page_read_guard_new (bpm_evictor b) f);
     Some (b\<lparr>bpm_evictor := guard_evictor g, frames := (frames b)[i := guard_frame g]\<rparr>)
   }"

definition release_write :: "usize \<Rightarrow> 'c buffer_pool \<Rightarrow> 'c buffer_pool option" where
  "release_write i b = do {
     f \<leftarrow> index (frames b) i;
     g \<leftarrow> page_write_guard_drop (page_write_guard_new (bpm_evictor b) f);
     Some (b\<lparr>bpm_evictor := guard_evictor g, frames := (frames b)[i := guard_frame g]\<rparr>)
   }"

subsection \<open>Eviction\<close>

type_synonym flush = "(page_id \<times> bytes) option"

definition evict_page ::
  "'c buffer_pool \<Rightarrow> ((bpm_error, usize \<times> flush) rust_result \<times> 'c buffer_pool) option" where
  "evict_page b = do {
     (victim, ev) \<leftarrow> evictor_victim (bpm_evictor b);
     (let b = b\<lparr>bpm_evictor := ev\<rparr>
      in case victim of
           None \<Rightarrow> Some (Err BufferFull, b)
         | Some i \<Rightarrow> do {
             f \<leftarrow> index (frames b) i;
             victim_page_id \<leftarrow> frame_page_id f;
             (let b = b\<lparr>page_table := (page_table b)(victim_page_id := None)\<rparr>
              in if frame_dirty f then do {
                   page_id \<leftarrow> frame_page_id f;
                   Some (Ok (i, Some (page_id, read_data f)), b)
                 }
                 else Some (Ok (i, None), b))
           })
   }"

text \<open>A dirty frame that was evicted is announced before the locks are released.\<close>

definition announce_flush :: "'c \<Rightarrow> usize \<Rightarrow> flush \<Rightarrow> 'c buffer_pool \<Rightarrow> 'c buffer_pool option" where
  "announce_flush tx i page_data b = do {
     f \<leftarrow> index (frames b) i;
     (if frame_dirty f then do {
        (page_id, _) \<leftarrow> page_data;
        Some (set_flush page_id (Some tx) b)
      }
      else Some b)
   }"

definition finish_flush :: "page_id \<Rightarrow> 'c buffer_pool \<Rightarrow> 'c option \<times> 'c buffer_pool" where
  "finish_flush p b = (flushes (page_io_processing b) p, set_flush p None b)"

definition write_error :: "page_id \<Rightarrow> io_error \<Rightarrow> bpm_error" where
  "write_error p e =
     DiskWrite (''Could not write page: '' @ page_id_to_string p @ '' to disk! Error: '' @ e)"

subsection \<open>Creating a page\<close>

text \<open>The section that finds a frame, pins it and enters the page in the page table.\<close>

definition create_page_claim ::
  "'c \<Rightarrow> page_id \<Rightarrow> 'c buffer_pool \<Rightarrow> (usize \<times> flush \<times> 'c buffer_pool) option" where
  "create_page_claim tx page_id b = do {
     (i, page_data, b) \<leftarrow>
       (case vec_pop (free_frames b) of
          (Some i, free) \<Rightarrow> do {
            b \<leftarrow> pin_frame i (b\<lparr>free_frames := free\<rparr>);
            Some (i, None, b)
          }
        | (None, _) \<Rightarrow> do {
            (r, b) \<leftarrow> evict_page b;
            (i, page_data) \<leftarrow> unwrap r;
            b \<leftarrow> pin_frame i b;
            b \<leftarrow> announce_flush tx i page_data b;
            Some (i, page_data, b)
          });
     b \<leftarrow> update_frame i (set_page_id (Some page_id)) b;
     Some (i, page_data, b\<lparr>page_table := (page_table b)(page_id \<mapsto> i)\<rparr>)
   }"

text \<open>The section after the write of the evicted page; the channel it sends on, if any.\<close>

definition create_page_flushed ::
  "page_id \<Rightarrow> (io_error, unit) rust_result \<Rightarrow> 'c buffer_pool \<Rightarrow>
   (bpm_error, unit) rust_result \<times> 'c option \<times> 'c buffer_pool" where
  "create_page_flushed p result b =
     (case result of
        Err e \<Rightarrow> (Err (write_error p e), None, b)
      | Ok _ \<Rightarrow> (let (sent, b) = finish_flush p b in (Ok (), sent, b)))"

definition create_page ::
  "(u32 \<Rightarrow> 'd \<Rightarrow> ((io_error, page_id) rust_result \<times> 'd) option) \<Rightarrow>
   (page_id \<Rightarrow> bytes \<Rightarrow> 'd \<Rightarrow> (io_error, unit) rust_result \<times> 'd) \<Rightarrow>
   'c \<Rightarrow> u32 \<Rightarrow> 'c buffer_pool \<Rightarrow> 'd \<Rightarrow>
   ((bpm_error, usize) rust_result \<times> 'c buffer_pool \<times> 'd) option" where
  "create_page allocate store tx table_id b d = do {
     (r, d) \<leftarrow> allocate table_id d;
     (case r of
        Err e \<Rightarrow> Some (Err (PageAllocation e), b, d)
      | Ok page_id \<Rightarrow> do {
          (i, page_data, b) \<leftarrow> create_page_claim tx page_id b;
          (case page_data of
             None \<Rightarrow> Some (Ok i, b, d)
           | Some (flush_id, bytes) \<Rightarrow>
               (let (result, d) = store flush_id bytes d;
                    (r, _, b) = create_page_flushed flush_id result b
                in case r of Err e \<Rightarrow> Some (Err e, b, d) | Ok _ \<Rightarrow> Some (Ok i, b, d)))
        })
   }"

subsection \<open>Fetching a page\<close>

text \<open>
  The section at the start of a fetch: the page is in the cache and was pinned, or there is no frame
  for it, or a frame was taken for it, maybe from a dirty page that must be written.
\<close>

datatype claim = Hit usize | Full | Miss usize flush

definition find_frame ::
  "'c \<Rightarrow> 'c buffer_pool \<Rightarrow> ((usize \<times> flush) option \<times> 'c buffer_pool) option" where
  "find_frame tx b =
     (case vec_pop (free_frames b) of
        (Some i, free) \<Rightarrow> Some (Some (i, None), b\<lparr>free_frames := free\<rparr>)
      | (None, _) \<Rightarrow> do {
          (r, b) \<leftarrow> evict_page b;
          (case r of
             Ok (i, page_data) \<Rightarrow> do {
               b \<leftarrow> announce_flush tx i page_data b;
               Some (Some (i, page_data), b)
             }
           | Err _ \<Rightarrow> Some (None, b))
        })"

definition fetch_claim ::
  "'c \<Rightarrow> 'c \<Rightarrow> page_id \<Rightarrow> 'c buffer_pool \<Rightarrow> (claim \<times> 'c buffer_pool) option" where
  "fetch_claim tx_flush tx_fetch page_id b =
     (case page_table b page_id of
        Some i \<Rightarrow> do {
          b \<leftarrow> pin_frame i b;
          Some (Hit i, b)
        }
      | None \<Rightarrow> do {
          (available, b) \<leftarrow> find_frame tx_flush b;
          (case available of
             None \<Rightarrow> Some (Full, b)
           | Some (i, page_data) \<Rightarrow> do {
               b \<leftarrow> update_frame i (\<lambda>f. set_dirty False (set_page_id (Some page_id) f))
                     (b\<lparr>page_table := (page_table b)(page_id \<mapsto> i)\<rparr>);
               b \<leftarrow> pin_frame i b;
               Some (Miss i page_data, set_fetch page_id (Some tx_fetch) b)
             })
        })"

text \<open>Awaiting a channel: what is received is ignored, an error of the channel is returned.\<close>

type_synonym 'c receiver = "'c \<Rightarrow> (string, (string, unit) rust_result) rust_result"

definition broadcast_error :: "page_id \<Rightarrow> string \<Rightarrow> bpm_error" where
  "broadcast_error p e = PageProcessingBroadcast
     (''Error waiting on in flight fetch for page '' @ page_id_to_string p @ '': '' @ e)"

definition wait_for_page_fetch ::
  "'c receiver \<Rightarrow> page_id \<Rightarrow> 'c buffer_pool \<Rightarrow> (bpm_error, unit) rust_result" where
  "wait_for_page_fetch recv p b =
     (case fetches (page_io_processing b) p of
        None \<Rightarrow> Ok ()
      | Some c \<Rightarrow> (case recv c of Err e \<Rightarrow> Err (broadcast_error p e) | Ok _ \<Rightarrow> Ok ()))"

definition wait_for_page_flush ::
  "'c receiver \<Rightarrow> page_id \<Rightarrow> 'c buffer_pool \<Rightarrow> (bpm_error, unit) rust_result" where
  "wait_for_page_flush recv p b =
     (case flushes (page_io_processing b) p of
        None \<Rightarrow> Ok ()
      | Some c \<Rightarrow> (case recv c of Err e \<Rightarrow> Err (broadcast_error p e) | Ok _ \<Rightarrow> Ok ()))"

text \<open>The section after the read: the frame gets the bytes and the waiting tasks are woken.\<close>

definition fetch_filled ::
  "page_id \<Rightarrow> usize \<Rightarrow> bytes \<Rightarrow> 'c buffer_pool \<Rightarrow> ('c option \<times> 'c buffer_pool) option" where
  "fetch_filled p i buffer b = do {
     b \<leftarrow> update_frame i (write_data buffer) b;
     Some (fetches (page_io_processing b) p, set_fetch p None b)
   }"

text \<open>The section after the write of the evicted page, which wakes the waiting tasks in any case.\<close>

definition fetch_flushed ::
  "page_id \<Rightarrow> (io_error, unit) rust_result \<Rightarrow> 'c buffer_pool \<Rightarrow>
   (bpm_error, unit) rust_result \<times> 'c option \<times> 'c buffer_pool" where
  "fetch_flushed p result b =
     (let (sent, b) = finish_flush p b
      in case result of Err e \<Rightarrow> (Err (write_error p e), sent, b) | Ok _ \<Rightarrow> (Ok (), sent, b))"

definition read_error :: "page_id \<Rightarrow> io_error \<Rightarrow> bpm_error" where
  "read_error p e = DiskRead (''Error reading page '' @ page_id_to_string p @ '' from disk: '' @ e)"

definition fetch_and_pin_frame ::
  "(page_id \<Rightarrow> bytes \<Rightarrow> 'd \<Rightarrow> (io_error, unit) rust_result \<times> bytes \<times> 'd) \<Rightarrow>
   (page_id \<Rightarrow> bytes \<Rightarrow> 'd \<Rightarrow> (io_error, unit) rust_result \<times> 'd) \<Rightarrow>
   'c receiver \<Rightarrow> 'c \<Rightarrow> 'c \<Rightarrow> page_id \<Rightarrow> 'c buffer_pool \<Rightarrow> 'd \<Rightarrow>
   ((bpm_error, usize) rust_result \<times> 'c buffer_pool \<times> 'd) option" where
  "fetch_and_pin_frame get store recv tx_flush tx_fetch page_id b d = do {
     (claim, b) \<leftarrow> fetch_claim tx_flush tx_fetch page_id b;
     (case claim of
        Full \<Rightarrow> Some (Err BufferFull, b, d)
      | Hit i \<Rightarrow>
          (case wait_for_page_fetch recv page_id b of
             Err e \<Rightarrow> do { b \<leftarrow> unpin_frame i b; Some (Err e, b, d) }
           | Ok _ \<Rightarrow> Some (Ok i, b, d))
      | Miss i page_data \<Rightarrow>
          (case wait_for_page_flush recv page_id b of
             Err e \<Rightarrow> Some (Err e, b, d)
           | Ok _ \<Rightarrow>
               (case get page_id (replicate PAGE_SIZE 0) d of
                  (Err e, _, d) \<Rightarrow> Some (Err (read_error page_id e), b, d)
                | (Ok _, buffer, d) \<Rightarrow> do {
                    (_, b) \<leftarrow> fetch_filled page_id i buffer b;
                    (case page_data of
                       None \<Rightarrow> Some (Ok i, b, d)
                     | Some (flush_id, bytes) \<Rightarrow>
                         (let (result, d) = store flush_id bytes d;
                              (r, _, b) = fetch_flushed flush_id result b
                          in case r of Err e \<Rightarrow> Some (Err e, b, d) | Ok _ \<Rightarrow> Some (Ok i, b, d)))
                  })))
   }"

text \<open>Every error of the helper is reported as a full buffer.\<close>

definition fetch_page_read ::
  "(page_id \<Rightarrow> bytes \<Rightarrow> 'd \<Rightarrow> (io_error, unit) rust_result \<times> bytes \<times> 'd) \<Rightarrow>
   (page_id \<Rightarrow> bytes \<Rightarrow> 'd \<Rightarrow> (io_error, unit) rust_result \<times> 'd) \<Rightarrow>
   'c receiver \<Rightarrow> 'c \<Rightarrow> 'c \<Rightarrow> page_id \<Rightarrow> 'c buffer_pool \<Rightarrow> 'd \<Rightarrow>
   ((bpm_error, usize) rust_result \<times> 'c buffer_pool \<times> 'd) option" where
  "fetch_page_read get store recv tx_flush tx_fetch page_id b d = do {
     (r, b, d) \<leftarrow> fetch_and_pin_frame get store recv tx_flush tx_fetch page_id b d;
     (case r of Ok i \<Rightarrow> Some (Ok i, b, d) | Err _ \<Rightarrow> Some (Err BufferFull, b, d))
   }"

definition fetch_page_write ::
  "(page_id \<Rightarrow> bytes \<Rightarrow> 'd \<Rightarrow> (io_error, unit) rust_result \<times> bytes \<times> 'd) \<Rightarrow>
   (page_id \<Rightarrow> bytes \<Rightarrow> 'd \<Rightarrow> (io_error, unit) rust_result \<times> 'd) \<Rightarrow>
   'c receiver \<Rightarrow> 'c \<Rightarrow> 'c \<Rightarrow> page_id \<Rightarrow> 'c buffer_pool \<Rightarrow> 'd \<Rightarrow>
   ((bpm_error, usize) rust_result \<times> 'c buffer_pool \<times> 'd) option" where
  "fetch_page_write get store recv tx_flush tx_fetch page_id b d = do {
     (r, b, d) \<leftarrow> fetch_and_pin_frame get store recv tx_flush tx_fetch page_id b d;
     (case r of Ok i \<Rightarrow> Some (Ok i, b, d) | Err _ \<Rightarrow> Some (Err BufferFull, b, d))
   }"

definition get_free_frame_count :: "'c buffer_pool \<Rightarrow> usize" where
  "get_free_frame_count b = length (free_frames b)"

definition get_pin_count :: "page_id \<Rightarrow> 'c buffer_pool \<Rightarrow> usize option option" where
  "get_pin_count p b =
     (case page_table b p of
        None \<Rightarrow> Some None
      | Some i \<Rightarrow> do { f \<leftarrow> index (frames b) i; Some (Some (frame_pin_count f)) })"

section \<open>Well-formed pools\<close>

text \<open>
  The invariant of the pool between two sections. A frame is free (unpinned, zeroed and never
  evictable), or it holds a page that the page table maps to it, and then the evictor may take it
  exactly when nobody has it pinned. Inside a section the frames of \<open>L\<close> are being handed over:
  they are not free, not evictable and no page maps to them.
\<close>

definition frame_ok :: "nat set \<Rightarrow> 'c buffer_pool \<Rightarrow> nat \<Rightarrow> bool" where
  "frame_ok L b i \<longleftrightarrow> (let f = frames b ! i in
     frame_id f = i \<and> frame_pin_count f < 2 ^ 64 \<and> length (frame_data f) = PAGE_SIZE \<and>
     (if i \<in> L then i \<notin> evictable (bpm_evictor b) \<and> i \<notin> set (free_frames b)
      else if i \<in> set (free_frames b) then
        i \<notin> evictable (bpm_evictor b) \<and> frame_pin_count f = 0 \<and> \<not> frame_dirty f \<and>
        frame_data f = replicate PAGE_SIZE 0
      else (i \<in> evictable (bpm_evictor b) \<longleftrightarrow> frame_pin_count f = 0) \<and>
        (\<exists>p. frame_page_id f = Some p \<and> page_table b p = Some i)))"

definition pool_except :: "nat set \<Rightarrow> 'c buffer_pool \<Rightarrow> bool" where
  "pool_except L b \<longleftrightarrow>
     clock_ok (bpm_evictor b) \<and> clock_capacity (bpm_evictor b) = length (frames b) \<and>
     distinct (free_frames b) \<and> set (free_frames b) \<subseteq> {..<length (frames b)} \<and>
     (\<forall>i < length (frames b). frame_ok L b i) \<and>
     (\<forall>p i. page_table b p = Some i \<longrightarrow> i < length (frames b) \<and> i \<notin> L \<and> i \<notin> set (free_frames b) \<and>
        frame_page_id (frames b ! i) = Some p)"

definition pool_ok :: "'c buffer_pool \<Rightarrow> bool" where
  "pool_ok b \<longleftrightarrow> pool_except {} b"

lemma pool_exceptD:
  assumes "pool_except L b"
  shows "clock_ok (bpm_evictor b)" and "clock_capacity (bpm_evictor b) = length (frames b)"
    and "distinct (free_frames b)" and "i \<in> set (free_frames b) \<Longrightarrow> i < length (frames b)"
    and "i < length (frames b) \<Longrightarrow> frame_ok L b i"
    and "page_table b p = Some i \<Longrightarrow> i < length (frames b) \<and> i \<notin> L \<and> i \<notin> set (free_frames b) \<and>
      frame_page_id (frames b ! i) = Some p"
  using assms unfolding pool_except_def by blast+

lemma pool_exceptI:
  assumes "clock_ok (bpm_evictor b)" and "clock_capacity (bpm_evictor b) = length (frames b)"
    and "distinct (free_frames b)" and "\<And>i. i \<in> set (free_frames b) \<Longrightarrow> i < length (frames b)"
    and "\<And>i. i < length (frames b) \<Longrightarrow> frame_ok L b i"
    and "\<And>p i. page_table b p = Some i \<Longrightarrow> i < length (frames b) \<and> i \<notin> L \<and> i \<notin> set (free_frames b) \<and>
      frame_page_id (frames b ! i) = Some p"
  shows "pool_except L b"
  using assms unfolding pool_except_def by blast

lemma evictable_bounded: "pool_except L b \<Longrightarrow> i \<in> evictable (bpm_evictor b) \<Longrightarrow> i < length (frames b)"
  using clock.members_bounded pool_exceptD(1,2) by fastforce

lemma pool_new_ok: "pool_ok (buffer_pool_new n)"
  unfolding pool_ok_def
  by (rule pool_exceptI)
    (simp_all add: buffer_pool_new_def clock_new_ok frame_ok_def, simp add: clock_evictor_new_def)

lemma set_flush_fields [simp]:
  "frames (set_flush p c b) = frames b" "free_frames (set_flush p c b) = free_frames b"
  "bpm_evictor (set_flush p c b) = bpm_evictor b" "page_table (set_flush p c b) = page_table b"
  "fetches (page_io_processing (set_flush p c b)) = fetches (page_io_processing b)"
  "flushes (page_io_processing (set_flush p c b)) = (flushes (page_io_processing b))(p := c)"
  by (simp_all add: set_flush_def)

lemma set_fetch_fields [simp]:
  "frames (set_fetch p c b) = frames b" "free_frames (set_fetch p c b) = free_frames b"
  "bpm_evictor (set_fetch p c b) = bpm_evictor b" "page_table (set_fetch p c b) = page_table b"
  "flushes (page_io_processing (set_fetch p c b)) = flushes (page_io_processing b)"
  "fetches (page_io_processing (set_fetch p c b)) = (fetches (page_io_processing b))(p := c)"
  by (simp_all add: set_fetch_def)

lemma frame_ok_cong:
  assumes "frames b ! i = frames c ! i" and "i \<in> evictable (bpm_evictor b) \<longleftrightarrow> i \<in> evictable (bpm_evictor c)"
    and "i \<in> set (free_frames b) \<longleftrightarrow> i \<in> set (free_frames c)"
    and "\<And>p. page_table b p = Some i \<longleftrightarrow> page_table c p = Some i"
    and "i \<in> L \<longleftrightarrow> i \<in> M"
  shows "frame_ok L b i = frame_ok M c i"
  using assms by (simp add: frame_ok_def)

lemma pool_except_io [simp]:
  "pool_except L (set_flush p c b) = pool_except L b" "pool_except L (set_fetch p c b) = pool_except L b"
proof -
  have "frame_ok L (set_flush p c b) i = frame_ok L b i" "frame_ok L (set_fetch p c b) i = frame_ok L b i" for i
    by (rule frame_ok_cong; simp)+
  then show "pool_except L (set_flush p c b) = pool_except L b" "pool_except L (set_fetch p c b) = pool_except L b"
    by (simp_all add: pool_except_def)
qed

section \<open>The operations on a well-formed pool\<close>

lemma pin_frame_ok:
  assumes ok: "pool_except L b" and i: "i < length (frames b)" "i \<notin> set (free_frames b)"
    and room: "frame_pin_count (frames b ! i) + 1 < 2 ^ 64"
  shows "\<exists>b'. pin_frame i b = Some b' \<and> pool_except L b' \<and>
    frames b' = (frames b)[i := (frames b ! i)\<lparr>frame_pin_count := frame_pin_count (frames b ! i) + 1\<rparr>] \<and>
    free_frames b' = free_frames b \<and> page_io_processing b' = page_io_processing b \<and>
    page_table b' = page_table b"
proof -
  let ?f = "(frames b ! i)\<lparr>frame_pin_count := frame_pin_count (frames b ! i) + 1\<rparr>"
  note wf = pool_exceptD [OF ok]
  have inc: "increment_pin_count (frames b ! i) = (frame_pin_count (frames b ! i), ?f)"
    by (rule increment_below [OF room])
  obtain ev where ev: "evictor_remove (bpm_evictor b) i = Some ev" "clock_ok ev"
    "clock_capacity ev = length (frames b)" "evictable ev = evictable (bpm_evictor b) - {i}"
    using evictor_remove_ok [OF wf(1), of i] i(1) wf(2) by auto
  define c where "c = b\<lparr>frames := (frames b)[i := ?f],
    bpm_evictor := if frame_pin_count (frames b ! i) = 0 then ev else bpm_evictor b\<rparr>"
  have run: "pin_frame i b = Some c" using i(1) ev(1) by (simp add: pin_frame_def inc c_def)
  have members: "evictable (bpm_evictor c) = evictable (bpm_evictor b) - {i}"
    using wf(5) [OF i(1)] i(2) ev(4) by (auto simp: c_def frame_ok_def Let_def split: if_splits)
  have "pool_except L c"
  proof (rule pool_exceptI)
    show "clock_ok (bpm_evictor c)" "clock_capacity (bpm_evictor c) = length (frames c)"
      using wf(1,2) ev(2,3) by (simp_all add: c_def)
    show "distinct (free_frames c)" using wf(3) by (simp add: c_def)
    show "j < length (frames c)" if "j \<in> set (free_frames c)" for j
      using wf(4) [of j] that by (simp add: c_def)
    show "frame_ok L c j" if "j < length (frames c)" for j
    proof (cases "j = i")
      case True
      have fields: "frames c ! i = ?f" "free_frames c = free_frames b" "page_table c = page_table b"
        using i by (simp_all add: c_def)
      show ?thesis unfolding True
        using wf(5) [OF i(1)] i(2) room by (simp add: frame_ok_def Let_def members fields split: if_splits)
    next
      case False
      have "frame_ok L c j = frame_ok L b j"
        by (rule frame_ok_cong) (use False members in \<open>simp_all add: c_def\<close>)
      then show ?thesis using wf(5) [of j] that by (simp add: c_def)
    qed
    show "j < length (frames c) \<and> j \<notin> L \<and> j \<notin> set (free_frames c) \<and> frame_page_id (frames c ! j) = Some p"
      if "page_table c p = Some j" for p j
      using wf(6) [of p j] that by (cases "j = i") (simp_all add: c_def)
  qed
  then show ?thesis using run by (auto simp: c_def)
qed

lemma unpin_frame_ok:
  assumes ok: "pool_ok b" and i: "i < length (frames b)" and pinned: "0 < frame_pin_count (frames b ! i)"
  shows "\<exists>b'. unpin_frame i b = Some b' \<and> pool_ok b' \<and>
    frames b' = (frames b)[i := (frames b ! i)\<lparr>frame_pin_count := frame_pin_count (frames b ! i) - 1\<rparr>] \<and>
    free_frames b' = free_frames b \<and> page_io_processing b' = page_io_processing b \<and>
    page_table b' = page_table b"
proof -
  let ?f = "(frames b ! i)\<lparr>frame_pin_count := frame_pin_count (frames b ! i) - 1\<rparr>"
  note wf = pool_exceptD [OF ok [unfolded pool_ok_def]]
  have bound: "frame_pin_count (frames b ! i) < 2 ^ 64" and used: "i \<notin> set (free_frames b)"
    and out: "i \<notin> evictable (bpm_evictor b)"
    using wf(5) [OF i] pinned by (auto simp: frame_ok_def Let_def split: if_splits)
  have dec: "decrement_pin_count (frames b ! i) = Some (frame_pin_count (frames b ! i), ?f)"
    by (rule decrement_pinned [OF pinned bound])
  obtain ev where ev: "evictor_add (bpm_evictor b) i = Some ev" "clock_ok ev"
    "clock_capacity ev = length (frames b)" "evictable ev = insert i (evictable (bpm_evictor b))"
    using evictor_add_ok [OF wf(1), of i] i wf(2) by auto
  define c where "c = b\<lparr>frames := (frames b)[i := ?f],
    bpm_evictor := if frame_pin_count (frames b ! i) = 1 then ev else bpm_evictor b\<rparr>"
  have run: "unpin_frame i b = Some c" using i ev(1) by (simp add: unpin_frame_def dec c_def)
  have members: "j \<in> evictable (bpm_evictor c) \<longleftrightarrow>
      j \<in> evictable (bpm_evictor b) \<or> j = i \<and> frame_pin_count (frames b ! i) = 1" for j
    using ev(4) by (auto simp: c_def)
  have "pool_ok c" unfolding pool_ok_def
  proof (rule pool_exceptI)
    show "clock_ok (bpm_evictor c)" "clock_capacity (bpm_evictor c) = length (frames c)"
      using wf(1,2) ev(2,3) by (simp_all add: c_def)
    show "distinct (free_frames c)" using wf(3) by (simp add: c_def)
    show "j < length (frames c)" if "j \<in> set (free_frames c)" for j
      using wf(4) [of j] that by (simp add: c_def)
    show "frame_ok {} c j" if "j < length (frames c)" for j
    proof (cases "j = i")
      case True
      have fields: "frames c ! i = ?f" "free_frames c = free_frames b" "page_table c = page_table b"
        using i by (simp_all add: c_def)
      show ?thesis unfolding True
        using wf(5) [OF i] used out pinned bound by (simp add: frame_ok_def Let_def members fields) linarith
    next
      case False
      have "frame_ok {} c j = frame_ok {} b j"
        by (rule frame_ok_cong) (use False members in \<open>simp_all add: c_def\<close>)
      then show ?thesis using wf(5) [of j] that by (simp add: c_def)
    qed
    show "j < length (frames c) \<and> j \<notin> {} \<and> j \<notin> set (free_frames c) \<and> frame_page_id (frames c ! j) = Some p"
      if "page_table c p = Some j" for p j
      using wf(6) [of p j] that by (cases "j = i") (simp_all add: c_def)
  qed
  then show ?thesis using run by (auto simp: c_def)
qed

text \<open>Dropping a guard of either kind unpins its frame.\<close>

lemma release_eq:
  assumes "i < length (frames b)" and "frame_id (frames b ! i) = i"
  shows "release_read i b = unpin_frame i b" and "release_write i b = unpin_frame i b"
  using assms
  by (auto simp: release_read_def release_write_def unpin_frame_def page_read_guard_drop_def
      page_write_guard_drop_def page_read_guard_new_def page_write_guard_new_def
      decrement_pin_count_def Let_def split: Option.bind_split)

lemma release_unpin:
  assumes "pool_ok b" and "i < length (frames b)"
  shows "release_read i b = unpin_frame i b" and "release_write i b = unpin_frame i b"
proof -
  have "frame_id (frames b ! i) = i"
    using pool_exceptD(5) [OF assms(1) [unfolded pool_ok_def] assms(2)] by (simp add: frame_ok_def Let_def)
  then show "release_read i b = unpin_frame i b" "release_write i b = unpin_frame i b"
    using release_eq [OF assms(2)] by simp_all
qed

text \<open>
  Eviction: the victim is unpinned, its page leaves the page table and its data is returned when it
  is dirty. The frame is then in transit. Without an evictable frame nothing is changed but the clock.
\<close>

lemma evict_page_ok:
  assumes ok: "pool_ok b"
  shows "\<exists>r b'. evict_page b = Some (r, b') \<and> frames b' = frames b \<and> free_frames b' = free_frames b \<and>
    page_io_processing b' = page_io_processing b \<and>
    (case r of
       Err e \<Rightarrow> e = BufferFull \<and> evictable (bpm_evictor b) = {} \<and> pool_ok b' \<and> page_table b' = page_table b
     | Ok (i, data) \<Rightarrow> i \<in> evictable (bpm_evictor b) \<and> i < length (frames b) \<and> frame_pin_count (frames b ! i) = 0 \<and> pool_except {i} b' \<and>
         (\<exists>q. page_table b q = Some i \<and> page_table b' = (page_table b)(q := None) \<and>
           data = (if frame_dirty (frames b ! i) then Some (q, frame_data (frames b ! i)) else None)))"
proof -
  note wf = pool_exceptD [OF ok [unfolded pool_ok_def]]
  obtain v ev where v: "evictor_victim (bpm_evictor b) = Some (v, ev)" "clock_ok ev"
    "clock_capacity ev = clock_capacity (bpm_evictor b)"
    "case v of None \<Rightarrow> evictable (bpm_evictor b) = {} \<and> evictable ev = {}
     | Some f \<Rightarrow> f \<in> evictable (bpm_evictor b) \<and> evictable ev = evictable (bpm_evictor b) - {f}"
    using clock.victim_member [OF wf(1)] by blast
  show ?thesis
  proof (cases v)
    case None
    define c where "c = b\<lparr>bpm_evictor := ev\<rparr>"
    have "pool_ok c" unfolding pool_ok_def
    proof (rule pool_exceptI)
      show "frame_ok {} c j" if "j < length (frames c)" for j
      proof -
        have "frame_ok {} c j = frame_ok {} b j"
          by (rule frame_ok_cong) (use v(4) None in \<open>simp_all add: c_def\<close>)
        then show ?thesis using wf(5) [of j] that by (simp add: c_def)
      qed
    qed (use wf v(2,3) in \<open>auto simp: c_def\<close>)
    moreover have "evict_page b = Some (Err BufferFull, c)" by (simp add: evict_page_def v(1) None c_def)
    ultimately show ?thesis using v(4) None by (simp add: c_def)
  next
    case (Some i)
    then have i: "i \<in> evictable (bpm_evictor b)" "evictable ev = evictable (bpm_evictor b) - {i}" using v(4) by simp_all
    have lt: "i < length (frames b)" by (rule evictable_bounded [OF ok [unfolded pool_ok_def] i(1)])
    obtain q where q: "frame_page_id (frames b ! i) = Some q" "page_table b q = Some i"
      and zero: "frame_pin_count (frames b ! i) = 0" and used: "i \<notin> set (free_frames b)"
      using wf(5) [OF lt] i(1) by (auto simp: frame_ok_def Let_def split: if_splits)
    define c where "c = b\<lparr>bpm_evictor := ev, page_table := (page_table b)(q := None)\<rparr>"
    let ?data = "if frame_dirty (frames b ! i) then Some (q, frame_data (frames b ! i)) else None"
    have run: "evict_page b = Some (Ok (i, ?data), c)"
      by (simp add: evict_page_def v(1) Some index_in [OF lt] q(1) c_def read_data_def Let_def)
    have unmapped: "page_table c p \<noteq> Some i" for p
      using wf(6) [of p i] q(1) by (auto simp: c_def)
    have "pool_except {i} c"
    proof (rule pool_exceptI)
      show "frame_ok {i} c j" if "j < length (frames c)" for j
      proof (cases "j = i")
        case True
        then show ?thesis using wf(5) [OF lt] used i(2) by (simp add: c_def frame_ok_def Let_def)
      next
        case False
        have "frame_ok {i} c j = frame_ok {} b j"
          by (rule frame_ok_cong) (use False i(2) q(2) in \<open>auto simp: c_def\<close>)
        then show ?thesis using wf(5) [of j] that by (simp add: c_def)
      qed
      show "j < length (frames c) \<and> j \<notin> {i} \<and> j \<notin> set (free_frames c) \<and> frame_page_id (frames c ! j) = Some p"
        if "page_table c p = Some j" for p j
        using wf(6) [of p j] that unmapped [of p] by (auto simp: c_def split: if_splits)
    qed (use wf v(2,3) in \<open>auto simp: c_def\<close>)
    then show ?thesis using run lt zero q i(1) by (auto simp: c_def)
  qed
qed

lemma announce_flush_ok:
  assumes "i < length (frames b)"
    and "data = (if frame_dirty (frames b ! i) then Some (q, bs) else None)"
  shows "announce_flush tx i data b = Some (case data of None \<Rightarrow> b | Some (q, _) \<Rightarrow> set_flush q (Some tx) b)"
  using assms by (simp add: announce_flush_def index_in)

text \<open>A frame was taken: from the free list, or from the evicted page \<open>q\<close>.\<close>

definition frame_taken :: "'c \<Rightarrow> 'c buffer_pool \<Rightarrow> usize \<Rightarrow> flush \<Rightarrow> 'c buffer_pool \<Rightarrow> bool" where
  "frame_taken tx b i data b' \<longleftrightarrow>
     i < length (frames b) \<and> frame_pin_count (frames b ! i) = 0 \<and> frames b' = frames b \<and>
     pool_except {i} b' \<and> fetches (page_io_processing b') = fetches (page_io_processing b) \<and>
     ((i \<in> set (free_frames b) \<and> set (free_frames b') = set (free_frames b) - {i} \<and> data = None \<and>
         page_table b' = page_table b \<and> flushes (page_io_processing b') = flushes (page_io_processing b)) \<or>
      (free_frames b = [] \<and> free_frames b' = [] \<and> (\<exists>q. page_table b q = Some i \<and>
         page_table b' = (page_table b)(q := None) \<and>
         (if frame_dirty (frames b ! i)
          then data = Some (q, frame_data (frames b ! i)) \<and>
            flushes (page_io_processing b') = (flushes (page_io_processing b))(q \<mapsto> tx)
          else data = None \<and> flushes (page_io_processing b') = flushes (page_io_processing b)))))"

lemma pop_free_ok:
  assumes ok: "pool_ok b" and free: "free_frames b \<noteq> []"
  shows "frame_taken tx b (last (free_frames b)) None (b\<lparr>free_frames := butlast (free_frames b)\<rparr>)"
proof -
  note wf = pool_exceptD [OF ok [unfolded pool_ok_def]]
  let ?i = "last (free_frames b)" and ?c = "b\<lparr>free_frames := butlast (free_frames b)\<rparr>"
  have mem: "?i \<in> set (free_frames b)" using free by simp
  have lt: "?i < length (frames b)" by (rule wf(4) [OF mem])
  have split: "free_frames b = butlast (free_frames b) @ [?i]" using free by simp
  then have "distinct (butlast (free_frames b) @ [?i])" using wf(3) by simp
  then have dist: "distinct (butlast (free_frames b))" "?i \<notin> set (butlast (free_frames b))" by simp_all
  have "set (free_frames b) = set (butlast (free_frames b) @ [?i])" using split by simp
  then have rest: "set (butlast (free_frames b)) = set (free_frames b) - {?i}" using dist(2) by auto
  have own: "?i \<notin> evictable (bpm_evictor b)" "frame_pin_count (frames b ! ?i) = 0"
    using wf(5) [OF lt] mem by (auto simp: frame_ok_def Let_def)
  have "pool_except {?i} ?c"
  proof (rule pool_exceptI)
    show "frame_ok {?i} ?c j" if "j < length (frames ?c)" for j
    proof (cases "j = ?i")
      case True
      then show ?thesis using wf(5) [OF lt] own rest by (simp add: frame_ok_def Let_def)
    next
      case False
      have "frame_ok {?i} ?c j = frame_ok {} b j"
        by (rule frame_ok_cong) (use False rest in simp_all)
      then show ?thesis using wf(5) [of j] that by simp
    qed
    show "j < length (frames ?c) \<and> j \<notin> {?i} \<and> j \<notin> set (free_frames ?c) \<and> frame_page_id (frames ?c ! j) = Some p"
      if "page_table ?c p = Some j" for p j
      using wf(6) [of p j] that mem rest by auto
  qed (use wf dist rest in auto)
  then show ?thesis using lt own(2) mem rest by (simp add: frame_taken_def)
qed

lemma evict_taken:
  assumes ok: "pool_ok b" and free: "free_frames b = []" and run: "evict_page b = Some (Ok (i, data), b')"
  shows "frame_taken tx b i data (case data of None \<Rightarrow> b' | Some (q, _) \<Rightarrow> set_flush q (Some tx) b')"
    and "announce_flush tx i data b' = Some (case data of None \<Rightarrow> b' | Some (q, _) \<Rightarrow> set_flush q (Some tx) b')"
proof -
  obtain q where out: "frames b' = frames b" "free_frames b' = free_frames b"
    "page_io_processing b' = page_io_processing b" "i < length (frames b)"
    "frame_pin_count (frames b ! i) = 0" "pool_except {i} b'" "page_table b q = Some i"
    "page_table b' = (page_table b)(q := None)"
    "data = (if frame_dirty (frames b ! i) then Some (q, frame_data (frames b ! i)) else None)"
    using evict_page_ok [OF ok] run by auto
  show "announce_flush tx i data b' = Some (case data of None \<Rightarrow> b' | Some (q, _) \<Rightarrow> set_flush q (Some tx) b')"
    by (rule announce_flush_ok [where q = q and bs = "frame_data (frames b ! i)"]) (use out in simp_all)
  show "frame_taken tx b i data (case data of None \<Rightarrow> b' | Some (q, _) \<Rightarrow> set_flush q (Some tx) b')"
    using out free by (auto simp: frame_taken_def)
qed

lemma find_frame_ok:
  assumes ok: "pool_ok b"
  shows "\<exists>r b'. find_frame tx b = Some (r, b') \<and>
    (case r of
       None \<Rightarrow> free_frames b = [] \<and> evictable (bpm_evictor b) = {} \<and> pool_ok b' \<and> frames b' = frames b \<and>
         free_frames b' = [] \<and> page_table b' = page_table b \<and> page_io_processing b' = page_io_processing b
     | Some (i, data) \<Rightarrow> frame_taken tx b i data b')"
proof (cases "free_frames b = []")
  case False
  then show ?thesis using pop_free_ok [OF ok False, of tx] by (simp add: find_frame_def vec_pop_def)
next
  case True
  obtain r b' where e: "evict_page b = Some (r, b')" using evict_page_ok [OF ok] by blast
  show ?thesis
  proof (cases r)
    case (Inl x)
    then show ?thesis using e evict_page_ok [OF ok] True by (simp add: find_frame_def vec_pop_def)
  next
    case (Inr x)
    then obtain i data where r: "r = Ok (i, data)" by (cases x) simp
    then show ?thesis
      using e True evict_taken [OF ok True, of i data b' tx]
      by (auto simp: find_frame_def vec_pop_def)
  qed
qed

text \<open>The frame taken now holds page \<open>p\<close> and is pinned once; \<open>f\<close> is its new value.\<close>

definition page_entered ::
  "'c \<Rightarrow> 'c buffer_pool \<Rightarrow> page_id \<Rightarrow> usize \<Rightarrow> flush \<Rightarrow> frame \<Rightarrow> 'c buffer_pool \<Rightarrow> bool" where
  "page_entered tx b p i data f b' \<longleftrightarrow>
     i < length (frames b) \<and> frame_pin_count (frames b ! i) = 0 \<and> frames b' = (frames b)[i := f] \<and> pool_ok b' \<and>
     ((i \<in> set (free_frames b) \<and> set (free_frames b') = set (free_frames b) - {i} \<and> data = None \<and>
         page_table b' = (page_table b)(p \<mapsto> i) \<and>
         flushes (page_io_processing b') = flushes (page_io_processing b)) \<or>
      (free_frames b = [] \<and> free_frames b' = [] \<and> (\<exists>q. page_table b q = Some i \<and>
         page_table b' = (page_table b)(q := None, p \<mapsto> i) \<and>
         (if frame_dirty (frames b ! i)
          then data = Some (q, frame_data (frames b ! i)) \<and>
            flushes (page_io_processing b') = (flushes (page_io_processing b))(q \<mapsto> tx)
          else data = None \<and> flushes (page_io_processing b') = flushes (page_io_processing b)))))"

lemma enter_ok:
  assumes ok: "pool_except {i} c" and i: "i < length (frames c)" and p: "page_table c p = None"
    and f: "frame_id f = i" "frame_pin_count f < 2 ^ 64" "0 < frame_pin_count f"
      "length (frame_data f) = PAGE_SIZE" "frame_page_id f = Some p"
  shows "pool_ok (c\<lparr>frames := (frames c)[i := f], page_table := (page_table c)(p \<mapsto> i)\<rparr>)"
  unfolding pool_ok_def
proof (rule pool_exceptI)
  note wf = pool_exceptD [OF ok]
  let ?d = "c\<lparr>frames := (frames c)[i := f], page_table := (page_table c)(p \<mapsto> i)\<rparr>"
  show "clock_ok (bpm_evictor ?d)" "clock_capacity (bpm_evictor ?d) = length (frames ?d)"
    "distinct (free_frames ?d)" using wf(1-3) by simp_all
  show "j < length (frames ?d)" if "j \<in> set (free_frames ?d)" for j using wf(4) [of j] that by simp
  show "frame_ok {} ?d j" if "j < length (frames ?d)" for j
  proof (cases "j = i")
    case True
    then show ?thesis using wf(5) [OF i] i f by (simp add: frame_ok_def Let_def)
  next
    case False
    have "frame_ok {} ?d j = frame_ok {i} c j"
      by (rule frame_ok_cong) (use False p in auto)
    then show ?thesis using wf(5) [of j] that by simp
  qed
  show "j < length (frames ?d) \<and> j \<notin> {} \<and> j \<notin> set (free_frames ?d) \<and> frame_page_id (frames ?d ! j) = Some r"
    if "page_table ?d r = Some j" for r j
  proof (cases "r = p")
    case True
    then show ?thesis using that wf(5) [OF i] i f by (simp add: frame_ok_def Let_def)
  next
    case False
    then show ?thesis using that wf(6) [of r j] by simp
  qed
qed

lemma frame_taken_fields:
  assumes "pool_ok b" and "frame_taken tx b i data c"
  shows "frame_id (frames b ! i) = i" and "length (frame_data (frames b ! i)) = PAGE_SIZE"
    and "i \<notin> set (free_frames c)" and "page_table b p = None \<Longrightarrow> page_table c p = None"
proof -
  have lt: "i < length (frames b)" and ex: "pool_except {i} c" "frames c = frames b"
    using assms(2) by (simp_all add: frame_taken_def)
  show "frame_id (frames b ! i) = i" "length (frame_data (frames b ! i)) = PAGE_SIZE"
    using pool_exceptD(5) [OF assms(1) [unfolded pool_ok_def] lt] by (simp_all add: frame_ok_def Let_def)
  show "i \<notin> set (free_frames c)"
    using pool_exceptD(5) [OF ex(1), of i] lt ex(2) by (simp add: frame_ok_def Let_def)
  show "page_table b p = None \<Longrightarrow> page_table c p = None"
    using assms(2) unfolding frame_taken_def by (elim conjE disjE exE) simp_all
qed

lemma page_entered_io [simp]:
  "page_entered tx b p i data f (set_fetch r c b') = page_entered tx b p i data f b'"
  by (simp add: page_entered_def pool_ok_def)

text \<open>
  Taking a frame, pinning it and entering a page in it, in whatever order the code does it, gives a
  well-formed pool.
\<close>

lemma taken_entered:
  assumes ok: "pool_ok b" and taken: "frame_taken tx b i data c" and p: "page_table b p = None"
    and d: "pool_except {i} d" "frames d = (frames b)[i := g]" "free_frames d = free_frames c"
      "page_table d = page_table c" "flushes (page_io_processing d) = flushes (page_io_processing c)"
    and f: "frame_id f = i" "frame_pin_count f = 1" "frame_data f = frame_data (frames b ! i)"
      "frame_page_id f = Some p"
    and e: "e = d\<lparr>frames := (frames b)[i := f], page_table := (page_table d)(p \<mapsto> i)\<rparr>"
  shows "page_entered tx b p i data f e"
proof -
  note fields = frame_taken_fields [OF ok taken]
  have lt: "i < length (frames b)" using taken by (simp add: frame_taken_def)
  have "frames d = (frames b)[i := g]" by (rule d(2))
  then have "e = d\<lparr>frames := (frames d)[i := f], page_table := (page_table d)(p \<mapsto> i)\<rparr>" using e by simp
  then have "pool_ok e"
    using enter_ok [OF d(1), of p f] lt d(2,4) fields(2) fields(4) [OF p] f by simp
  moreover have "frames e = (frames b)[i := f]" "free_frames e = free_frames c"
    "page_table e = (page_table c)(p \<mapsto> i)"
    "flushes (page_io_processing e) = flushes (page_io_processing c)"
    by (simp_all add: e d(3-5))
  ultimately show ?thesis
    using taken unfolding page_entered_def frame_taken_def
    by (elim conjE disjE exE; intro conjI; simp) blast
qed

lemma fetch_claim_hit:
  assumes ok: "pool_ok b" and hit: "page_table b p = Some i"
    and room: "frame_pin_count (frames b ! i) + 1 < 2 ^ 64"
  shows "\<exists>b'. fetch_claim tx tx' p b = Some (Hit i, b') \<and> pool_ok b' \<and>
    frames b' = (frames b)[i := (frames b ! i)\<lparr>frame_pin_count := frame_pin_count (frames b ! i) + 1\<rparr>] \<and>
    free_frames b' = free_frames b \<and> page_io_processing b' = page_io_processing b \<and>
    page_table b' = page_table b"
proof -
  have "i < length (frames b)" "i \<notin> set (free_frames b)"
    using pool_exceptD(6) [OF ok [unfolded pool_ok_def] hit] by simp_all
  then show ?thesis
    using pin_frame_ok [OF ok [unfolded pool_ok_def], of i] room hit by (auto simp: fetch_claim_def pool_ok_def)
qed

lemma fetch_claim_miss:
  assumes ok: "pool_ok b" and miss: "page_table b p = None"
  shows "\<exists>r b'. fetch_claim tx tx' p b = Some (r, b') \<and>
    (case r of
       Hit _ \<Rightarrow> False
     | Full \<Rightarrow> free_frames b = [] \<and> evictable (bpm_evictor b) = {} \<and> pool_ok b' \<and> frames b' = frames b \<and>
         free_frames b' = [] \<and> page_table b' = page_table b \<and> page_io_processing b' = page_io_processing b
     | Miss i data \<Rightarrow> fetches (page_io_processing b') = (fetches (page_io_processing b))(p \<mapsto> tx') \<and>
         page_entered tx b p i data ((frames b ! i)\<lparr>frame_dirty := False, frame_page_id := Some p,
           frame_pin_count := 1\<rparr>) b')"
proof -
  obtain r c where c: "find_frame tx b = Some (r, c)" using find_frame_ok [OF ok, of tx] by blast
  show ?thesis
  proof (cases r)
    case None
    then show ?thesis using find_frame_ok [OF ok, of tx] c miss by (simp add: fetch_claim_def)
  next
    case (Some x)
    then obtain i data where x: "r = Some (i, data)" by (cases x) simp
    then have taken: "frame_taken tx b i data c" using find_frame_ok [OF ok, of tx] c by simp
    note fields = frame_taken_fields [OF ok taken]
    have lt: "i < length (frames b)" and zero: "frame_pin_count (frames b ! i) = 0"
      and frames: "frames c = frames b" and ex: "pool_except {i} c"
      using taken by (simp_all add: frame_taken_def)
    let ?f = "set_dirty False (set_page_id (Some p) (frames b ! i))"
    let ?g = "?f\<lparr>frame_pin_count := 1\<rparr>"
    define c1 where "c1 = c\<lparr>frames := (frames b)[i := ?f], page_table := (page_table c)(p \<mapsto> i)\<rparr>"
    have upd: "update_frame i (\<lambda>f. set_dirty False (set_page_id (Some p) f))
        (c\<lparr>page_table := (page_table c)(p \<mapsto> i)\<rparr>) = Some c1"
      by (simp add: update_frame_def frames index_in [OF lt] c1_def)
    have inc: "increment_pin_count ?f = (0, ?g)" using increment_below [of ?f] zero by simp
    have out: "i \<notin> evictable (bpm_evictor c)"
      using pool_exceptD(5) [OF ex, of i] lt frames by (simp add: frame_ok_def Let_def)
    have cap: "i < clock_capacity (bpm_evictor c)" using pool_exceptD(2) [OF ex] lt frames by simp
    then have rem: "evictor_remove (bpm_evictor c) i = Some (bpm_evictor c)"
      using out by (simp add: evictor_remove_def evictable_def)
    define c2 where "c2 = c1\<lparr>frames := (frames b)[i := ?g]\<rparr>"
    have pin: "pin_frame i c1 = Some c2"
      using lt rem by (simp add: pin_frame_def c1_def c2_def inc)
    have run: "fetch_claim tx tx' p b = Some (Miss i data, set_fetch p (Some tx') c2)"
      using miss c x upd pin by (simp add: fetch_claim_def)
    have "page_entered tx b p i data ?g c2"
    proof (rule taken_entered [OF ok taken miss, where d = c])
      show "frames c = (frames b)[i := frames b ! i]" using frames by simp
      show "c2 = c\<lparr>frames := (frames b)[i := ?g], page_table := (page_table c)(p \<mapsto> i)\<rparr>"
        by (simp add: c2_def c1_def)
    qed (use ex fields in simp_all)
    moreover have "fetches (page_io_processing c2) = fetches (page_io_processing b)"
      using taken by (simp add: c2_def c1_def frame_taken_def)
    moreover have "?g = (frames b ! i)\<lparr>frame_dirty := False, frame_page_id := Some p, frame_pin_count := 1\<rparr>"
      by (simp add: set_dirty_def set_page_id_def)
    ultimately have "page_entered tx b p i data
        ((frames b ! i)\<lparr>frame_dirty := False, frame_page_id := Some p, frame_pin_count := 1\<rparr>) c2"
      "fetches (page_io_processing c2) = fetches (page_io_processing b)" by (simp_all only:)
    then show ?thesis using run by simp
  qed
qed

lemma pin_transit:
  assumes ex: "pool_except {i} c" and lt: "i < length (frames c)" and zero: "frame_pin_count (frames c ! i) = 0"
  shows "pin_frame i c = Some (c\<lparr>frames := (frames c)[i := (frames c ! i)\<lparr>frame_pin_count := 1\<rparr>]\<rparr>)"
    and "pool_except {i} (c\<lparr>frames := (frames c)[i := (frames c ! i)\<lparr>frame_pin_count := 1\<rparr>]\<rparr>)"
proof -
  let ?g = "(frames c ! i)\<lparr>frame_pin_count := 1\<rparr>"
  have inc: "increment_pin_count (frames c ! i) = (0, ?g)" using increment_below [of "frames c ! i"] zero by simp
  have out: "i \<notin> evictable (bpm_evictor c)" and used: "i \<notin> set (free_frames c)"
    using pool_exceptD(5) [OF ex lt] by (simp_all add: frame_ok_def Let_def)
  have "i < clock_capacity (bpm_evictor c)" using pool_exceptD(2) [OF ex] lt by simp
  then have rem: "evictor_remove (bpm_evictor c) i = Some (bpm_evictor c)"
    using out by (simp add: evictor_remove_def evictable_def)
  show run: "pin_frame i c = Some (c\<lparr>frames := (frames c)[i := ?g]\<rparr>)"
    using lt rem by (simp add: pin_frame_def inc)
  show "pool_except {i} (c\<lparr>frames := (frames c)[i := ?g]\<rparr>)"
    using pin_frame_ok [OF ex lt used] zero run by auto
qed

text \<open>On both ways to take a frame, it is pinned and then entered in the table.\<close>

lemma create_claim_taken:
  assumes ok: "pool_ok b" and new: "page_table b p = None" and taken: "frame_taken tx b i data c"
    and d: "frames d = (frames b)[i := (frames b ! i)\<lparr>frame_pin_count := 1\<rparr>]" "pool_except {i} d"
      "free_frames d = free_frames c" "page_table d = page_table c" "page_io_processing d = page_io_processing c"
    and run: "create_page_claim tx p b = do {
        d \<leftarrow> update_frame i (set_page_id (Some p)) d;
        Some (i, data, d\<lparr>page_table := (page_table d)(p \<mapsto> i)\<rparr>) }"
  shows "\<exists>b'. create_page_claim tx p b = Some (i, data, b') \<and>
    fetches (page_io_processing b') = fetches (page_io_processing b) \<and>
    page_entered tx b p i data ((frames b ! i)\<lparr>frame_page_id := Some p, frame_pin_count := 1\<rparr>) b'"
proof -
  have lt: "i < length (frames b)" using taken by (simp add: frame_taken_def)
  let ?f = "(frames b ! i)\<lparr>frame_page_id := Some p, frame_pin_count := 1\<rparr>"
  define e where "e = d\<lparr>frames := (frames b)[i := ?f], page_table := (page_table d)(p \<mapsto> i)\<rparr>"
  have f: "?f = set_page_id (Some p) ((frames b ! i)\<lparr>frame_pin_count := 1\<rparr>)" by (simp add: set_page_id_def)
  have "create_page_claim tx p b = Some (i, data, e)"
    unfolding e_def f using run lt by (simp add: update_frame_def d(1) index_def)
  moreover have "page_entered tx b p i data ?f e"
    by (rule taken_entered [OF ok taken new d(2,1,3,4) _ _ _ _ _ e_def])
      (use frame_taken_fields [OF ok taken] d(5) in simp_all)
  moreover have "fetches (page_io_processing e) = fetches (page_io_processing b)"
    using taken d(5) by (simp add: e_def frame_taken_def)
  ultimately show ?thesis by blast
qed

lemma create_claim_ok:
  assumes ok: "pool_ok b" and new: "page_table b p = None"
    and room: "free_frames b \<noteq> [] \<or> evictable (bpm_evictor b) \<noteq> {}"
  shows "\<exists>i data b'. create_page_claim tx p b = Some (i, data, b') \<and>
    fetches (page_io_processing b') = fetches (page_io_processing b) \<and>
    page_entered tx b p i data ((frames b ! i)\<lparr>frame_page_id := Some p, frame_pin_count := 1\<rparr>) b'"
proof (cases "free_frames b = []")
  case False
  let ?i = "last (free_frames b)" and ?c = "b\<lparr>free_frames := butlast (free_frames b)\<rparr>"
  let ?d = "?c\<lparr>frames := (frames ?c)[?i := (frames ?c ! ?i)\<lparr>frame_pin_count := 1\<rparr>]\<rparr>"
  have taken: "frame_taken tx b ?i None ?c" by (rule pop_free_ok [OF ok False])
  then have c: "pool_except {?i} ?c" "?i < length (frames ?c)" "frame_pin_count (frames ?c ! ?i) = 0"
    by (simp_all add: frame_taken_def)
  have "create_page_claim tx p b = do {
      d \<leftarrow> update_frame ?i (set_page_id (Some p)) ?d; Some (?i, None, d\<lparr>page_table := (page_table d)(p \<mapsto> ?i)\<rparr>) }"
    using False pin_transit(1) [OF c] by (simp add: create_page_claim_def vec_pop_def)
  from create_claim_taken [OF ok new taken _ pin_transit(2) [OF c] _ _ _ this] show ?thesis by auto
next
  case True
  obtain r c where e0: "evict_page b = Some (r, c)" using evict_page_ok [OF ok] by blast
  then obtain x where "r = Ok x" using evict_page_ok [OF ok] room True by (cases r) simp_all
  then obtain i data where e: "evict_page b = Some (Ok (i, data), c)" using e0 by (cases x) simp
  then have c: "frames c = frames b" "pool_except {i} c" "i < length (frames c)" "frame_pin_count (frames c ! i) = 0"
    using evict_page_ok [OF ok] by auto
  obtain q where q: "data = (if frame_dirty (frames b ! i) then Some (q, frame_data (frames b ! i)) else None)"
    using evict_page_ok [OF ok] e by auto
  let ?d = "c\<lparr>frames := (frames c)[i := (frames c ! i)\<lparr>frame_pin_count := 1\<rparr>]\<rparr>"
  let ?e = "case data of None \<Rightarrow> ?d | Some (q, _) \<Rightarrow> set_flush q (Some tx) ?d"
  have announce: "announce_flush tx i data ?d = Some ?e"
    by (rule announce_flush_ok [where q = q and bs = "frame_data (frames b ! i)"]) (use c q in simp_all)
  have ex: "pool_except {i} ?e" using pin_transit(2) [OF c(2-4)] by (simp split: option.split)
  have "create_page_claim tx p b = do {
      d \<leftarrow> update_frame i (set_page_id (Some p)) ?e; Some (i, data, d\<lparr>page_table := (page_table d)(p \<mapsto> i)\<rparr>) }"
    using True e pin_transit(1) [OF c(2-4)] announce by (simp add: create_page_claim_def vec_pop_def)
  note run = this
  show ?thesis
    by (rule exI [of _ i], rule exI [of _ data],
        rule create_claim_taken [OF ok new evict_taken(1) [OF ok True e] _ ex _ _ _ run])
      (use c(1) in \<open>simp_all add: set_flush_def split: option.split\<close>)
qed

lemma create_claim_full:
  assumes ok: "pool_ok b" and full: "free_frames b = []" "evictable (bpm_evictor b) = {}"
  shows "create_page_claim tx p b = None"
proof -
  obtain r c where e: "evict_page b = Some (r, c)" using evict_page_ok [OF ok] by blast
  then obtain x where "r = Err x" using evict_page_ok [OF ok] full(2) by (cases r) auto
  then show ?thesis using e full(1) by (simp add: create_page_claim_def vec_pop_def)
qed

section \<open>Whole operations\<close>

text \<open>What the disk holds after the dirty page of a frame was written.\<close>

definition flushed_content :: "'c buffer_pool \<Rightarrow> usize \<Rightarrow> (page_id \<Rightarrow> bytes) \<Rightarrow> page_id \<Rightarrow> bytes" where
  "flushed_content b i content =
     (case frame_page_id (frames b ! i) of
        Some q \<Rightarrow> if free_frames b = [] \<and> frame_dirty (frames b ! i)
          then content(q := frame_data (frames b ! i)) else content
      | None \<Rightarrow> content)"

lemma entered_flush:
  assumes ok: "pool_ok b" and "page_entered tx b p i data f b'"
  shows "case data of None \<Rightarrow> flushed_content b i content = content
    | Some (q, bs) \<Rightarrow> page_table b q = Some i \<and> bs = frame_data (frames b ! i) \<and>
        flushed_content b i content = content(q := bs)"
proof -
  note wf = pool_exceptD [OF ok [unfolded pool_ok_def]]
  from assms(2) consider (free) "i \<in> set (free_frames b)" "data = None"
    | (evict) q where "free_frames b = []" "page_table b q = Some i"
        "data = (if frame_dirty (frames b ! i) then Some (q, frame_data (frames b ! i)) else None)"
    unfolding page_entered_def by (elim conjE disjE exE) (simp_all split: if_splits)
  then show ?thesis
  proof cases
    case free
    then have "free_frames b \<noteq> []" by auto
    then show ?thesis using free by (simp add: flushed_content_def split: option.split)
  next
    case evict
    then show ?thesis using wf(6) [OF evict(2)] by (simp add: flushed_content_def)
  qed
qed

lemma entered_fields:
  assumes "page_entered tx b p i data f b'"
  shows "pool_ok b'" and "frames b' ! i = f" and "page_table b' p = Some i" and "i < length (frames b')"
  using assms unfolding page_entered_def by (elim conjE disjE exE; simp)+

lemma entered_flushes:
  assumes "page_entered tx b p i data f b'" and "page_table b p = None"
  shows "flushes (page_io_processing b') p = flushes (page_io_processing b) p"
  using assms unfolding page_entered_def by (elim conjE disjE exE) (auto split: if_splits)

lemma fetch_filled_ok:
  assumes ok: "pool_ok b" and i: "i < length (frames b)" "i \<notin> set (free_frames b)" and len: "length bs = PAGE_SIZE"
  shows "\<exists>b'. fetch_filled p i bs b = Some (fetches (page_io_processing b) p, b') \<and> pool_ok b' \<and>
    frames b' = (frames b)[i := write_data bs (frames b ! i)] \<and> free_frames b' = free_frames b \<and>
    page_table b' = page_table b \<and> flushes (page_io_processing b') = flushes (page_io_processing b) \<and>
    fetches (page_io_processing b') = (fetches (page_io_processing b))(p := None) \<and>
    evictable (bpm_evictor b') = evictable (bpm_evictor b)"
proof -
  note wf = pool_exceptD [OF ok [unfolded pool_ok_def]]
  define c where "c = b\<lparr>frames := (frames b)[i := write_data bs (frames b ! i)]\<rparr>"
  have "pool_ok c" unfolding pool_ok_def
  proof (rule pool_exceptI)
    show "frame_ok {} c j" if "j < length (frames c)" for j
    proof (cases "j = i")
      case True
      then show ?thesis using wf(5) [OF i(1)] i len by (simp add: c_def frame_ok_def Let_def)
    next
      case False
      have "frame_ok {} c j = frame_ok {} b j"
        by (rule frame_ok_cong) (use False in \<open>simp_all add: c_def\<close>)
      then show ?thesis using wf(5) [of j] that by (simp add: c_def)
    qed
    show "j < length (frames c) \<and> j \<notin> {} \<and> j \<notin> set (free_frames c) \<and> frame_page_id (frames c ! j) = Some r"
      if "page_table c r = Some j" for r j
      using wf(6) [of r j] that by (cases "j = i") (simp_all add: c_def)
  qed (use wf in \<open>simp_all add: c_def\<close>)
  then have "pool_ok (set_fetch p None c)" by (simp add: pool_ok_def)
  moreover have "fetch_filled p i bs b = Some (fetches (page_io_processing b) p, set_fetch p None c)"
    using i(1) by (simp add: fetch_filled_def update_frame_def index_def c_def)
  ultimately show ?thesis by (simp add: c_def)
qed

text \<open>Where the frame of an entered page came from.\<close>

lemma entered_origin:
  assumes ok: "pool_ok b" and new: "page_table b p = None" and entered: "page_entered tx b p i data f b'"
  shows "i < length (frames b)" and "length (frame_data (frames b ! i)) = PAGE_SIZE"
    and "free_frames b \<noteq> [] \<Longrightarrow> frame_data (frames b ! i) = replicate PAGE_SIZE 0"
    and "free_frames b = [] \<Longrightarrow> \<exists>q. q \<noteq> p \<and> page_table b q = Some i"
proof -
  show i: "i < length (frames b)" using entered by (simp add: page_entered_def)
  note wf = pool_exceptD(5) [OF ok [unfolded pool_ok_def] i]
  show "length (frame_data (frames b ! i)) = PAGE_SIZE" using wf by (simp add: frame_ok_def Let_def)
  show "frame_data (frames b ! i) = replicate PAGE_SIZE 0" if "free_frames b \<noteq> []"
    using wf entered that by (auto simp: frame_ok_def Let_def page_entered_def)
  show "\<exists>q. q \<noteq> p \<and> page_table b q = Some i" if empty: "free_frames b = []"
  proof -
    obtain q where "page_table b q = Some i" using entered empty by (auto simp: page_entered_def)
    then show ?thesis using new by (intro exI [of _ q]) auto
  qed
qed

context page_store
begin

text \<open>A dirty page that had to leave its frame is written.\<close>

lemma evicted_written:
  assumes good and ok: "pool_ok b" and new: "page_table b p = None"
    and alloc: "\<forall>q. page_table b q \<noteq> None \<longrightarrow> unat (pid_page_index q) < next_of d (pid_table_id q)"
    and entered: "page_entered tx b p i (Some (q, bs)) f c"
    and d1: "ok d1" "content d1 = content d" "\<And>u. next_of d u \<le> next_of d1 u"
    and st: "store q bs d1 = (Ok u, d2)"
  shows "content d2 = flushed_content b i (content d)"
proof -
  have q: "page_table b q = Some i" "bs = frame_data (frames b ! i)"
    "flushed_content b i (content d) = (content d)(q := bs)"
    using entered_flush [OF ok entered, of "content d"] by simp_all
  have "unat (pid_page_index q) < next_of d1 (pid_table_id q)" using alloc q(1) d1(3) less_le_trans by blast
  then show ?thesis
    using write_law [OF assms(1) d1(1) _ _ st] q entered_origin(2) [OF ok new entered] d1(2) by simp
qed

text \<open>The rest of a fetch that has taken a frame.\<close>

lemma fetch_missed:
  assumes good and ok: "pool_ok b" and disk: "ok d" and new: "page_table b p = None"
    and alloc: "\<forall>q. page_table b q \<noteq> None \<longrightarrow> unat (pid_page_index q) < next_of d (pid_table_id q)"
    and idle: "flushes (page_io_processing b) p = None"
    and claim: "fetch_claim tx tx' p b = Some (Miss i data, c)"
    and entered: "page_entered tx b p i data
      ((frames b ! i)\<lparr>frame_dirty := False, frame_page_id := Some p, frame_pin_count := 1\<rparr>) c"
  shows "\<exists>r b' d'. fetch_and_pin_frame get store recv tx tx' p b d = Some (r, b', d') \<and> pool_ok b' \<and>
    (case r of
       Err e \<Rightarrow> e \<noteq> BufferFull
     | Ok i \<Rightarrow> page_table b' p = Some i \<and> 0 < frame_pin_count (frames b' ! i) \<and>
         (whole p d \<longrightarrow> frame_data (frames b' ! i) = content d p) \<and> content d' = flushed_content b i (content d))"
proof -
  note fields = entered_fields [OF entered]
  have no_wait: "flushes (page_io_processing c) p = None"
    using entered_flushes [OF entered new] idle by simp
  obtain rr buf d1 where rd: "get p (replicate PAGE_SIZE 0) d = (rr, buf, d1)" by (metis prod_cases3)
  note law = read_law [OF assms(1) disk rd]
  show ?thesis
  proof (cases rr)
    case (Inl e)
    then show ?thesis using claim no_wait rd fields(1)
      by (simp add: fetch_and_pin_frame_def wait_for_page_flush_def read_error_def)
  next
    case (Inr u)
    then have buf: "whole p d \<Longrightarrow> buf = content d p" "length buf = PAGE_SIZE" "content d1 = content d" "ok d1"
      "next_of d1 = next_of d"
      using law by auto
    have "i \<notin> set (free_frames c)"
      using pool_exceptD(6) [OF fields(1) [unfolded pool_ok_def] fields(3)] by simp
    then obtain c' where c': "fetch_filled p i buf c = Some (fetches (page_io_processing c) p, c')" "pool_ok c'"
      "frames c' = (frames c)[i := write_data buf (frames c ! i)]" "page_table c' = page_table c"
      using fetch_filled_ok [OF fields(1,4) _ buf(2), of p] by blast
    then have cached: "page_table c' p = Some i" "frame_pin_count (frames c' ! i) = 1"
      "whole p d \<Longrightarrow> frame_data (frames c' ! i) = content d p"
      using fields buf(1) by simp_all
    note run = claim no_wait rd Inr c'(1) fetch_and_pin_frame_def wait_for_page_flush_def
    show ?thesis
    proof (cases data)
      case None
      then show ?thesis using entered_flush [OF ok entered, of "content d"] c'(2) cached buf(3) by (simp add: run)
    next
      case (Some x)
      then obtain q bs where x: "data = Some (q, bs)" by (cases x) simp
      obtain sr d2 where st: "store q bs d1 = (sr, d2)" by fastforce
      have "pool_ok (set_flush q None c')" using c'(2) by (simp add: pool_ok_def)
      then show ?thesis
        using evicted_written [OF assms(1) ok new alloc entered [unfolded x] buf(4,3)] st cached buf(5)
        by (cases sr) (simp_all add: run x fetch_flushed_def finish_flush_def write_error_def)
    qed
  qed
qed

text \<open>
  A fetch with no other task on its page: on success the frame of the page is pinned and holds what
  was cached, or else what the disk holds if the read is whole, and a dirty page that had to leave is on the disk.
\<close>

lemma fetch_outcome:
  assumes good and ok: "pool_ok b" and disk: "ok d"
    and idle: "fetches (page_io_processing b) p = None" "flushes (page_io_processing b) p = None"
    and room: "\<forall>f \<in> set (frames b). frame_pin_count f + 1 < 2 ^ 64"
    and alloc: "\<forall>q. page_table b q \<noteq> None \<longrightarrow> unat (pid_page_index q) < next_of d (pid_table_id q)"
  shows "\<exists>r b' d'. fetch_and_pin_frame get store recv tx tx' p b d = Some (r, b', d') \<and> pool_ok b' \<and>
    (case r of
       Err e \<Rightarrow> e = BufferFull \<longrightarrow> page_table b p = None \<and> free_frames b = [] \<and> evictable (bpm_evictor b) = {}
     | Ok i \<Rightarrow> page_table b' p = Some i \<and> 0 < frame_pin_count (frames b' ! i) \<and>
         (case page_table b p of
            Some j \<Rightarrow> j = i \<and> frame_data (frames b' ! i) = frame_data (frames b ! i) \<and> content d' = content d
          | None \<Rightarrow> (whole p d \<longrightarrow> frame_data (frames b' ! i) = content d p) \<and>
              content d' = flushed_content b i (content d)))"
proof (cases "page_table b p")
  case (Some j)
  have lt: "j < length (frames b)" using pool_exceptD(6) [OF ok [unfolded pool_ok_def] Some] by simp
  then have "frame_pin_count (frames b ! j) + 1 < 2 ^ 64" using room by simp
  then obtain b' where "fetch_claim tx tx' p b = Some (Hit j, b')" "pool_ok b'"
    "frames b' = (frames b)[j := (frames b ! j)\<lparr>frame_pin_count := frame_pin_count (frames b ! j) + 1\<rparr>]"
    "page_io_processing b' = page_io_processing b" "page_table b' = page_table b"
    using fetch_claim_hit [OF ok Some] by blast
  then show ?thesis using Some idle(1) lt
    by (simp add: fetch_and_pin_frame_def wait_for_page_fetch_def)
next
  case None
  note out = fetch_claim_miss [OF ok None, of tx tx']
  obtain r c where c: "fetch_claim tx tx' p b = Some (r, c)" using out by blast
  show ?thesis
  proof (cases r)
    case (Hit j)
    then show ?thesis using out c by simp
  next
    case Full
    then show ?thesis using out c None by (simp add: fetch_and_pin_frame_def)
  next
    case (Miss i data)
    have "page_entered tx b p i data
        ((frames b ! i)\<lparr>frame_dirty := False, frame_page_id := Some p, frame_pin_count := 1\<rparr>) c"
      using out c Miss by simp
    from fetch_missed [OF assms(1) ok disk None alloc idle(2) c [unfolded Miss] this, of recv]
    show ?thesis unfolding None by (fastforce split: sum.splits)
  qed
qed

end

context page_store
begin

lemma create_outcome:
  assumes good and ok: "pool_ok b" and disk: "ok d" and room: "next_of d t + 1 < 2 ^ 32"
    and alloc: "\<forall>q. page_table b q \<noteq> None \<longrightarrow> unat (pid_page_index q) < next_of d (pid_table_id q)"
    and frame: "free_frames b \<noteq> [] \<or> evictable (bpm_evictor b) \<noteq> {}"
    and p: "p = \<lparr>pid_table_id = t, pid_page_index = of_nat (next_of d t)\<rparr>"
  shows "\<exists>r b' d'. create_page allocate store tx t b d = Some (r, b', d') \<and> pool_ok b' \<and>
    (case r of
       Err e \<Rightarrow> (\<exists>x. e = PageAllocation x \<or> e = DiskWrite x)
     | Ok i \<Rightarrow> i < length (frames b) \<and> page_table b p = None \<and> page_table b' p = Some i \<and>
         frame_pin_count (frames b' ! i) = 1 \<and> content d p = replicate PAGE_SIZE 0 \<and>
         frame_data (frames b' ! i) = frame_data (frames b ! i) \<and>
         frame_dirty (frames b' ! i) = frame_dirty (frames b ! i) \<and>
         (free_frames b \<noteq> [] \<longrightarrow> frame_data (frames b ! i) = replicate PAGE_SIZE 0) \<and>
         (free_frames b = [] \<longrightarrow> (\<exists>q. q \<noteq> p \<and> page_table b q = Some i)) \<and>
         content d' = flushed_content b i (content d))"
proof -
  obtain r d1 where a: "allocate t d = Some (r, d1)" and law: "case r of Err _ \<Rightarrow> True
     | Ok p' \<Rightarrow> next_of d t + 1 < 2 ^ 32 \<longrightarrow>
         p' = \<lparr>pid_table_id = t, pid_page_index = of_nat (next_of d t)\<rparr> \<and>
         ok d1 \<and> content d1 = content d \<and> content d p' = replicate PAGE_SIZE 0 \<and>
         next_of d1 = (next_of d)(t := next_of d t + 1)"
    using allocate_law [OF assms(1) disk, of t] by blast
  show ?thesis
  proof (cases r)
    case (Inl e)
    then show ?thesis using a ok by (simp add: create_page_def)
  next
    case (Inr p')
    then have d1: "p' = p" "ok d1" "content d1 = content d" "content d p = replicate PAGE_SIZE 0"
      "\<And>u. next_of d u \<le> next_of d1 u"
      using law room p by auto
    have "unat (pid_page_index p) = next_of d t" using room p by (simp add: unat_of_nat take_bit_nat_eq_self)
    then have new: "page_table b p = None" using alloc p by (metis less_irrefl page_id.select_convs(1))
    obtain i data c where c: "create_page_claim tx p b = Some (i, data, c)"
      and entered: "page_entered tx b p i data ((frames b ! i)\<lparr>frame_page_id := Some p, frame_pin_count := 1\<rparr>) c"
      using create_claim_ok [OF ok new frame, of tx] by blast
    note fields = entered_fields [OF entered] and origin = entered_origin [OF ok new entered]
    note run = create_page_def a Inr d1(1) c
    show ?thesis
    proof (cases data)
      case None
      then show ?thesis using entered_flush [OF ok entered, of "content d"] d1 fields new origin by (simp add: run)
    next
      case (Some x)
      then obtain q bs where x: "data = Some (q, bs)" by (cases x) simp
      obtain sr d2 where st: "store q bs d1 = (sr, d2)" by fastforce
      have "pool_ok (set_flush q None c)" using fields(1) by (simp add: pool_ok_def)
      then show ?thesis
        using evicted_written [OF assms(1) ok new alloc entered [unfolded x] d1(2,3,5)] st d1(4) fields new origin
        by (cases sr) (simp_all add: run x create_page_flushed_def finish_flush_def write_error_def)
    qed
  qed
qed

end

text \<open>
  When the read fails, the error is returned but the frame stays pinned, the page stays in the page
  table and its entry in the map of fetches stays too, with a channel on which nobody will send; the
  dirty page that was evicted for it is neither cached nor written.
\<close>

lemma read_error_outcome:
  assumes ok: "pool_ok b" and miss: "page_table b p = None"
    and frame: "free_frames b \<noteq> [] \<or> evictable (bpm_evictor b) \<noteq> {}"
    and idle: "flushes (page_io_processing b) p = None"
    and err: "get p (replicate PAGE_SIZE 0) d = (Err e, buf, d')"
  shows "\<exists>i b'. fetch_and_pin_frame get store recv tx tx' p b d = Some (Err (read_error p e), b', d') \<and>
    page_table b' p = Some i \<and> frame_pin_count (frames b' ! i) = 1 \<and>
    fetches (page_io_processing b') p = Some tx' \<and>
    (free_frames b = [] \<and> frame_dirty (frames b ! i) \<longrightarrow>
      (\<exists>q. page_table b q = Some i \<and> page_table b' q = None \<and> flushes (page_io_processing b') q = Some tx))"
proof -
  note out = fetch_claim_miss [OF ok miss, of tx tx']
  obtain r c where c: "fetch_claim tx tx' p b = Some (r, c)" using out by blast
  then obtain i data where r: "r = Miss i data" using out frame by (cases r) auto
  let ?f = "(frames b ! i)\<lparr>frame_dirty := False, frame_page_id := Some p, frame_pin_count := 1\<rparr>"
  have entered: "page_entered tx b p i data ?f c" and fetch: "fetches (page_io_processing c) p = Some tx'"
    using out c r by simp_all
  note fields = entered_fields [OF entered]
  have "flushes (page_io_processing c) p = None"
    using entered_flushes [OF entered miss] idle by simp
  then have run: "fetch_and_pin_frame get store recv tx tx' p b d = Some (Err (read_error p e), c, d')"
    using c r err by (simp add: fetch_and_pin_frame_def wait_for_page_flush_def)
  have lost: "\<exists>q. page_table b q = Some i \<and> page_table c q = None \<and> flushes (page_io_processing c) q = Some tx"
    if dirty: "free_frames b = []" "frame_dirty (frames b ! i)"
  proof -
    obtain q where q: "page_table b q = Some i" "page_table c = (page_table b)(q := None, p \<mapsto> i)"
      "flushes (page_io_processing c) = (flushes (page_io_processing b))(q \<mapsto> tx)"
      using entered dirty by (auto simp: page_entered_def)
    moreover have "q \<noteq> p" using q(1) miss by auto
    ultimately show ?thesis by (intro exI [of _ q]) simp
  qed
  show ?thesis using run fields fetch lost by auto
qed

section \<open>Properties\<close>

text \<open>
  C37: a fetch of a page that no other task is fetching or flushing, on a well-formed pool whose cached
  pages are allocated and whose pin counts are below their maximum, never panics and keeps the pool
  well-formed. On success the page is in the page table, its frame is pinned and holds the bytes that
  were cached or, on a miss, those of the disk, if the read was not cut short; a dirty page that gave
  up its frame was written, and nothing else on the disk changed. It reports a full buffer only when
  every frame is pinned.
\<close>

theorem fetch_and_pin_frame_correct:
  fixes os :: "('w, 'f) os_fs"
  assumes "os_documented os files path_of cursor"
    and "pool_ok b" and "disk_state_ok files (\<lambda>h. path_of (tokio_file h)) d"
    and "fetches (page_io_processing b) p = None" and "flushes (page_io_processing b) p = None"
    and "\<forall>f \<in> set (frames b). frame_pin_count f + 1 < 2 ^ 64"
    and "\<forall>q. page_table b q \<noteq> None \<longrightarrow> unat (pid_page_index q) < disk_next files d (pid_table_id q)"
  shows "\<exists>r b' d'. fetch_and_pin_frame (disk_read (tokio_file_system os)) (disk_write (tokio_file_system os))
      recv tx tx' p b d = Some (r, b', d') \<and> pool_ok b' \<and>
    (case r of
       Err e \<Rightarrow> e = BufferFull \<longrightarrow> page_table b p = None \<and> free_frames b = [] \<and> evictable (bpm_evictor b) = {}
     | Ok i \<Rightarrow> page_table b' p = Some i \<and> 0 < frame_pin_count (frames b' ! i) \<and>
         (case page_table b p of
            Some j \<Rightarrow> j = i \<and> frame_data (frames b' ! i) = frame_data (frames b ! i) \<and>
              disk_content files d' = disk_content files d
          | None \<Rightarrow> (disk_whole (tokio_file_system os) files p d \<longrightarrow>
                frame_data (frames b' ! i) = disk_content files d p) \<and>
              disk_content files d' = flushed_content b i (disk_content files d)))"
  by (rule tokio.disk.fetch_outcome [OF assms])

text \<open>
  C38: creating a page on a well-formed pool with a frame to give keeps the pool well-formed; on
  success the new page, zeros on the disk, is in the page table in a frame pinned once, and the dirty
  page that gave up its frame was written. The frame keeps the bytes and the dirty flag it had: they
  are zeros when it was free, and the bytes of another page when it was evicted.
\<close>

theorem create_page_correct:
  fixes os :: "('w, 'f) os_fs"
  assumes "os_documented os files path_of cursor"
    and "pool_ok b" and "disk_state_ok files (\<lambda>h. path_of (tokio_file h)) d"
    and "disk_next files d t + 1 < 2 ^ 32"
    and "\<forall>q. page_table b q \<noteq> None \<longrightarrow> unat (pid_page_index q) < disk_next files d (pid_table_id q)"
    and "free_frames b \<noteq> [] \<or> evictable (bpm_evictor b) \<noteq> {}"
    and "p = \<lparr>pid_table_id = t, pid_page_index = of_nat (disk_next files d t)\<rparr>"
  shows "\<exists>r b' d'. create_page (disk_allocate (tokio_file_system os)) (disk_write (tokio_file_system os))
      tx t b d = Some (r, b', d') \<and> pool_ok b' \<and>
    (case r of
       Err e \<Rightarrow> (\<exists>x. e = PageAllocation x \<or> e = DiskWrite x)
     | Ok i \<Rightarrow> i < length (frames b) \<and> page_table b p = None \<and> page_table b' p = Some i \<and>
         frame_pin_count (frames b' ! i) = 1 \<and> disk_content files d p = replicate PAGE_SIZE 0 \<and>
         frame_data (frames b' ! i) = frame_data (frames b ! i) \<and>
         frame_dirty (frames b' ! i) = frame_dirty (frames b ! i) \<and>
         (free_frames b \<noteq> [] \<longrightarrow> frame_data (frames b ! i) = replicate PAGE_SIZE 0) \<and>
         (free_frames b = [] \<longrightarrow> (\<exists>q. q \<noteq> p \<and> page_table b q = Some i)) \<and>
         disk_content files d' = flushed_content b i (disk_content files d))"
  by (rule tokio.disk.create_outcome [OF assms])

text \<open>
  C39: when every frame is pinned, creating a page allocates it on the disk and then panics, under the
  locks of the pool, instead of reporting a full buffer as a fetch does.
\<close>

theorem create_page_full_panics:
  assumes "pool_ok b" and "free_frames b = []" and "evictable (bpm_evictor b) = {}"
    and "allocate t d = Some (Ok p, d')" and "page_table b q = None"
  shows "create_page allocate store tx t b d = None \<and>
    (\<exists>b'. fetch_and_pin_frame get store recv tx tx' q b d' = Some (Err BufferFull, b', d'))"
proof -
  obtain r c where c: "fetch_claim tx tx' q b = Some (r, c)" using fetch_claim_miss [OF assms(1,5)] by blast
  have pinned: "frame_pin_count (frames b ! i) \<noteq> 0" if "i < length (frames b)" for i
    using pool_exceptD(5) [OF assms(1) [unfolded pool_ok_def] that] assms(2,3)
    by (simp add: frame_ok_def Let_def)
  have "r = Full"
  proof (cases r)
    case (Miss i data)
    then show ?thesis
      using fetch_claim_miss [OF assms(1,5), of tx tx'] c pinned [of i] by (simp add: page_entered_def)
  qed (use fetch_claim_miss [OF assms(1,5), of tx tx'] c in simp_all)
  then show ?thesis
    using c create_claim_full [OF assms(1-3)] assms(4)
    by (simp add: create_page_def fetch_and_pin_frame_def)
qed

text \<open>
  A failed read leaves the pool stuck on the page: the caller is told that the buffer is full,
  but the frame stays pinned, the page stays in the page table as being fetched on a channel on which
  nobody sends, and a dirty page that was evicted for it is gone from the cache without being written.
\<close>

lemma fetch_read_error_leaks:
  assumes "pool_ok b" and "page_table b p = None"
    and "free_frames b \<noteq> [] \<or> evictable (bpm_evictor b) \<noteq> {}"
    and "flushes (page_io_processing b) p = None"
    and "get p (replicate PAGE_SIZE 0) d = (Err e, buf, d')"
  shows "\<exists>i b'. fetch_page_read get store recv tx tx' p b d = Some (Err BufferFull, b', d') \<and>
    page_table b' p = Some i \<and> frame_pin_count (frames b' ! i) = 1 \<and>
    fetches (page_io_processing b') p = Some tx' \<and>
    (free_frames b = [] \<and> frame_dirty (frames b ! i) \<longrightarrow>
      (\<exists>q. page_table b q = Some i \<and> page_table b' q = None \<and> flushes (page_io_processing b') q = Some tx))"
proof -
  obtain i b' where run: "fetch_and_pin_frame get store recv tx tx' p b d = Some (Err (read_error p e), b', d')"
    and out: "page_table b' p = Some i \<and> frame_pin_count (frames b' ! i) = 1 \<and>
      fetches (page_io_processing b') p = Some tx' \<and>
      (free_frames b = [] \<and> frame_dirty (frames b ! i) \<longrightarrow>
        (\<exists>q. page_table b q = Some i \<and> page_table b' q = None \<and> flushes (page_io_processing b') q = Some tx))"
    using read_error_outcome [where get = get and p = p and d = d, OF assms, of store recv tx tx'] by blast
  from run have "fetch_page_read get store recv tx tx' p b d = Some (Err BufferFull, b', d')"
    by (simp add: fetch_page_read_def)
  then show ?thesis using out by blast
qed

section \<open>Witnesses\<close>

text \<open>A pool of one frame with the dirty page 0 of table 7, unpinned, or pinned by one guard.\<close>

definition example_page :: "u32 \<Rightarrow> page_id" where
  "example_page i = \<lparr>pid_table_id = 7, pid_page_index = i\<rparr>"

definition example_pool :: "nat buffer_pool" where
  "example_pool =
     \<lparr>bpm_evictor = \<lparr>clock_hand_pos = 0, second_chances = [False], is_in_evictor = [True], evictor_size = 1\<rparr>,
      frames = [\<lparr>frame_data = replicate PAGE_SIZE 5, frame_id = 0, frame_dirty = True,
        frame_page_id = Some (example_page 0), frame_pin_count = 0\<rparr>],
      free_frames = [], page_io_processing = page_processing_map_new, page_table = [example_page 0 \<mapsto> 0]\<rparr>"

definition example_pinned :: "nat buffer_pool" where
  "example_pinned =
     \<lparr>bpm_evictor = \<lparr>clock_hand_pos = 0, second_chances = [False], is_in_evictor = [False], evictor_size = 0\<rparr>,
      frames = [\<lparr>frame_data = replicate PAGE_SIZE 5, frame_id = 0, frame_dirty = True,
        frame_page_id = Some (example_page 0), frame_pin_count = 1\<rparr>],
      free_frames = [], page_io_processing = page_processing_map_new, page_table = [example_page 0 \<mapsto> 0]\<rparr>"

lemma example_page_inject [simp]: "example_page i = example_page j \<longleftrightarrow> i = j"
  by (simp add: example_page_def)

lemma example_evictable [simp]:
  "evictable (bpm_evictor example_pool) = {0}" "evictable (bpm_evictor example_pinned) = {}"
  by (auto simp: example_pool_def example_pinned_def evictable_def)

lemma example_clocks_ok: "clock_ok (bpm_evictor example_pool)" "clock_ok (bpm_evictor example_pinned)"
  unfolding clock_ok_def example_evictable by (simp_all add: example_pool_def example_pinned_def)

lemma example_pool_fields [simp]:
  "frames example_pool = [\<lparr>frame_data = replicate PAGE_SIZE 5, frame_id = 0, frame_dirty = True,
     frame_page_id = Some (example_page 0), frame_pin_count = 0\<rparr>]"
  "free_frames example_pool = []" "page_table example_pool = [example_page 0 \<mapsto> 0]"
  "page_io_processing example_pool = page_processing_map_new"
  "frames example_pinned = [\<lparr>frame_data = replicate PAGE_SIZE 5, frame_id = 0, frame_dirty = True,
     frame_page_id = Some (example_page 0), frame_pin_count = 1\<rparr>]"
  "free_frames example_pinned = []" "page_table example_pinned = [example_page 0 \<mapsto> 0]"
  "page_io_processing example_pinned = page_processing_map_new"
  "clock_capacity (bpm_evictor example_pool) = 1" "clock_capacity (bpm_evictor example_pinned) = 1"
  by (simp_all add: example_pool_def example_pinned_def)

lemma example_pool_ok: "pool_ok example_pool" "pool_ok example_pinned"
  unfolding pool_ok_def
  by (rule pool_exceptI; simp add: example_clocks_ok frame_ok_def split: if_splits)+

lemma example_victim:
  "\<exists>ev. evictor_victim (bpm_evictor example_pool) = Some (Some 0, ev) \<and> clock_capacity ev = 1 \<and> evictable ev = {}"
  using clock_victim_ok [OF example_clocks_ok(1)] by (auto split: option.splits)

lemma example_io [simp]: "fetches page_processing_map_new p = None" "flushes page_processing_map_new p = None"
  by (simp_all add: page_processing_map_new_def)

text \<open>The disk: table 7 has two pages of zeros.\<close>

definition example_store :: "(memory, path tokio_file_handle) disk_state" where
  "example_store = (example_manager 2, example_disk (replicate (2 * PAGE_SIZE) 0))"

lemma example_store_ok: "disk_state_ok mem_files tokio_file example_store"
  unfolding disk_state_ok_def example_store_def prod.sel
  by (rule example_disk_ok) simp_all

lemma example_store_next: "disk_next mem_files example_store 7 = 2"
  by (simp add: disk_next_def example_store_def next_index_def example_manager_def)

text \<open>Both disk operations on these pages succeed.\<close>

lemma example_store_read:
  "\<exists>buf d'. disk_read memory_system (example_page i) buffer example_store = (Ok (), buf, d')"
  by (simp add: disk_read_def disk_run_defs example_store_def example_manager_def example_handle_def
      example_disk_def example_page_def)

lemma example_store_write:
  "disk_read memory_system (example_page i) buffer example_store = (Ok (), buf, d') \<Longrightarrow>
   \<exists>d''. disk_write memory_system (example_page j) data d' = (Ok (), d'')"
  by (auto simp: disk_read_def disk_write_def disk_run_defs example_store_def example_manager_def
      example_handle_def example_disk_def example_page_def)

lemma example_claim:
  "\<exists>data c. fetch_claim tx tx' (example_page 1) example_pool = Some (Miss 0 data, c) \<and>
     page_entered tx example_pool (example_page 1) 0 data
       ((frames example_pool ! 0)\<lparr>frame_dirty := False, frame_page_id := Some (example_page 1), frame_pin_count := 1\<rparr>) c \<and>
     data = Some (example_page 0, replicate PAGE_SIZE 5)"
proof -
  have miss: "page_table example_pool (example_page 1) = None" by simp
  note out = fetch_claim_miss [OF example_pool_ok(1) miss, of tx tx']
  obtain r c where c: "fetch_claim tx tx' (example_page 1) example_pool = Some (r, c)" using out by blast
  show ?thesis
  proof (cases r)
    case (Miss i data)
    then have e: "page_entered tx example_pool (example_page 1) i data
       ((frames example_pool ! i)\<lparr>frame_dirty := False, frame_page_id := Some (example_page 1), frame_pin_count := 1\<rparr>) c"
      using out c by simp
    then have i: "i = 0" by (simp add: page_entered_def)
    obtain q where "page_table example_pool q = Some 0" "data = Some (q, replicate PAGE_SIZE 5)"
      using e i by (auto simp: page_entered_def)
    then have "data = Some (example_page 0, replicate PAGE_SIZE 5)" by (simp split: if_splits)
    then show ?thesis using c e i Miss by blast
  qed (use out c in simp_all)
qed

lemma example_fetch:
  "\<exists>b' d'. fetch_and_pin_frame (disk_read memory_system) (disk_write memory_system) recv tx tx'
     (example_page 1) example_pool example_store = Some (Ok 0, b', d')"
proof -
  obtain data c where c: "fetch_claim tx tx' (example_page 1) example_pool = Some (Miss 0 data, c)"
    and e: "page_entered tx example_pool (example_page 1) 0 data
       ((frames example_pool ! 0)\<lparr>frame_dirty := False, frame_page_id := Some (example_page 1), frame_pin_count := 1\<rparr>) c"
    and data: "data = Some (example_page 0, replicate PAGE_SIZE 5)"
    using example_claim by blast
  have lt: "0 < length (frames c)" using e by (simp add: page_entered_def)
  have wait: "flushes (page_io_processing c) (example_page 1) = None" using entered_flushes [OF e] by simp
  obtain buf d1 where rd: "disk_read memory_system (example_page 1) (replicate PAGE_SIZE 0) example_store = (Ok (), buf, d1)"
    using example_store_read by blast
  then obtain d2 where wr: "disk_write memory_system (example_page 0) (replicate PAGE_SIZE 5) d1 = (Ok (), d2)"
    using example_store_write by blast
  show ?thesis
    using c wait rd wr lt data
    by (simp add: fetch_and_pin_frame_def wait_for_page_flush_def fetch_filled_def update_frame_def
        fetch_flushed_def finish_flush_def)
qed

theorem fetch_and_pin_frame_correct_witness:
  "\<exists>b' d'. fetch_and_pin_frame (disk_read memory_system) (disk_write memory_system) (\<lambda>_. Err ''closed'') 1 2
     (example_page 1) example_pool example_store = Some (Ok 0, b', d') \<and>
     page_table b' (example_page 1) = Some 0 \<and>
     disk_content mem_files d' (example_page 0) = replicate PAGE_SIZE 5"
proof -
  have room: "\<forall>f \<in> set (frames example_pool). frame_pin_count f + 1 < 2 ^ 64" by simp
  have alloc: "\<forall>q. page_table example_pool q \<noteq> None \<longrightarrow>
      unat (pid_page_index q) < disk_next mem_files example_store (pid_table_id q)"
    by (simp add: example_page_def example_store_next)
  have idle: "fetches (page_io_processing example_pool) (example_page 1) = None"
    "flushes (page_io_processing example_pool) (example_page 1) = None" by simp_all
  obtain b' d' where run: "fetch_and_pin_frame (disk_read memory_system) (disk_write memory_system)
     (\<lambda>_. Err ''closed'') 1 2 (example_page 1) example_pool example_store = Some (Ok 0, b', d')"
    using example_fetch by blast
  then have "page_table b' (example_page 1) = Some 0 \<and>
      disk_content mem_files d' = flushed_content example_pool 0 (disk_content mem_files example_store)"
    using fetch_and_pin_frame_correct [OF memory_documented example_pool_ok(1)
        example_store_ok idle room alloc, of "\<lambda>_. Err ''closed''" 1 2] by simp
  then show ?thesis using run by (simp add: flushed_content_def)
qed

text \<open>Page 2 is allocated and takes over the frame with the bytes of page 0.\<close>

lemma example_create:
  "\<exists>b' d'. create_page (disk_allocate memory_system) (disk_write memory_system) tx 7 example_pool example_store =
     Some (Ok 0, b', d')"
proof -
  obtain d1 where al: "disk_allocate memory_system 7 example_store = Some (Ok (example_page 2), d1)"
    and wr: "\<exists>d2. disk_write memory_system (example_page 0) (replicate PAGE_SIZE 5) d1 = (Ok (), d2)"
    by (simp add: disk_allocate_def disk_write_def disk_run_defs example_store_def example_manager_def
        example_handle_def example_disk_def example_page_def)
  then obtain d2 where wr: "disk_write memory_system (example_page 0) (replicate PAGE_SIZE 5) d1 = (Ok (), d2)"
    by blast
  have miss: "page_table example_pool (example_page 2) = None" by simp
  obtain i data c where c: "create_page_claim tx (example_page 2) example_pool = Some (i, data, c)"
    and e: "page_entered tx example_pool (example_page 2) i data
       ((frames example_pool ! i)\<lparr>frame_page_id := Some (example_page 2), frame_pin_count := 1\<rparr>) c"
    using create_claim_ok [OF example_pool_ok(1) miss, of tx] by auto
  then have i: "i = 0" by (simp add: page_entered_def)
  obtain q where "page_table example_pool q = Some 0" "data = Some (q, replicate PAGE_SIZE 5)"
    using e i by (auto simp: page_entered_def)
  then have "data = Some (example_page 0, replicate PAGE_SIZE 5)" by (simp split: if_splits)
  then show ?thesis using al c wr i
    by (simp add: create_page_def create_page_flushed_def finish_flush_def)
qed

theorem create_page_correct_witness:
  "\<exists>b' d'. create_page (disk_allocate memory_system) (disk_write memory_system) 1 7 example_pool example_store =
     Some (Ok 0, b', d') \<and> frame_data (frames b' ! 0) = replicate PAGE_SIZE 5 \<and>
     disk_content mem_files example_store (example_page 2) = replicate PAGE_SIZE 0"
proof -
  have alloc: "\<forall>q. page_table example_pool q \<noteq> None \<longrightarrow>
      unat (pid_page_index q) < disk_next mem_files example_store (pid_table_id q)"
    by (simp add: example_page_def example_store_next)
  have room: "disk_next mem_files example_store 7 + 1 < 2 ^ 32" by (simp add: example_store_next)
  have frame: "free_frames example_pool \<noteq> [] \<or> evictable (bpm_evictor example_pool) \<noteq> {}" by simp
  have p: "example_page 2 = \<lparr>pid_table_id = 7, pid_page_index = of_nat (disk_next mem_files example_store 7)\<rparr>"
    by (simp add: example_page_def example_store_next)
  obtain b' d' where run: "create_page (disk_allocate memory_system) (disk_write memory_system) 1 7
     example_pool example_store = Some (Ok 0, b', d')"
    using example_create by blast
  then show ?thesis
    using create_page_correct [OF memory_documented example_pool_ok(1) example_store_ok room alloc frame p, of 1]
    by simp
qed

theorem create_page_full_panics_witness:
  "\<exists>d'. disk_allocate memory_system 7 example_store = Some (Ok (example_page 2), d') \<and>
     create_page (disk_allocate memory_system) (disk_write memory_system) 1 7 example_pinned example_store = None"
proof -
  obtain d1 where al: "disk_allocate memory_system 7 example_store = Some (Ok (example_page 2), d1)"
    by (simp add: disk_allocate_def disk_run_defs example_store_def example_manager_def
        example_handle_def example_disk_def example_page_def)
  have full: "free_frames example_pinned = []" "evictable (bpm_evictor example_pinned) = {}"
    "page_table example_pinned (example_page 1) = None" by simp_all
  have "create_page (disk_allocate memory_system) (disk_write memory_system) 1 7 example_pinned example_store = None"
    using create_page_full_panics [where allocate = "disk_allocate memory_system" and t = 7
        and d = example_store, OF example_pool_ok(2) full(1,2) al full(3)] by (rule conjunct1)
  then show ?thesis using al by blast
qed

end
