(* ===== verification/Pool_System.thy ===== *)
theory Pool_System
  imports Buffer_Pool
begin

text \<open>
  Any number of tasks on one buffer pool: the sections of \<open>buffer_pool_manager.rs\<close> as the steps of
  a transition system. A task is at one of the await points of an operation, or holds a guard; a
  step is one section, one disk operation, one message received, or one use of a guard. The disk is
  a page store; it may fail at any step, and a read may be cut short. A message is received only from
  a channel on which it was sent, and a wait ends in an error only when the channel was taken out of
  the maps and nothing was sent on it. The buffer of a read is an array of \<open>PAGE_SIZE\<close> bytes, so a read
  does not change its length.

  Dropping a guard is one step here; \<open>Pool_Drops\<close> takes it in the two steps it has. Clients fetch
  pages that were allocated and returned to their creator, and mark a page dirty when they change
  it.
\<close>

section \<open>Definitions\<close>

text \<open>
  The state of a task: the page and the frame it has pinned, and a page it evicted and has yet to
  write. The states before \<open>Allocated\<close> are those of a fetch, \<open>Allocated\<close> and \<open>Create_Flush\<close> those of a
  creation; \<open>Pinned\<close> is the end of both, where the task takes the lock of the data.
\<close>

datatype 'c task =
    Idle
  | Hit_Check page_id usize
  | Fetch_Wait page_id usize 'c
  | Miss_Check page_id usize flush
  | Flush_Wait page_id usize flush 'c
  | Reading page_id usize flush
  | Filling page_id usize flush bytes
  | Writing_Back page_id usize page_id bytes
  | Allocated page_id
  | Create_Flush page_id usize page_id bytes
  | Pinned page_id usize
  | Reader page_id usize
  | Writer page_id usize

fun task_frame :: "'c task \<Rightarrow> (page_id \<times> usize) option" where
  "task_frame Idle = None"
| "task_frame (Allocated p) = None"
| "task_frame (Hit_Check p i) = Some (p, i)"
| "task_frame (Fetch_Wait p i c) = Some (p, i)"
| "task_frame (Miss_Check p i fl) = Some (p, i)"
| "task_frame (Flush_Wait p i fl c) = Some (p, i)"
| "task_frame (Reading p i fl) = Some (p, i)"
| "task_frame (Filling p i fl bs) = Some (p, i)"
| "task_frame (Writing_Back p i q bs) = Some (p, i)"
| "task_frame (Create_Flush p i q bs) = Some (p, i)"
| "task_frame (Pinned p i) = Some (p, i)"
| "task_frame (Reader p i) = Some (p, i)"
| "task_frame (Writer p i) = Some (p, i)"

fun task_flush :: "'c task \<Rightarrow> flush" where
  "task_flush (Miss_Check p i fl) = fl"
| "task_flush (Flush_Wait p i fl c) = fl"
| "task_flush (Reading p i fl) = fl"
| "task_flush (Filling p i fl bs) = fl"
| "task_flush (Writing_Back p i q bs) = Some (q, bs)"
| "task_flush (Create_Flush p i q bs) = Some (q, bs)"
| "task_flush _ = None"

text \<open>The page a task is bringing into its frame.\<close>

fun task_load :: "'c task \<Rightarrow> page_id option" where
  "task_load (Miss_Check p i fl) = Some p"
| "task_load (Flush_Wait p i fl c) = Some p"
| "task_load (Reading p i fl) = Some p"
| "task_load (Filling p i fl bs) = Some p"
| "task_load _ = None"

text \<open>The locks of the data of a frame.\<close>

fun locks_write :: "'c task \<Rightarrow> usize \<Rightarrow> bool" where
  "locks_write (Writer p i) j = (i = j)"
| "locks_write (Writing_Back p i q bs) j = (i = j)"
| "locks_write _ j = False"

fun locks_read :: "'c task \<Rightarrow> usize \<Rightarrow> bool" where
  "locks_read (Reader p i) j = (i = j)"
| "locks_read _ j = False"

text \<open>
  The system: beside the pool, the disk and the tasks it records the channels that were created and
  those on which a message was sent, and, for the specification only, the last bytes written to each
  page, the pages that were created in an evicted frame or of which a read came short, and which were
  not written since, and whether a disk operation or a wait for a flush has failed.
\<close>

record ('c, 'd) system =
  pool :: "'c buffer_pool"
  store_state :: 'd
  tasks :: "nat \<Rightarrow> 'c task"
  used :: "'c set"
  sent :: "'c set"
  expected :: "page_id \<Rightarrow> bytes"
  suspect :: "page_id set"
  failed :: bool

definition page_allocated :: "('d \<Rightarrow> u32 \<Rightarrow> nat) \<Rightarrow> 'd \<Rightarrow> page_id \<Rightarrow> bool" where
  "page_allocated next_of d p \<longleftrightarrow> unat (pid_page_index p) < next_of d (pid_table_id p)"

definition known :: "('d \<Rightarrow> u32 \<Rightarrow> nat) \<Rightarrow> ('c, 'd) system \<Rightarrow> page_id \<Rightarrow> bool" where
  "known next_of s p \<longleftrightarrow> page_allocated next_of (store_state s) p \<and> (\<forall>t. tasks s t \<noteq> Allocated p)"

text \<open>
  A receiver is told that a channel is closed when nothing was sent on it and no sender is left. The
  sender that counts here is the one in the maps; the operation that has made the channel may hold
  another for some time, so that the model closes a channel no later than the program does.
\<close>

definition channel_closed :: "('c, 'd) system \<Rightarrow> 'c \<Rightarrow> bool" where
  "channel_closed s c \<longleftrightarrow> c \<in> used s \<and> c \<notin> sent s \<and>
     (\<forall>p. fetches (page_io_processing (pool s)) p \<noteq> Some c \<and> flushes (page_io_processing (pool s)) p \<noteq> Some c)"

definition pins_bounded :: "'c buffer_pool \<Rightarrow> bool" where
  "pins_bounded b \<longleftrightarrow> (\<forall>f \<in> set (frames b). frame_pin_count f + 1 < 2 ^ 64)"

definition after_claim :: "page_id \<Rightarrow> usize \<Rightarrow> flush \<Rightarrow> 'c task" where
  "after_claim p i fl = (case fl of None \<Rightarrow> Pinned p i | Some (q, bs) \<Rightarrow> Create_Flush p i q bs)"

definition after_fill :: "page_id \<Rightarrow> usize \<Rightarrow> flush \<Rightarrow> 'c task" where
  "after_fill p i fl = (case fl of None \<Rightarrow> Pinned p i | Some (q, bs) \<Rightarrow> Writing_Back p i q bs)"

definition after_write :: "page_id \<Rightarrow> usize \<Rightarrow> (bpm_error, unit) rust_result \<Rightarrow> 'c task" where
  "after_write p i r = (case r of Ok _ \<Rightarrow> Pinned p i | Err _ \<Rightarrow> Idle)"

inductive step ::
  "(u32 \<Rightarrow> 'd \<Rightarrow> ((io_error, page_id) rust_result \<times> 'd) option) \<Rightarrow>
   (page_id \<Rightarrow> bytes \<Rightarrow> 'd \<Rightarrow> (io_error, unit) rust_result \<times> bytes \<times> 'd) \<Rightarrow>
   (page_id \<Rightarrow> 'd \<Rightarrow> bool) \<Rightarrow>
   (page_id \<Rightarrow> bytes \<Rightarrow> 'd \<Rightarrow> (io_error, unit) rust_result \<times> 'd) \<Rightarrow>
   ('d \<Rightarrow> u32 \<Rightarrow> nat) \<Rightarrow> nat \<Rightarrow> ('c, 'd) system \<Rightarrow> ('c, 'd) system \<Rightarrow> bool"
  for allocate get whole store next_of t where
  hit: "tasks s t = Idle \<Longrightarrow> known next_of s p \<Longrightarrow> pins_bounded (pool s) \<Longrightarrow>
    fetch_claim tx tx' p (pool s) = Some (Hit i, b) \<Longrightarrow>
    step allocate get whole store next_of t s (s\<lparr>pool := b, tasks := (tasks s)(t := Hit_Check p i)\<rparr>)"
| full: "tasks s t = Idle \<Longrightarrow> known next_of s p \<Longrightarrow>
    fetch_claim tx tx' p (pool s) = Some (Full, b) \<Longrightarrow>
    step allocate get whole store next_of t s (s\<lparr>pool := b\<rparr>)"
| miss: "tasks s t = Idle \<Longrightarrow> known next_of s p \<Longrightarrow> tx \<notin> used s \<Longrightarrow> tx' \<notin> used s \<Longrightarrow> tx \<noteq> tx' \<Longrightarrow>
    fetch_claim tx tx' p (pool s) = Some (Miss i fl, b) \<Longrightarrow>
    step allocate get whole store next_of t s
      (s\<lparr>pool := b, tasks := (tasks s)(t := Miss_Check p i fl), used := insert tx (insert tx' (used s))\<rparr>)"
| hit_ready: "tasks s t = Hit_Check p i \<Longrightarrow> fetches (page_io_processing (pool s)) p = None \<Longrightarrow>
    step allocate get whole store next_of t s (s\<lparr>tasks := (tasks s)(t := Pinned p i)\<rparr>)"
| hit_wait: "tasks s t = Hit_Check p i \<Longrightarrow> fetches (page_io_processing (pool s)) p = Some c \<Longrightarrow>
    step allocate get whole store next_of t s (s\<lparr>tasks := (tasks s)(t := Fetch_Wait p i c)\<rparr>)"
| fetch_received: "tasks s t = Fetch_Wait p i c \<Longrightarrow> c \<in> sent s \<Longrightarrow>
    step allocate get whole store next_of t s (s\<lparr>tasks := (tasks s)(t := Pinned p i)\<rparr>)"
| fetch_closed: "tasks s t = Fetch_Wait p i c \<Longrightarrow> channel_closed s c \<Longrightarrow> unpin_frame i (pool s) = Some b \<Longrightarrow>
    step allocate get whole store next_of t s (s\<lparr>pool := b, tasks := (tasks s)(t := Idle)\<rparr>)"
| miss_ready: "tasks s t = Miss_Check p i fl \<Longrightarrow> flushes (page_io_processing (pool s)) p = None \<Longrightarrow>
    step allocate get whole store next_of t s (s\<lparr>tasks := (tasks s)(t := Reading p i fl)\<rparr>)"
| miss_wait: "tasks s t = Miss_Check p i fl \<Longrightarrow> flushes (page_io_processing (pool s)) p = Some c \<Longrightarrow>
    step allocate get whole store next_of t s (s\<lparr>tasks := (tasks s)(t := Flush_Wait p i fl c)\<rparr>)"
| flush_received: "tasks s t = Flush_Wait p i fl c \<Longrightarrow> c \<in> sent s \<Longrightarrow>
    step allocate get whole store next_of t s (s\<lparr>tasks := (tasks s)(t := Reading p i fl)\<rparr>)"
| flush_closed: "tasks s t = Flush_Wait p i fl c \<Longrightarrow> channel_closed s c \<Longrightarrow>
    step allocate get whole store next_of t s (s\<lparr>tasks := (tasks s)(t := Idle), failed := True\<rparr>)"
| read: "tasks s t = Reading p i fl \<Longrightarrow> get p (replicate PAGE_SIZE 0) (store_state s) = (Ok u, bs, d) \<Longrightarrow>
    length bs = PAGE_SIZE \<Longrightarrow>
    step allocate get whole store next_of t s
      (s\<lparr>store_state := d, tasks := (tasks s)(t := Filling p i fl bs),
         suspect := (if whole p (store_state s) then suspect s else insert p (suspect s))\<rparr>)"
| read_failed: "tasks s t = Reading p i fl \<Longrightarrow> get p (replicate PAGE_SIZE 0) (store_state s) = (Err e, bs, d) \<Longrightarrow>
    step allocate get whole store next_of t s
      (s\<lparr>store_state := d, tasks := (tasks s)(t := Idle), failed := True\<rparr>)"
| fill: "tasks s t = Filling p i fl bs \<Longrightarrow>
    \<forall>u. \<not> locks_read (tasks s u) i \<and> \<not> locks_write (tasks s u) i \<Longrightarrow>
    fetch_filled p i bs (pool s) = Some (c, b) \<Longrightarrow>
    step allocate get whole store next_of t s
      (s\<lparr>pool := b, tasks := (tasks s)(t := after_fill p i fl), sent := set_option c \<union> sent s\<rparr>)"
| write_back: "tasks s t = Writing_Back p i q bs \<Longrightarrow> store q bs (store_state s) = (r, d) \<Longrightarrow>
    fetch_flushed q r (pool s) = (r', c, b) \<Longrightarrow>
    step allocate get whole store next_of t s
      (s\<lparr>pool := b, store_state := d, tasks := (tasks s)(t := after_write p i r'),
         sent := set_option c \<union> sent s, failed := failed s \<or> r \<noteq> Ok ()\<rparr>)"
| allocated: "tasks s t = Idle \<Longrightarrow> next_of (store_state s) table_id + 1 < 2 ^ 32 \<Longrightarrow>
    allocate table_id (store_state s) = Some (Ok p, d) \<Longrightarrow>
    step allocate get whole store next_of t s (s\<lparr>store_state := d, tasks := (tasks s)(t := Allocated p)\<rparr>)"
| allocate_failed: "tasks s t = Idle \<Longrightarrow> allocate table_id (store_state s) = Some (Err e, d) \<Longrightarrow>
    step allocate get whole store next_of t s (s\<lparr>store_state := d, failed := True\<rparr>)"
| claim: "tasks s t = Allocated p \<Longrightarrow> page_table (pool s) p = None \<Longrightarrow> tx \<notin> used s \<Longrightarrow>
    create_page_claim tx p (pool s) = Some (i, fl, b) \<Longrightarrow>
    step allocate get whole store next_of t s
      (s\<lparr>pool := b, tasks := (tasks s)(t := after_claim p i fl), used := insert tx (used s),
         suspect := (if free_frames (pool s) = [] then insert p (suspect s) else suspect s)\<rparr>)"
| create_flush: "tasks s t = Create_Flush p i q bs \<Longrightarrow> store q bs (store_state s) = (r, d) \<Longrightarrow>
    create_page_flushed q r (pool s) = (r', c, b) \<Longrightarrow>
    step allocate get whole store next_of t s
      (s\<lparr>pool := b, store_state := d, tasks := (tasks s)(t := after_write p i r'),
         sent := set_option c \<union> sent s, failed := failed s \<or> r \<noteq> Ok ()\<rparr>)"
| lock_read: "tasks s t = Pinned p i \<Longrightarrow> \<forall>u. \<not> locks_write (tasks s u) i \<Longrightarrow>
    step allocate get whole store next_of t s (s\<lparr>tasks := (tasks s)(t := Reader p i)\<rparr>)"
| lock_write: "tasks s t = Pinned p i \<Longrightarrow>
    \<forall>u. \<not> locks_read (tasks s u) i \<and> \<not> locks_write (tasks s u) i \<Longrightarrow>
    step allocate get whole store next_of t s (s\<lparr>tasks := (tasks s)(t := Writer p i)\<rparr>)"
| store_guard: "tasks s t = Writer p i \<Longrightarrow> length bs = PAGE_SIZE \<Longrightarrow>
    update_frame i (\<lambda>f. set_dirty True (write_data bs f)) (pool s) = Some b \<Longrightarrow>
    step allocate get whole store next_of t s
      (s\<lparr>pool := b, expected := (expected s)(p := bs), suspect := suspect s - {p}\<rparr>)"
| drop_read: "tasks s t = Reader p i \<Longrightarrow> release_read i (pool s) = Some b \<Longrightarrow>
    step allocate get whole store next_of t s (s\<lparr>pool := b, tasks := (tasks s)(t := Idle)\<rparr>)"
| drop_write: "tasks s t = Writer p i \<Longrightarrow> release_write i (pool s) = Some b \<Longrightarrow>
    step allocate get whole store next_of t s (s\<lparr>pool := b, tasks := (tasks s)(t := Idle)\<rparr>)"

definition initial :: "(page_id \<Rightarrow> bytes) \<Rightarrow> usize \<Rightarrow> 'd \<Rightarrow> ('c, 'd) system" where
  "initial content n d =
     \<lparr>pool = buffer_pool_new n, store_state = d, tasks = \<lambda>_. Idle, used = {}, sent = {},
      expected = content, suspect = {}, failed = False\<rparr>"

inductive run ::
  "(u32 \<Rightarrow> 'd \<Rightarrow> ((io_error, page_id) rust_result \<times> 'd) option) \<Rightarrow>
   (page_id \<Rightarrow> bytes \<Rightarrow> 'd \<Rightarrow> (io_error, unit) rust_result \<times> bytes \<times> 'd) \<Rightarrow>
   (page_id \<Rightarrow> 'd \<Rightarrow> bool) \<Rightarrow>
   (page_id \<Rightarrow> bytes \<Rightarrow> 'd \<Rightarrow> (io_error, unit) rust_result \<times> 'd) \<Rightarrow>
   ('d \<Rightarrow> u32 \<Rightarrow> nat) \<Rightarrow> ('c, 'd) system \<Rightarrow> ('c, 'd) system \<Rightarrow> bool"
  for allocate get whole store next_of s where
  start: "run allocate get whole store next_of s s"
| continue: "run allocate get whole store next_of s s' \<Longrightarrow> step allocate get whole store next_of t s' s'' \<Longrightarrow>
    run allocate get whole store next_of s s''"

section \<open>Pins\<close>

text \<open>
  The first invariant: the pool is well-formed, every task that works on a frame finds its page in
  the page table at that frame, and a frame is pinned at least once for every such task.
\<close>

definition holders :: "(nat \<Rightarrow> 'c task) \<Rightarrow> usize \<Rightarrow> nat set" where
  "holders T i = {t. \<exists>p. task_frame (T t) = Some (p, i)}"

definition pins_inv :: "'c buffer_pool \<Rightarrow> (nat \<Rightarrow> 'c task) \<Rightarrow> bool" where
  "pins_inv b T \<longleftrightarrow> pool_ok b \<and> finite {t. T t \<noteq> Idle} \<and>
     (\<forall>t p i. task_frame (T t) = Some (p, i) \<longrightarrow> page_table b p = Some i) \<and>
     (\<forall>i < length (frames b). card (holders T i) \<le> frame_pin_count (frames b ! i))"

lemma pins_invD:
  assumes "pins_inv b T"
  shows "pool_ok b" and "finite {t. T t \<noteq> Idle}"
    and "task_frame (T t) = Some (p, i) \<Longrightarrow> page_table b p = Some i"
    and "i < length (frames b) \<Longrightarrow> card (holders T i) \<le> frame_pin_count (frames b ! i)"
  using assms by (auto simp: pins_inv_def)

lemma finite_holders: "pins_inv b T \<Longrightarrow> finite (holders T i)"
  by (rule finite_subset [OF _ pins_invD(2)]) (auto simp: holders_def)

lemma table_lt: "pool_ok b \<Longrightarrow> page_table b p = Some i \<Longrightarrow> i < length (frames b)"
  by (simp add: pool_ok_def pool_exceptD(6))

lemma table_inj: "pool_ok b \<Longrightarrow> page_table b p = Some i \<Longrightarrow> page_table b q = Some i \<Longrightarrow> p = q"
  using pool_exceptD(6) [of "{}" b p i] pool_exceptD(6) [of "{}" b q i] by (simp add: pool_ok_def)

text \<open>A frame that nobody has pinned is held by no task.\<close>

lemma unpinned_no_holder:
  assumes inv: "pins_inv b T" and "i < length (frames b)" and "frame_pin_count (frames b ! i) = 0"
  shows "task_frame (T t) \<noteq> Some (p, i)"
proof
  assume "task_frame (T t) = Some (p, i)"
  then have "t \<in> holders T i" by (auto simp: holders_def)
  then have "card (holders T i) > 0" using finite_holders [OF inv] card_gt_0_iff by blast
  then show False using pins_invD(4) [OF inv assms(2)] assms(3) by simp
qed

lemma holder_pinned:
  assumes inv: "pins_inv b T" and "task_frame (T t) = Some (p, i)"
  shows "i < length (frames b) \<and> 0 < frame_pin_count (frames b ! i)"
  using unpinned_no_holder [OF inv] assms(2) table_lt [OF pins_invD(1) [OF inv] pins_invD(3) [OF assms]] by blast

lemma holders_update:
  "holders (T(t := x)) i = (if \<exists>p. task_frame x = Some (p, i) then insert t (holders T i) else holders T i - {t})"
  by (auto simp: holders_def)

lemma pins_update:
  assumes inv: "pins_inv b T" and ok: "pool_ok b'" and len: "length (frames b') = length (frames b)"
    and keep: "\<And>u q j. u \<noteq> t \<Longrightarrow> task_frame (T u) = Some (q, j) \<Longrightarrow> page_table b' q = Some j"
    and own: "\<And>q j. task_frame x = Some (q, j) \<Longrightarrow> page_table b' q = Some j"
    and pins: "\<And>j. j < length (frames b) \<Longrightarrow>
      card (holders (T(t := x)) j) \<le> frame_pin_count (frames b' ! j)"
  shows "pins_inv b' (T(t := x))"
  unfolding pins_inv_def
proof (intro conjI allI impI)
  show "finite {u. (T(t := x)) u \<noteq> Idle}"
    by (rule finite_subset [OF _ finite_insert [THEN iffD2, OF pins_invD(2) [OF inv], of t]]) auto
qed (use ok keep own pins len in \<open>auto split: if_splits\<close>)

text \<open>A task moves on with the same frame; the pins and the page table stay.\<close>

lemma pins_move:
  assumes inv: "pins_inv b T" and ok: "pool_ok b'" and "task_frame x = task_frame (T t)"
    and "page_table b' = page_table b" and "length (frames b') = length (frames b)"
    and "\<And>j. j < length (frames b) \<Longrightarrow> frame_pin_count (frames b' ! j) = frame_pin_count (frames b ! j)"
  shows "pins_inv b' (T(t := x))"
proof (rule pins_update [OF inv ok])
  have "holders (T(t := x)) j = holders T j" for j using assms(3) by (auto simp: holders_def)
  then show "card (holders (T(t := x)) j) \<le> frame_pin_count (frames b' ! j)" if "j < length (frames b)" for j
    using pins_invD(4) [OF inv that] assms(6) [OF that] by simp
qed (use assms pins_invD(3) [OF inv] in auto)

text \<open>A task gives up its frame, which stays pinned.\<close>

lemma pins_leak:
  assumes inv: "pins_inv b T" and "task_frame x = None"
  shows "pins_inv b (T(t := x))"
proof (rule pins_update [OF inv pins_invD(1) [OF inv]])
  fix j assume j: "j < length (frames b)"
  have "card (holders (T(t := x)) j) \<le> card (holders T j)"
    using finite_holders [OF inv] assms(2) by (simp add: holders_update card_mono)
  then show "card (holders (T(t := x)) j) \<le> frame_pin_count (frames b ! j)"
    using pins_invD(4) [OF inv j] by simp
qed (use assms pins_invD(3) [OF inv] in auto)

text \<open>A task takes a frame, which is pinned once more.\<close>

lemma pins_take:
  assumes inv: "pins_inv b T" and ok: "pool_ok b'" and free: "task_frame (T t) = None"
    and x: "task_frame x = Some (p, i)" "page_table b' p = Some i"
    and len: "length (frames b') = length (frames b)"
    and keep: "\<And>u q j. task_frame (T u) = Some (q, j) \<Longrightarrow> page_table b' q = Some j"
    and pin: "frame_pin_count (frames b' ! i) = frame_pin_count (frames b ! i) + 1"
    and rest: "\<And>j. j < length (frames b) \<Longrightarrow> j \<noteq> i \<Longrightarrow>
      frame_pin_count (frames b' ! j) = frame_pin_count (frames b ! j)"
  shows "pins_inv b' (T(t := x))"
proof (rule pins_update [OF inv ok len])
  fix j assume j: "j < length (frames b)"
  show "card (holders (T(t := x)) j) \<le> frame_pin_count (frames b' ! j)"
  proof (cases "j = i")
    case True
    have "card (insert t (holders T i)) \<le> card (holders T i) + 1"
      using finite_holders [OF inv] by (simp add: card_insert_if)
    then show ?thesis using pins_invD(4) [OF inv j] True x(1) pin by (simp add: holders_update)
  next
    case False
    have "t \<notin> holders T j" using free by (simp add: holders_def)
    then show ?thesis using pins_invD(4) [OF inv j] False x(1) rest [OF j] by (simp add: holders_update)
  qed
qed (use keep x in auto)

text \<open>A task gives up its frame, which is unpinned once.\<close>

lemma pins_release:
  assumes inv: "pins_inv b T" and held: "task_frame (T t) = Some (p, i)" and run: "unpin_frame i b = Some b'"
    and x: "task_frame x = None"
  shows "pins_inv b' (T(t := x))" and "page_table b' = page_table b" and "free_frames b' = free_frames b"
    and "page_io_processing b' = page_io_processing b"
    and "frames b' = (frames b)[i := (frames b ! i)\<lparr>frame_pin_count := frame_pin_count (frames b ! i) - 1\<rparr>]"
proof -
  note pinned = holder_pinned [OF inv held]
  have out: "pool_ok b'" "page_table b' = page_table b" "free_frames b' = free_frames b"
    "page_io_processing b' = page_io_processing b"
    "frames b' = (frames b)[i := (frames b ! i)\<lparr>frame_pin_count := frame_pin_count (frames b ! i) - 1\<rparr>]"
    using unpin_frame_ok [OF pins_invD(1) [OF inv], of i] pinned run by auto
  then show "page_table b' = page_table b" "free_frames b' = free_frames b"
    "page_io_processing b' = page_io_processing b"
    "frames b' = (frames b)[i := (frames b ! i)\<lparr>frame_pin_count := frame_pin_count (frames b ! i) - 1\<rparr>]"
    by simp_all
  show "pins_inv b' (T(t := x))"
  proof (rule pins_update [OF inv out(1)])
    fix j assume j: "j < length (frames b)"
    have fin: "finite (holders T j)" by (rule finite_holders [OF inv])
    show "card (holders (T(t := x)) j) \<le> frame_pin_count (frames b' ! j)"
    proof (cases "j = i")
      case True
      have "t \<in> holders T i" using held by (auto simp: holders_def)
      then have "card (holders T i - {t}) = card (holders T i) - 1" using fin True by simp
      then show ?thesis using pins_invD(4) [OF inv j] True x out(5) j by (simp add: holders_update)
    next
      case False
      have "card (holders T j - {t}) \<le> card (holders T j)" using fin by (simp add: card_mono)
      then show ?thesis using pins_invD(4) [OF inv j] False x out(5) j by (simp add: holders_update)
    qed
  qed (use out pins_invD(3) [OF inv] x in auto)
qed

section \<open>What a section does\<close>

text \<open>
  The three ways to take a frame for a page: from the free list, or from a clean or a dirty page \<open>q\<close>.
\<close>

lemma entered_cases:
  assumes ok: "pool_ok b" and miss: "page_table b p = None" and entered: "page_entered tx b p i data f b'"
  obtains (free) "data = None" "free_frames b \<noteq> []" "page_table b' = (page_table b)(p \<mapsto> i)"
      "flushes (page_io_processing b') = flushes (page_io_processing b)"
      "frame_data (frames b ! i) = replicate PAGE_SIZE 0" "\<not> frame_dirty (frames b ! i)"
      "\<And>q. page_table b q \<noteq> Some i"
  | (clean) q where "data = None" "free_frames b = []" "page_table b q = Some i" "q \<noteq> p"
      "page_table b' = (page_table b)(q := None, p \<mapsto> i)"
      "flushes (page_io_processing b') = flushes (page_io_processing b)" "\<not> frame_dirty (frames b ! i)"
  | (dirty) q where "data = Some (q, frame_data (frames b ! i))" "free_frames b = []" "page_table b q = Some i"
      "q \<noteq> p" "page_table b' = (page_table b)(q := None, p \<mapsto> i)"
      "flushes (page_io_processing b') = (flushes (page_io_processing b))(q \<mapsto> tx)" "frame_dirty (frames b ! i)"
proof -
  note wf = pool_exceptD [OF ok [unfolded pool_ok_def]]
  have i: "i < length (frames b)" using entered by (simp add: page_entered_def)
  from entered consider (a) "i \<in> set (free_frames b)" "data = None" "page_table b' = (page_table b)(p \<mapsto> i)"
      "flushes (page_io_processing b') = flushes (page_io_processing b)"
    | (b) q where "free_frames b = []" "page_table b q = Some i"
      "page_table b' = (page_table b)(q := None, p \<mapsto> i)"
      "if frame_dirty (frames b ! i) then data = Some (q, frame_data (frames b ! i)) \<and>
         flushes (page_io_processing b') = (flushes (page_io_processing b))(q \<mapsto> tx)
       else data = None \<and> flushes (page_io_processing b') = flushes (page_io_processing b)"
    unfolding page_entered_def by (elim conjE disjE exE)
  then show thesis
  proof cases
    case a
    have "page_table b q \<noteq> Some i" for q using wf(6) [of q i] a(1) by blast
    moreover have "frame_data (frames b ! i) = replicate PAGE_SIZE 0" "\<not> frame_dirty (frames b ! i)"
      using wf(5) [OF i] a(1) by (simp_all add: frame_ok_def Let_def)
    moreover have "free_frames b \<noteq> []" using a(1) by auto
    ultimately show thesis using free a by blast
  next
    case b
    then have "q \<noteq> p" using miss by auto
    then show thesis using b clean [of q] dirty [of q] by (cases "frame_dirty (frames b ! i)") simp_all
  qed
qed

lemma entered_frames:
  assumes "page_entered tx b p i data f b'"
  shows "i < length (frames b)" and "frame_pin_count (frames b ! i) = 0" and "frames b' = (frames b)[i := f]"
    and "pool_ok b'"
  using assms by (simp_all add: page_entered_def)

lemma pins_enter:
  assumes inv: "pins_inv b T" and miss: "page_table b p = None" and entered: "page_entered tx b p i data f b'"
    and f: "frame_pin_count f = 1" and t: "task_frame (T t) = None" and x: "task_frame x = Some (p, i)"
  shows "pins_inv b' (T(t := x))"
proof -
  note fr = entered_frames [OF entered]
  have other: "j \<noteq> i" "q \<noteq> p" if "task_frame (T u) = Some (q, j)" for u q j
    using unpinned_no_holder [OF inv fr(1,2)] pins_invD(3) [OF inv that] that miss by auto
  have keep: "page_table b' q = Some j" if held: "task_frame (T u) = Some (q, j)" for u q j
  proof -
    have q: "page_table b q = Some j" by (rule pins_invD(3) [OF inv held])
    from pins_invD(1) [OF inv] miss entered show ?thesis
      by (cases rule: entered_cases) (use q other [OF held] in auto)
  qed
  show ?thesis
  proof (rule pins_take [OF inv fr(4) t x])
    show "page_table b' p = Some i" by (rule entered_fields(3) [OF entered])
  qed (use fr f keep in auto)
qed


section \<open>Every step keeps the pins\<close>

definition buffers_ok :: "(nat \<Rightarrow> 'c task) \<Rightarrow> bool" where
  "buffers_ok T \<longleftrightarrow> (\<forall>t p i fl bs. T t = Filling p i fl bs \<longrightarrow> length bs = PAGE_SIZE)"

definition locks_ok :: "(nat \<Rightarrow> 'c task) \<Rightarrow> bool" where
  "locks_ok T \<longleftrightarrow> (\<forall>t u i. locks_write (T t) i \<longrightarrow> locks_write (T u) i \<or> locks_read (T u) i \<longrightarrow> t = u)"

definition sound :: "('c, 'd) system \<Rightarrow> bool" where
  "sound s \<longleftrightarrow> pins_inv (pool s) (tasks s) \<and> buffers_ok (tasks s) \<and> locks_ok (tasks s)"

lemma buffers_update: "buffers_ok T \<Longrightarrow> (\<And>p i fl bs. x = Filling p i fl bs \<Longrightarrow> length bs = PAGE_SIZE) \<Longrightarrow>
    buffers_ok (T(t := x))"
  by (auto simp: buffers_ok_def)

lemma locks_update:
  assumes "locks_ok T"
    and "\<And>i. locks_write x i \<Longrightarrow> \<not> locks_write (T t) i \<Longrightarrow> \<forall>u. \<not> locks_read (T u) i \<and> \<not> locks_write (T u) i"
    and "\<And>i. locks_read x i \<Longrightarrow> \<forall>u. \<not> locks_write (T u) i"
  shows "locks_ok (T(t := x))"
  using assms unfolding locks_ok_def by (simp split: if_splits) metis

lemma after_cases [simp]:
  "task_frame (after_claim p i fl) = Some (p, i)" "task_frame (after_fill p i fl) = Some (p, i)"
  "task_load (after_claim p i fl) = None" "task_load (after_fill p i fl) = None"
  "after_fill p i fl \<noteq> Filling q j fl' bs" "after_claim p i fl \<noteq> Filling q j fl' bs"
  "after_write p i r \<noteq> Filling q j fl' bs"
  "\<not> locks_read (after_fill p i fl) j" "\<not> locks_read (after_claim p i fl) j" "\<not> locks_read (after_write p i r) j"
  "\<not> locks_write (after_claim p i fl) j" "\<not> locks_write (after_write p i r) j"
  "locks_write (after_fill p i fl) j \<longleftrightarrow> i = j \<and> fl \<noteq> None"
  by (auto simp: after_claim_def after_fill_def after_write_def split: option.splits sum.splits)

lemma flushed_fields:
  assumes "fetch_flushed q r b = (r', c, b') \<or> create_page_flushed q r b = (r', c, b')"
  shows "frames b' = frames b" and "page_table b' = page_table b" and "pool_ok b' = pool_ok b"
    and "free_frames b' = free_frames b" and "fetches (page_io_processing b') = fetches (page_io_processing b)"
  using assms by (auto simp: fetch_flushed_def create_page_flushed_def finish_flush_def pool_ok_def split: sum.splits)

lemma pins_after_write:
  assumes inv: "pins_inv b T" and "task_frame (T t) = Some (p, i)"
    and out: "fetch_flushed q r b = (r', c, b') \<or> create_page_flushed q r b = (r', c, b')"
  shows "pins_inv b' (T(t := after_write p i r'))"
proof -
  have b': "pins_inv b' T"
    using inv flushed_fields [OF out] by (simp add: pins_inv_def)
  show ?thesis
  proof (cases r')
    case (Inl e)
    then show ?thesis using pins_leak [OF b'] by (simp add: after_write_def)
  next
    case (Inr u)
    then show ?thesis using pins_move [OF b' pins_invD(1) [OF b']] assms(2) by (simp add: after_write_def)
  qed
qed

lemma pins_hit:
  assumes inv: "pins_inv b T" and t: "T t = Idle" and bounded: "pins_bounded b"
    and run: "fetch_claim tx tx' p b = Some (Hit i, b')"
  shows "pins_inv b' (T(t := Hit_Check p i))" and "page_table b p = Some i" and "page_table b' = page_table b"
    and "page_io_processing b' = page_io_processing b" and "free_frames b' = free_frames b"
    and "frames b' = (frames b)[i := (frames b ! i)\<lparr>frame_pin_count := frame_pin_count (frames b ! i) + 1\<rparr>]"
proof -
  note ok = pins_invD(1) [OF inv]
  show hit: "page_table b p = Some i"
  proof (cases "page_table b p")
    case None
    then show ?thesis using fetch_claim_miss [OF ok, of p tx tx'] run by auto
  next
    case (Some j)
    then show ?thesis using run by (auto simp: fetch_claim_def split: Option.bind_splits)
  qed
  have i: "i < length (frames b)" by (rule table_lt [OF ok hit])
  have "frame_pin_count (frames b ! i) + 1 < 2 ^ 64" using bounded i nth_mem unfolding pins_bounded_def by blast
  from fetch_claim_hit [OF ok hit this, of tx tx'] have out: "pool_ok b'"
    "frames b' = (frames b)[i := (frames b ! i)\<lparr>frame_pin_count := frame_pin_count (frames b ! i) + 1\<rparr>]"
    "free_frames b' = free_frames b" "page_io_processing b' = page_io_processing b" "page_table b' = page_table b"
    using run by auto
  then show "page_table b' = page_table b" "page_io_processing b' = page_io_processing b"
    "free_frames b' = free_frames b"
    "frames b' = (frames b)[i := (frames b ! i)\<lparr>frame_pin_count := frame_pin_count (frames b ! i) + 1\<rparr>]" by simp_all
  show "pins_inv b' (T(t := Hit_Check p i))"
    by (rule pins_take [OF inv out(1), where p = p and i = i]) (use t hit out i pins_invD(3) [OF inv] in auto)
qed

lemma full_fields:
  assumes inv: "pins_inv b T" and run: "fetch_claim tx tx' p b = Some (Full, b')"
  shows "pool_ok b'" and "frames b' = frames b" and "free_frames b' = free_frames b"
    and "page_table b' = page_table b" and "page_io_processing b' = page_io_processing b"
proof -
  have "page_table b p = None" using run by (cases "page_table b p") (auto simp: fetch_claim_def split: Option.bind_splits)
  from fetch_claim_miss [OF pins_invD(1) [OF inv] this, of tx tx'] run
  show "pool_ok b'" "frames b' = frames b" "free_frames b' = free_frames b" "page_table b' = page_table b"
    "page_io_processing b' = page_io_processing b"
    by auto
qed

lemma miss_entered:
  assumes inv: "pins_inv b T" and run: "fetch_claim tx tx' p b = Some (Miss i fl, b')"
  shows "page_table b p = None"
    and "fetches (page_io_processing b') = (fetches (page_io_processing b))(p \<mapsto> tx')"
    and "page_entered tx b p i fl ((frames b ! i)\<lparr>frame_dirty := False, frame_page_id := Some p,
           frame_pin_count := 1\<rparr>) b'"
proof -
  show miss: "page_table b p = None"
    using run by (cases "page_table b p") (auto simp: fetch_claim_def split: Option.bind_splits)
  from fetch_claim_miss [OF pins_invD(1) [OF inv] miss, of tx tx'] run
  show "fetches (page_io_processing b') = (fetches (page_io_processing b))(p \<mapsto> tx')"
    "page_entered tx b p i fl ((frames b ! i)\<lparr>frame_dirty := False, frame_page_id := Some p,
       frame_pin_count := 1\<rparr>) b'" by auto
qed

lemma claim_entered:
  assumes inv: "pins_inv b T" and new: "page_table b p = None" and run: "create_page_claim tx p b = Some (i, fl, b')"
  shows "fetches (page_io_processing b') = fetches (page_io_processing b)"
    and "page_entered tx b p i fl ((frames b ! i)\<lparr>frame_page_id := Some p, frame_pin_count := 1\<rparr>) b'"
proof -
  note ok = pins_invD(1) [OF inv]
  have room: "free_frames b \<noteq> [] \<or> evictable (bpm_evictor b) \<noteq> {}"
    using create_claim_full [OF ok, of tx p] run by fastforce
  from create_claim_ok [OF ok new room, of tx] run
  show "fetches (page_io_processing b') = fetches (page_io_processing b)"
    "page_entered tx b p i fl ((frames b ! i)\<lparr>frame_page_id := Some p, frame_pin_count := 1\<rparr>) b'" by auto
qed

lemma sound_plain:
  assumes "sound s" and "tasks s' = (tasks s)(t := x)" and "pins_inv (pool s') (tasks s')"
    and "\<And>q j fl bs. x \<noteq> Filling q j fl bs" and "\<And>j. \<not> locks_read x j" and "\<And>j. \<not> locks_write x j"
  shows "sound s'"
  using assms buffers_update [of "tasks s" x t] locks_update [of "tasks s" x t] by (simp add: sound_def)

lemma pins_same_pool: "pins_inv b T \<Longrightarrow> task_frame x = task_frame (T t) \<Longrightarrow> pins_inv b (T(t := x))"
  by (rule pins_move) (auto dest: pins_invD(1))

lemma pins_filled:
  assumes inv: "pins_inv b T" and held: "task_frame (T t) = Some (p, i)" and len: "length bs = PAGE_SIZE"
    and x: "task_frame x = Some (p, i)" and run: "fetch_filled p i bs b = Some (c, b')"
  shows "pins_inv b' (T(t := x))" and "c = fetches (page_io_processing b) p"
    and "frames b' = (frames b)[i := write_data bs (frames b ! i)]" and "page_table b' = page_table b"
    and "flushes (page_io_processing b') = flushes (page_io_processing b)"
    and "fetches (page_io_processing b') = (fetches (page_io_processing b))(p := None)"
    and "free_frames b' = free_frames b"
proof -
  note ok = pins_invD(1) [OF inv]
  note tab = pins_invD(3) [OF inv held]
  have i: "i < length (frames b)" "i \<notin> set (free_frames b)"
    using pool_exceptD(6) [OF ok [unfolded pool_ok_def] tab] by auto
  from fetch_filled_ok [OF ok i len, of p] have out: "pool_ok b'" "c = fetches (page_io_processing b) p"
    "frames b' = (frames b)[i := write_data bs (frames b ! i)]" "page_table b' = page_table b"
    "flushes (page_io_processing b') = flushes (page_io_processing b)"
    "fetches (page_io_processing b') = (fetches (page_io_processing b))(p := None)"
    "free_frames b' = free_frames b" using run by auto
  then show "c = fetches (page_io_processing b) p"
    "frames b' = (frames b)[i := write_data bs (frames b ! i)]" "page_table b' = page_table b"
    "flushes (page_io_processing b') = flushes (page_io_processing b)"
    "fetches (page_io_processing b') = (fetches (page_io_processing b))(p := None)"
    "free_frames b' = free_frames b" by simp_all
  show "pins_inv b' (T(t := x))"
    by (rule pins_move [OF inv out(1)]) (use held x out i in \<open>auto simp: nth_list_update write_data_def\<close>)
qed

lemma pins_stored:
  assumes inv: "pins_inv b T" and held: "task_frame (T t) = Some (p, i)" and len: "length bs = PAGE_SIZE"
    and run: "update_frame i (\<lambda>f. set_dirty True (write_data bs f)) b = Some b'"
  shows "pins_inv b' T" and "frames b' = (frames b)[i := set_dirty True (write_data bs (frames b ! i))]"
    and "page_table b' = page_table b" and "page_io_processing b' = page_io_processing b"
    and "free_frames b' = free_frames b"
proof -
  note ok = pins_invD(1) [OF inv]
  note wf = pool_exceptD [OF ok [unfolded pool_ok_def]]
  note tab = pins_invD(3) [OF inv held]
  have i: "i < length (frames b)" "i \<notin> set (free_frames b)" using wf(6) [OF tab] by auto
  have b': "b' = b\<lparr>frames := (frames b)[i := set_dirty True (write_data bs (frames b ! i))]\<rparr>"
    using run i by (simp add: update_frame_def)
  then show "frames b' = (frames b)[i := set_dirty True (write_data bs (frames b ! i))]"
    "page_table b' = page_table b" "page_io_processing b' = page_io_processing b" "free_frames b' = free_frames b"
    by simp_all
  have "pool_ok b'" unfolding pool_ok_def
  proof (rule pool_exceptI)
    show "frame_ok {} b' j" if "j < length (frames b')" for j
      using wf(5) [of j] that i len
      by (cases "j = i") (auto simp: b' frame_ok_def Let_def set_dirty_def write_data_def)
    show "j < length (frames b') \<and> j \<notin> {} \<and> j \<notin> set (free_frames b') \<and> frame_page_id (frames b' ! j) = Some q"
      if "page_table b' q = Some j" for q j
      using wf(6) [of q j] that i by (cases "j = i") (auto simp: b' set_dirty_def write_data_def)
  qed (use wf in \<open>auto simp: b'\<close>)
  then have "pins_inv b' (T(t := T t))"
    by (rule pins_move [OF inv]) (use i in \<open>auto simp: b' nth_list_update set_dirty_def write_data_def\<close>)
  then show "pins_inv b' T" by simp
qed

text \<open>Dropping a guard unpins its frame.\<close>

lemma guard_unpins:
  assumes inv: "pins_inv b T"
    and "T t = Reader p i \<and> release_read i b = Some b' \<or> T t = Writer p i \<and> release_write i b = Some b'"
  shows "unpin_frame i b = Some b'" and "task_frame (T t) = Some (p, i)"
proof -
  show held: "task_frame (T t) = Some (p, i)" using assms(2) by auto
  show "unpin_frame i b = Some b'"
    using release_unpin [OF pins_invD(1) [OF inv], of i] holder_pinned [OF inv held] assms(2) by auto
qed

lemma step_sound:
  assumes "step allocate get whole store next_of t s s'" and sound: "sound s"
  shows "sound s'"
proof -
  have inv: "pins_inv (pool s) (tasks s)" and buf: "buffers_ok (tasks s)" and locks: "locks_ok (tasks s)"
    using sound by (simp_all add: sound_def)
  note same = sound_plain [OF sound] and keep = pins_same_pool [OF inv] and leak = pins_leak [OF inv]
  from assms(1) show ?thesis
  proof cases
    case (hit p tx tx' i b)
    then show ?thesis using pins_hit(1) [OF inv hit(2,4,5)] by (intro same [of _ t "Hit_Check p i"]) simp_all
  next
    case (full p tx tx' b)
    from full_fields [OF inv full(4)] have "pins_inv b (tasks s)" using inv by (simp add: pins_inv_def)
    then show ?thesis using full buf locks by (simp add: sound_def)
  next
    case (miss p tx tx' i fl b)
    have "pins_inv b ((tasks s)(t := Miss_Check p i fl))"
      by (rule pins_enter [OF inv miss_entered(1,3) [OF inv miss(7)]]) (use miss in simp_all)
    then show ?thesis using miss by (intro same [of _ t "Miss_Check p i fl"]) simp_all
  next
    case (hit_ready p i)
    then show ?thesis using keep [of "Pinned p i" t] by (intro same [of _ t "Pinned p i"]) simp_all
  next
    case (hit_wait p i c)
    then show ?thesis using keep [of "Fetch_Wait p i c" t] by (intro same [of _ t "Fetch_Wait p i c"]) simp_all
  next
    case (fetch_received p i c)
    then show ?thesis using keep [of "Pinned p i" t] by (intro same [of _ t "Pinned p i"]) simp_all
  next
    case (fetch_closed p i c b)
    then show ?thesis using pins_release(1) [OF inv _ fetch_closed(4), of t p Idle]
      by (intro same [of _ t "Idle"]) simp_all
  next
    case (miss_ready p i fl)
    then show ?thesis using keep [of "Reading p i fl" t] by (intro same [of _ t "Reading p i fl"]) simp_all
  next
    case (miss_wait p i fl c)
    then show ?thesis using keep [of "Flush_Wait p i fl c" t] by (intro same [of _ t "Flush_Wait p i fl c"]) simp_all
  next
    case (flush_received p i fl c)
    then show ?thesis using keep [of "Reading p i fl" t] by (intro same [of _ t "Reading p i fl"]) simp_all
  next
    case (flush_closed p i fl c)
    then show ?thesis using leak [of Idle t] by (intro same [of _ t "Idle"]) simp_all
  next
    case (read p i fl u bs d)
    then show ?thesis using keep [of "Filling p i fl bs" t] buffers_update [OF buf, of "Filling p i fl bs" t]
        locks_update [OF locks, of "Filling p i fl bs" t] by (simp add: sound_def)
  next
    case (read_failed p i fl e bs d)
    then show ?thesis using leak [of Idle t] by (intro same [of _ t "Idle"]) simp_all
  next
    case (fill p i fl bs c b)
    have "length bs = PAGE_SIZE" using buf fill(2) by (auto simp: buffers_ok_def)
    then have "pins_inv b ((tasks s)(t := after_fill p i fl))"
      using pins_filled(1) [OF inv _ _ _ fill(4), of t "after_fill p i fl"] fill(2) by simp
    then show ?thesis using fill buffers_update [OF buf, of "after_fill p i fl" t]
        locks_update [OF locks, of "after_fill p i fl" t] by (simp add: sound_def)
  next
    case (write_back p i q bs r d r' c b)
    then show ?thesis using pins_after_write [OF inv, of t p i q r r' c b] by (intro same [of _ t "after_write p i r'"]) simp_all
  next
    case (allocated table_id p d)
    then show ?thesis using keep [of "Allocated p" t] by (intro same [of _ t "Allocated p"]) simp_all
  next
    case (allocate_failed table_id e d)
    then show ?thesis using sound by (simp add: sound_def)
  next
    case (claim p tx i fl b)
    have "pins_inv b ((tasks s)(t := after_claim p i fl))"
      by (rule pins_enter [OF inv claim(3) claim_entered(2) [OF inv claim(3,5)]]) (use claim in simp_all)
    then show ?thesis using claim by (intro same [of _ t "after_claim p i fl"]) simp_all
  next
    case (create_flush p i q bs r d r' c b)
    then show ?thesis using pins_after_write [OF inv, of t p i q r r' c b] by (intro same [of _ t "after_write p i r'"]) simp_all
  next
    case (lock_read p i)
    then show ?thesis using keep [of "Reader p i" t] buffers_update [OF buf, of "Reader p i" t]
        locks_update [OF locks, of "Reader p i" t] by (simp add: sound_def)
  next
    case (lock_write p i)
    then show ?thesis using keep [of "Writer p i" t] buffers_update [OF buf, of "Writer p i" t]
        locks_update [OF locks, of "Writer p i" t] by (simp add: sound_def)
  next
    case (store_guard p i bs b)
    then show ?thesis using pins_stored(1) [OF inv _ store_guard(3,4), of t p] buf locks by (simp add: sound_def)
  next
    case (drop_read p i b)
    then show ?thesis using pins_release(1) [OF inv, of t p i b Idle] guard_unpins [OF inv, of t p i b]
      by (intro same [of _ t Idle]) simp_all
  next
    case (drop_write p i b)
    then show ?thesis using pins_release(1) [OF inv, of t p i b Idle] guard_unpins [OF inv, of t p i b]
      by (intro same [of _ t Idle]) simp_all
  qed
qed

lemma initial_sound: "sound (initial content n d)"
  by (simp add: sound_def initial_def pins_inv_def pool_new_ok buffers_ok_def locks_ok_def holders_def)

lemma run_sound: "run allocate get whole store next_of (initial content n d) s \<Longrightarrow> sound s"
  by (induction rule: run.induct) (auto intro: initial_sound step_sound)

section \<open>Guards keep their frames\<close>

text \<open>
  In a sound system a guard keeps its frame: its page is in the page table at that frame, the frame
  holds that page, is pinned and cannot be evicted; every other guard on the frame is a guard on the
  same page, and there is none beside a write guard.
\<close>

lemma guards_kept:
  assumes "sound s" and "tasks s t = Reader p i \<or> tasks s t = Writer p i"
  shows "page_table (pool s) p = Some i \<and> i < length (frames (pool s)) \<and>
    frame_page_id (frames (pool s) ! i) = Some p \<and> 0 < frame_pin_count (frames (pool s) ! i) \<and>
    i \<notin> evictable (bpm_evictor (pool s)) \<and>
    (\<forall>u q. tasks s u = Reader q i \<or> tasks s u = Writer q i \<longrightarrow> q = p \<and> (tasks s t = Writer p i \<longrightarrow> u = t))"
proof -
  have inv: "pins_inv (pool s) (tasks s)" and locks: "locks_ok (tasks s)"
    using assms(1) by (simp_all add: sound_def)
  note ok = pins_invD(1) [OF inv]
  note wf = pool_exceptD [OF ok [unfolded pool_ok_def]]
  have held: "task_frame (tasks s t) = Some (p, i)" using assms(2) by auto
  have tab: "page_table (pool s) p = Some i" by (rule pins_invD(3) [OF inv held])
  note pinned = holder_pinned [OF inv held]
  have out: "i \<notin> evictable (bpm_evictor (pool s))"
    using wf(5) [of i] wf(6) [OF tab] pinned by (auto simp: frame_ok_def Let_def)
  have "q = p \<and> (tasks s t = Writer p i \<longrightarrow> u = t)" if g: "tasks s u = Reader q i \<or> tasks s u = Writer q i" for u q
  proof -
    have "task_frame (tasks s u) = Some (q, i)" using g by auto
    then have "q = p" using table_inj [OF ok _ tab] pins_invD(3) [OF inv] by blast
    moreover have "u = t" if "tasks s t = Writer p i"
      using locks that g unfolding locks_ok_def by (metis locks_read.simps(1) locks_write.simps(1))
    ultimately show ?thesis by blast
  qed
  then show ?thesis using tab pinned out wf(6) [OF tab] by blast
qed

section \<open>Examples\<close>

definition example_start :: "(nat, (memory, path tokio_file_handle) disk_state) system" where
  "example_start = initial (disk_content mem_files example_store) 2 example_store"

abbreviation memory_run ::
  "(nat, (memory, path tokio_file_handle) disk_state) system \<Rightarrow>
   (nat, (memory, path tokio_file_handle) disk_state) system \<Rightarrow> bool" where
  "memory_run \<equiv> run (disk_allocate memory_system) (disk_read memory_system)
      (disk_whole memory_system mem_files) (disk_write memory_system)
     (disk_next mem_files)"

abbreviation memory_step ::
  "nat \<Rightarrow> (nat, (memory, path tokio_file_handle) disk_state) system \<Rightarrow>
   (nat, (memory, path tokio_file_handle) disk_state) system \<Rightarrow> bool" where
  "memory_step \<equiv> step (disk_allocate memory_system) (disk_read memory_system)
      (disk_whole memory_system mem_files) (disk_write memory_system)
     (disk_next mem_files)"

lemma example_start_fields:
  "pool example_start = buffer_pool_new 2" "tasks example_start = (\<lambda>_. Idle)" "used example_start = {}"
  "sent example_start = {}" "store_state example_start = example_store" "suspect example_start = {}"
  "failed example_start = False" "expected example_start = disk_content mem_files example_store"
  by (simp_all add: example_start_def initial_def)

text \<open>Task 0 creates page 2, locks it and stores bytes in it.\<close>

lemma example_written:
  assumes bs: "length bs = PAGE_SIZE"
  shows "\<exists>s i. memory_run example_start s \<and> tasks s = (\<lambda>_. Idle)(0 := Writer (example_page 2) i) \<and> \<not> failed s \<and>
     suspect s = {} \<and> expected s (example_page 2) = bs \<and> i < length (frames (pool s)) \<and>
     frame_pin_count (frames (pool s) ! i) = 1 \<and> known (disk_next mem_files) s (example_page 2) \<and> pins_bounded (pool s)"
proof -
  let ?p = "example_page 2"
  let ?b = "buffer_pool_new 2 :: nat buffer_pool"
  obtain d where al: "disk_allocate memory_system 7 example_store = Some (Ok ?p, d)" "disk_next mem_files d 7 = 3"
    by (simp add: disk_next_def next_index_def disk_allocate_def disk_run_defs example_store_def example_manager_def
        example_handle_def example_disk_def example_page_def)
  let ?s1 = "example_start\<lparr>store_state := d, tasks := (tasks example_start)(0 := Allocated ?p)\<rparr>"
  have 1: "memory_step 0 example_start ?s1"
    by (rule step.allocated [where table_id = 7]) (simp_all add: example_start_fields example_store_next al(1))
  have b: "page_table ?b ?p = None" "free_frames ?b = [0..<2]" "length (frames ?b) = 2"
    by (simp_all add: buffer_pool_new_def)
  obtain i fl c where claim: "create_page_claim 5 ?p ?b = Some (i, fl, c)"
    and e: "page_entered 5 ?b ?p i fl ((frames ?b ! i)\<lparr>frame_page_id := Some ?p, frame_pin_count := 1\<rparr>) c"
    using create_claim_ok [OF pool_new_ok b(1), of 5] b(2) by auto
  have fl: "fl = None" using pool_new_ok b(1) e by (cases rule: entered_cases) (use b(2) in simp_all)
  have len: "i < length (frames c)" "frame_pin_count (frames c ! i) = 1" using entered_frames [OF e] by simp_all
  have c: "frames c = (frames ?b)[i := (frames ?b ! i)\<lparr>frame_page_id := Some ?p, frame_pin_count := 1\<rparr>]"
    using e by (simp add: page_entered_def)
  have "set (frames c) \<subseteq> insert ((frames ?b ! i)\<lparr>frame_page_id := Some ?p, frame_pin_count := 1\<rparr>) (set (frames ?b))"
    unfolding c by (rule set_update_subset_insert)
  then have small: "f \<in> set (frames c) \<Longrightarrow> frame_pin_count f \<le> 1" for f
    by (auto simp: buffer_pool_new_def frame_new_def)
  define s2 where "s2 = ?s1\<lparr>pool := c, tasks := (tasks ?s1)(0 := after_claim ?p i fl), used := insert 5 (used ?s1),
    suspect := (if free_frames (pool ?s1) = [] then insert ?p (suspect ?s1) else suspect ?s1)\<rparr>"
  have 2: "memory_step 0 ?s1 s2" unfolding s2_def
    by (rule step.claim) (simp_all add: example_start_fields b(1) claim)
  have s2: "tasks s2 = (\<lambda>_. Idle)(0 := Pinned ?p i)" "pool s2 = c" "suspect s2 = {}" "\<not> failed s2"
    by (simp_all add: s2_def example_start_fields fl after_claim_def b(2))
  define s3 where "s3 = s2\<lparr>tasks := (tasks s2)(0 := Writer ?p i)\<rparr>"
  have 3: "memory_step 0 s2 s3" unfolding s3_def by (rule step.lock_write) (simp_all add: s2)
  have s3: "tasks s3 = (\<lambda>_. Idle)(0 := Writer ?p i)" "pool s3 = c" by (simp_all add: s3_def s2)
  define c' where "c' = c\<lparr>frames := (frames c)[i := set_dirty True (write_data (bs) (frames c ! i))]\<rparr>"
  have up: "update_frame i (\<lambda>f. set_dirty True (write_data (bs) f)) c = Some c'"
    using len by (simp add: update_frame_def c'_def)
  define s4 where "s4 = s3\<lparr>pool := c', expected := (expected s3)(?p := bs),
    suspect := suspect s3 - {?p}\<rparr>"
  have 4: "memory_step 0 s3 s4" unfolding s4_def
    by (rule step.store_guard) (simp_all add: s3 bs, rule up)
  have "memory_run example_start s4"
    by (rule run.continue [OF run.continue [OF run.continue [OF run.continue [OF run.start 1] 2] 3] 4])
  moreover have "frame_pin_count f \<le> 1" if "f \<in> set (frames c')" for f
    using that small len set_update_subset_insert [of "frames c" i]
    unfolding c'_def by (fastforce simp: set_dirty_def write_data_def)
  then have "pins_bounded c'" by (fastforce simp: pins_bounded_def)
  moreover have "known (disk_next mem_files) s4 ?p"
    using al(2) by (simp add: known_def page_allocated_def s4_def s3_def s2_def example_start_fields example_page_def)
  ultimately show ?thesis
    by (intro exI [of _ s4] exI [of _ i]) (simp add: s4_def s3_def s2 c'_def len set_dirty_def write_data_def)
qed

end
