(* ===== verification/Pool_Invariant.thy ===== *)
theory Pool_Invariant
  imports Pool_System
begin

text \<open>
  The invariant of the system of \<open>Pool_System\<close> in runs without a disk error: what the channels, the
  page table, the frames and the disk have to do with what each task is about to do, and that the
  kinds of steps keep it. \<open>content\<close>, \<open>ok\<close> and \<open>next_of\<close> are those of the locale \<open>page_store\<close>.
\<close>

section \<open>Coherence\<close>

text \<open>
  The second invariant, as long as no disk operation has failed: what a task may rely on at its
  await point. A page is being fetched exactly while a task loads it; a page is being flushed as
  long as a task holds its bytes, and is not in the cache then unless it is being loaded again; a
  page in the cache has the bytes last written to it, and so has the disk when the frame is clean or
  the page is nowhere else. Pages created in an evicted frame, and pages of which a read came short,
  are exempt until they are written.
\<close>

abbreviation fetching :: "('c, 'd) system \<Rightarrow> page_id \<Rightarrow> 'c option" where
  "fetching s \<equiv> fetches (page_io_processing (pool s))"

abbreviation flushing :: "('c, 'd) system \<Rightarrow> page_id \<Rightarrow> 'c option" where
  "flushing s \<equiv> flushes (page_io_processing (pool s))"

fun task_alloc :: "'c task \<Rightarrow> page_id option" where
  "task_alloc (Allocated p) = Some p"
| "task_alloc _ = None"

definition unique :: "('c task \<Rightarrow> page_id option) \<Rightarrow> (nat \<Rightarrow> 'c task) \<Rightarrow> bool" where
  "unique g T \<longleftrightarrow> (\<forall>t u p. g (T t) = Some p \<longrightarrow> g (T u) = Some p \<longrightarrow> t = u)"

definition owners_ok :: "(nat \<Rightarrow> 'c task) \<Rightarrow> bool" where
  "owners_ok T \<longleftrightarrow> unique task_load T \<and> unique (map_option fst \<circ> task_flush) T \<and> unique task_alloc T"

definition loads_ok :: "('c, 'd) system \<Rightarrow> bool" where
  "loads_ok s \<longleftrightarrow> (\<forall>p. fetching s p \<noteq> None \<longleftrightarrow> (\<exists>t. task_load (tasks s t) = Some p))"

definition flushes_ok :: "('c, 'd) system \<Rightarrow> bool" where
  "flushes_ok s \<longleftrightarrow> (\<forall>p. flushing s p \<noteq> None \<longrightarrow> (\<exists>t bs. task_flush (tasks s t) = Some (p, bs)))"

text \<open>A task that loads a page waits for the one that flushes it, and never in a circle.\<close>

definition waits :: "(nat \<Rightarrow> 'c task) \<Rightarrow> nat \<Rightarrow> nat \<Rightarrow> bool" where
  "waits T t u \<longleftrightarrow> (\<exists>p bs. task_load (T t) = Some p \<and> task_flush (T u) = Some (p, bs))"

definition ordered :: "(nat \<Rightarrow> 'c task) \<Rightarrow> bool" where
  "ordered T \<longleftrightarrow> (\<exists>rank :: nat \<Rightarrow> nat. \<forall>t u. waits T t u \<longrightarrow> rank u < rank t)"

definition channels_ok :: "('c, 'd) system \<Rightarrow> bool" where
  "channels_ok s \<longleftrightarrow> sent s \<subseteq> used s \<and>
     (\<forall>p c. fetching s p = Some c \<or> flushing s p = Some c \<longrightarrow> c \<in> used s \<and> c \<notin> sent s) \<and>
     (\<forall>p q c. fetching s p = Some c \<longrightarrow> fetching s q = Some c \<longrightarrow> p = q) \<and>
     (\<forall>p q c. flushing s p = Some c \<longrightarrow> flushing s q = Some c \<longrightarrow> p = q) \<and>
     (\<forall>p q c. fetching s p = Some c \<longrightarrow> flushing s q \<noteq> Some c)"

definition pages_ok :: "('d \<Rightarrow> u32 \<Rightarrow> nat) \<Rightarrow> ('c, 'd) system \<Rightarrow> bool" where
  "pages_ok next_of s \<longleftrightarrow>
     (\<forall>p. page_table (pool s) p \<noteq> None \<or> flushing s p \<noteq> None \<or> p \<in> suspect s \<longrightarrow>
        page_allocated next_of (store_state s) p)"

definition data_ok :: "('d \<Rightarrow> page_id \<Rightarrow> bytes) \<Rightarrow> ('c, 'd) system \<Rightarrow> bool" where
  "data_ok content s \<longleftrightarrow>
     (\<forall>p i. page_table (pool s) p = Some i \<longrightarrow> fetching s p = None \<longrightarrow> p \<notin> suspect s \<longrightarrow>
        frame_data (frames (pool s) ! i) = expected s p \<and>
        (\<not> frame_dirty (frames (pool s) ! i) \<longrightarrow> content (store_state s) p = expected s p)) \<and>
     (\<forall>p. page_table (pool s) p = None \<or> fetching s p \<noteq> None \<longrightarrow> flushing s p = None \<longrightarrow> p \<notin> suspect s \<longrightarrow>
        content (store_state s) p = expected s p)"

definition flush_ok :: "('c, 'd) system \<Rightarrow> flush \<Rightarrow> bool" where
  "flush_ok s fl \<longleftrightarrow> (\<forall>q bs. fl = Some (q, bs) \<longrightarrow> flushing s q \<noteq> None \<and> length bs = PAGE_SIZE \<and>
     (q \<notin> suspect s \<longrightarrow> bs = expected s q) \<and> (page_table (pool s) q \<noteq> None \<longrightarrow> fetching s q \<noteq> None))"

fun task_ok ::
  "('d \<Rightarrow> page_id \<Rightarrow> bytes) \<Rightarrow> ('d \<Rightarrow> u32 \<Rightarrow> nat) \<Rightarrow> ('c, 'd) system \<Rightarrow> 'c task \<Rightarrow> bool" where
  "task_ok content next_of s (Fetch_Wait p i c) = 
     (c \<in> used s \<and> fetching s p \<in> {None, Some c} \<and> (fetching s p = None \<longrightarrow> c \<in> sent s))"
| "task_ok content next_of s (Flush_Wait p i fl c) = 
     (c \<in> used s \<and> flushing s p \<in> {None, Some c} \<and> (flushing s p = None \<longrightarrow> c \<in> sent s))"
| "task_ok content next_of s (Reading p i fl) = (flushing s p = None)"
| "task_ok content next_of s (Filling p i fl bs) =
     (flushing s p = None \<and> (p \<notin> suspect s \<longrightarrow> bs = expected s p))"
| "task_ok content next_of s (Allocated p) =
     (page_allocated next_of (store_state s) p \<and> page_table (pool s) p = None \<and> flushing s p = None \<and>
      p \<notin> suspect s \<and> content (store_state s) p = replicate PAGE_SIZE 0 \<and>
      expected s p = replicate PAGE_SIZE 0)"
| "task_ok content next_of s (Writing_Back p i q bs) = (fetching s p = None)"
| "task_ok content next_of s (Create_Flush p i q bs) = (fetching s p = None)"
| "task_ok content next_of s (Pinned p i) = (fetching s p = None)"
| "task_ok content next_of s (Reader p i) = (fetching s p = None)"
| "task_ok content next_of s (Writer p i) = (fetching s p = None)"
| "task_ok content next_of s _ = True"

definition coherent ::
  "('d \<Rightarrow> bool) \<Rightarrow> ('d \<Rightarrow> page_id \<Rightarrow> bytes) \<Rightarrow> ('d \<Rightarrow> u32 \<Rightarrow> nat) \<Rightarrow> ('c, 'd) system \<Rightarrow> bool" where
  "coherent ok content next_of s \<longleftrightarrow>
     ok (store_state s) \<and> owners_ok (tasks s) \<and> loads_ok s \<and> channels_ok s \<and> pages_ok next_of s \<and>
     data_ok content s \<and> (\<forall>t. flush_ok s (task_flush (tasks s t)) \<and> task_ok content next_of s (tasks s t)) \<and>
     flushes_ok s \<and> ordered (tasks s)"

lemma coherentI:
  assumes "ok (store_state s)" and "owners_ok (tasks s)" and "loads_ok s" and "channels_ok s"
    and "pages_ok next_of s" and "data_ok content s" and "\<And>t. flush_ok s (task_flush (tasks s t))"
    and "\<And>t. task_ok content next_of s (tasks s t)" and "flushes_ok s" and "ordered (tasks s)"
  shows "coherent ok content next_of s"
  using assms by (simp add: coherent_def)

lemma coherentD:
  assumes "coherent ok content next_of s"
  shows "ok (store_state s)" and "owners_ok (tasks s)" and "loads_ok s" and "channels_ok s"
    and "pages_ok next_of s" and "data_ok content s" and "flush_ok s (task_flush (tasks s t))"
    and "task_ok content next_of s (tasks s t)" and "flushes_ok s" and "ordered (tasks s)"
  using assms by (simp_all add: coherent_def)

lemma unique_update:
  assumes "unique g T" and "\<And>p. g x = Some p \<Longrightarrow> g (T t) = Some p \<or> (\<forall>u. g (T u) \<noteq> Some p)"
  shows "unique g (T(t := x))"
  using assms unfolding unique_def by (simp split: if_splits) metis

lemma owners_update:
  assumes "owners_ok T" and "task_load x = None \<or> task_load x = task_load (T t)"
    and "task_flush x = None \<or> task_flush x = task_flush (T t)"
    and "task_alloc x = None \<or> task_alloc x = task_alloc (T t)"
  shows "owners_ok (T(t := x))"
  using assms unfolding owners_ok_def by (auto intro!: unique_update)

lemma loads_update:
  "task_load x = task_load (T t) \<Longrightarrow> (\<exists>u. task_load ((T(t := x)) u) = Some p) \<longleftrightarrow> (\<exists>u. task_load (T u) = Some p)"
  by (metis fun_upd_apply)

lemma flushes_update:
  "task_flush x = task_flush (T t) \<Longrightarrow> (\<exists>u bs. task_flush ((T(t := x)) u) = Some (p, bs)) \<longleftrightarrow>
     (\<exists>u bs. task_flush (T u) = Some (p, bs))"
  by (metis fun_upd_apply)

lemma ordered_update:
  assumes "ordered T" and "task_load x = None \<or> task_load x = task_load (T t)"
    and "task_flush x = None \<or> task_flush x = task_flush (T t)"
  shows "ordered (T(t := x))"
proof -
  have "waits (T(t := x)) u v \<Longrightarrow> waits T u v" for u v
    using assms(2,3) by (auto simp: waits_def split: if_splits)
  then show ?thesis using assms(1) unfolding ordered_def by blast
qed

lemma ordered_enter:
  assumes "ordered T" and fin: "finite {u. T u \<noteq> Idle}"
    and none: "\<And>u p bs. task_flush x = Some (p, bs) \<Longrightarrow> task_load ((T(t := x)) u) \<noteq> Some p"
  shows "ordered (T(t := x))"
proof -
  obtain rank :: "nat \<Rightarrow> nat" where rank: "\<And>u v. waits T u v \<Longrightarrow> rank v < rank u"
    using assms(1) unfolding ordered_def by blast
  define top where "top = Suc (Max (rank ` {u. T u \<noteq> Idle}))"
  have below: "rank u < top" if "T u \<noteq> Idle" for u
    using fin that by (simp add: top_def less_Suc_eq_le)
  have "(rank(t := top)) v < (rank(t := top)) u" if w: "waits (T(t := x)) u v" for u v
  proof -
    obtain p bs where p: "task_load ((T(t := x)) u) = Some p" "task_flush ((T(t := x)) v) = Some (p, bs)"
      using w by (auto simp: waits_def simp del: fun_upd_apply)
    have v: "v \<noteq> t" using p none [of p bs u] by auto
    show ?thesis
    proof (cases "u = t")
      case True
      have "T v \<noteq> Idle" using p(2) v by auto
      then show ?thesis using below True v by simp
    next
      case False
      then have "waits T u v" using p v by (auto simp: waits_def)
      then show ?thesis using rank False v by simp
    qed
  qed
  then show ?thesis unfolding ordered_def by blast
qed

lemma loads_new:
  "task_load (T t) = None \<Longrightarrow> (\<exists>u. task_load ((T(t := x)) u) = Some p) \<longleftrightarrow>
     task_load x = Some p \<or> (\<exists>u. task_load (T u) = Some p)"
  by (metis fun_upd_apply option.distinct(1))

lemma data_okD:
  assumes "data_ok content s" and "p \<notin> suspect s"
  shows "page_table (pool s) p = Some i \<Longrightarrow> fetching s p = None \<Longrightarrow>
      frame_data (frames (pool s) ! i) = expected s p"
    and "page_table (pool s) p = Some i \<Longrightarrow> fetching s p = None \<Longrightarrow>
      \<not> frame_dirty (frames (pool s) ! i) \<Longrightarrow> content (store_state s) p = expected s p"
    and "page_table (pool s) p = None \<or> fetching s p \<noteq> None \<Longrightarrow> flushing s p = None \<Longrightarrow>
      content (store_state s) p = expected s p"
  using assms unfolding data_ok_def by blast+

lemma load_frame: "task_load x = Some p \<Longrightarrow> \<exists>i. task_frame x = Some (p, i)"
  by (cases x) auto

text \<open>A page that is being fetched is pinned, and no other page is being loaded into its frame.\<close>

lemma fetching_holder:
  assumes "sound s" and "loads_ok s" and "fetching s p \<noteq> None"
  shows "\<exists>t i. task_frame (tasks s t) = Some (p, i) \<and> page_table (pool s) p = Some i"
  using assms load_frame pins_invD(3) unfolding sound_def loads_ok_def by metis

lemma uncached_settled:
  assumes "sound s" and "loads_ok s" and "page_table (pool s) p = None"
  shows "fetching s p = None"
  using fetching_holder [OF assms(1,2), of p] assms(3) by (cases "fetching s p") auto

lemma unpinned_settled:
  assumes "sound s" and "loads_ok s" and "page_table (pool s) p = Some i"
    and "frame_pin_count (frames (pool s) ! i) = 0"
  shows "fetching s p = None"
proof (rule ccontr)
  assume "fetching s p \<noteq> None"
  then obtain t where "task_frame (tasks s t) = Some (p, i)"
    using fetching_holder [OF assms(1,2)] assms(3) by fastforce
  then show False using holder_pinned [of "pool s" "tasks s" t p i] assms(1,4) by (simp add: sound_def)
qed

subsection \<open>Steps that leave the data alone\<close>

lemma task_ok_cong:
  assumes "page_table (pool s') = page_table (pool s)" and "page_io_processing (pool s') = page_io_processing (pool s)"
    and "content (store_state s') = content (store_state s)" and "next_of (store_state s') = next_of (store_state s)"
    and "used s' = used s" and "sent s' = sent s" and "expected s' = expected s" and "suspect s' = suspect s"
  shows "task_ok content next_of s' x = task_ok content next_of s x" and "flush_ok s' fl = flush_ok s fl"
  using assms by (cases x; simp add: page_allocated_def flush_ok_def)+

lemma coherent_move:
  assumes inv: "coherent ok content next_of s" and snd: "sound s"
    and T: "tasks s' = (tasks s)(t := x)"
    and table: "page_table (pool s') = page_table (pool s)"
    and io: "page_io_processing (pool s') = page_io_processing (pool s)"
    and data: "\<And>i. i < length (frames (pool s)) \<Longrightarrow>
      frame_data (frames (pool s') ! i) = frame_data (frames (pool s) ! i) \<and>
      frame_dirty (frames (pool s') ! i) = frame_dirty (frames (pool s) ! i)"
    and disk: "ok (store_state s')" "content (store_state s') = content (store_state s)"
      "next_of (store_state s') = next_of (store_state s)"
    and rest: "used s' = used s" "sent s' = sent s" "expected s' = expected s" "suspect s' = suspect s"
    and x: "task_load x = task_load (tasks s t)" "task_flush x = task_flush (tasks s t)"
      "task_alloc x = None" "task_ok content next_of s x"
  shows "coherent ok content next_of s'"
proof (rule coherentI)
  note D = coherentD [OF inv]
  note cong = task_ok_cong [of s' s content next_of, OF table io disk(2,3) rest]
  show "ok (store_state s')" by (rule disk(1))
  show "owners_ok (tasks s')" unfolding T by (rule owners_update [OF D(2)]) (use x in simp_all)
  show "loads_ok s'" using D(3) io loads_update [of x "tasks s" t, OF x(1)] by (simp add: loads_ok_def T)
  show "channels_ok s'" using D(4) io rest by (simp add: channels_ok_def)
  show "pages_ok next_of s'" using D(5) io table disk rest by (simp add: pages_ok_def page_allocated_def)
  have "i < length (frames (pool s))" if "page_table (pool s) p = Some i" for p i
    using table_lt [OF _ that] snd pins_invD(1) by (auto simp: sound_def)
  then show "data_ok content s'" using D(6) io table disk rest data by (simp add: data_ok_def)
  show "flush_ok s' (task_flush (tasks s' u))" for u
    using D(7) [of u] D(7) [of t] x(2) unfolding cong T by (auto simp: flush_ok_def)
  show "task_ok content next_of s' (tasks s' u)" for u using D(8) [of u] x(4) unfolding cong T by simp
  show "flushes_ok s'" using D(9) io flushes_update [of x "tasks s" t, OF x(2)] by (simp add: flushes_ok_def T)
  show "ordered (tasks s')" unfolding T by (rule ordered_update [OF D(10)]) (use x in simp_all)
qed

subsection \<open>Steps that change the data\<close>

text \<open>Sending on channels that are dropped from the maps.\<close>

lemma channels_sent:
  assumes "channels_ok s" and "used s' = used s"
    and "\<And>p c. fetching s' p = Some c \<Longrightarrow> fetching s p = Some c"
    and "\<And>p c. flushing s' p = Some c \<Longrightarrow> flushing s p = Some c"
    and "sent s' = set_option c \<union> sent s"
    and "(c = fetching s q \<and> fetching s' q = None) \<or> (c = flushing s q \<and> flushing s' q = None)"
  shows "channels_ok s'"
  unfolding channels_ok_def
proof (intro conjI allI impI)
  note D = assms(1) [unfolded channels_ok_def]
  show "sent s' \<subseteq> used s'" using D assms(2,5,6) by (cases c) auto
  show "e \<in> used s'" if "fetching s' p = Some e \<or> flushing s' p = Some e" for p e
    using that D assms(2-4) by metis
  show "e \<notin> sent s'" if "fetching s' p = Some e \<or> flushing s' p = Some e" for p e
  proof -
    have "fetching s p = Some e \<or> flushing s p = Some e" using that assms(3,4) by blast
    moreover have "c \<noteq> Some e" using that assms(3,4,6) D by (metis option.distinct(1))
    ultimately show ?thesis using D assms(5) by (cases c) auto
  qed
qed (use assms(1,3,4) in \<open>simp add: channels_ok_def; blast\<close>)+

text \<open>A page in the cache becomes exempt when a read of it comes short.\<close>

lemma coherent_suspect:
  assumes inv: "coherent ok content next_of s" and cached: "page_table (pool s) p \<noteq> None"
  shows "coherent ok content next_of (s\<lparr>suspect := insert p (suspect s)\<rparr>)"
    (is "coherent ok content next_of ?s")
proof (rule coherentI)
  note D = coherentD [OF inv]
  show "pages_ok next_of ?s" using D(5) cached by (auto simp: pages_ok_def)
  show "data_ok content ?s" using D(6) by (simp add: data_ok_def)
  show "flush_ok ?s (task_flush (tasks ?s t))" for t using D(7) [of t] by (auto simp: flush_ok_def)
  show "task_ok content next_of ?s (tasks ?s t)" for t
    using D(8) [of t] cached by (cases "tasks s t") auto
qed (use coherentD [OF inv] in \<open>simp_all add: loads_ok_def channels_ok_def flushes_ok_def\<close>)

text \<open>A store through a write guard.\<close>

lemma coherent_store:
  assumes inv: "coherent ok content next_of s" and snd: "sound s" and t: "tasks s t = Writer p i"
    and len: "length bs = PAGE_SIZE"
    and run: "update_frame i (\<lambda>f. set_dirty True (write_data bs f)) (pool s) = Some b"
  shows "coherent ok content next_of
    (s\<lparr>pool := b, expected := (expected s)(p := bs), suspect := suspect s - {p}\<rparr>)"
    (is "coherent ok content next_of ?s")
proof (rule coherentI)
  note D = coherentD [OF inv]
  have pins: "pins_inv (pool s) (tasks s)" using snd by (simp add: sound_def)
  note b = pins_stored [OF pins _ len run, of t p, unfolded t task_frame.simps, OF refl]
  note ok = pins_invD(1) [OF pins]
  have cached: "page_table (pool s) p = Some i" using pins_invD(3) [OF pins, of t p i] t by simp
  have settled: "fetching s p = None" using D(8) [of t] t by simp
  have i: "i < length (frames (pool s))" by (rule table_lt [OF ok cached])
  show "ok (store_state ?s)" "owners_ok (tasks ?s)" using D(1,2) by simp_all
  show "loads_ok ?s" using D(3) b(4) by (simp add: loads_ok_def)
  show "channels_ok ?s" using D(4) b(4) by (simp add: channels_ok_def)
  show "pages_ok next_of ?s" using D(5) b(3,4) by (simp add: pages_ok_def)
  show "data_ok content ?s" unfolding data_ok_def
  proof (intro conjI allI impI)
    fix q j assume q: "page_table (pool ?s) q = Some j" "fetching ?s q = None" "q \<notin> suspect ?s"
    have "frame_data (frames (pool ?s) ! j) = expected ?s q \<and>
      (\<not> frame_dirty (frames (pool ?s) ! j) \<longrightarrow> content (store_state ?s) q = expected ?s q)"
    proof (cases "q = p")
      case True
      then show ?thesis using q(1) b(2,3) cached i by (simp add: set_dirty_def write_data_def)
    next
      case False
      then have "j \<noteq> i" using table_inj [OF ok cached, of q] q(1) b(3) by auto
      then show ?thesis using D(6) q b(2,3,4) False by (simp add: data_ok_def)
    qed
    then show "frame_data (frames (pool ?s) ! j) = expected ?s q"
      "\<not> frame_dirty (frames (pool ?s) ! j) \<Longrightarrow> content (store_state ?s) q = expected ?s q" by simp_all
  next
    fix q assume q: "page_table (pool ?s) q = None \<or> fetching ?s q \<noteq> None" "flushing ?s q = None" "q \<notin> suspect ?s"
    then have "q \<noteq> p" using cached settled b(3,4) by auto
    then show "content (store_state ?s) q = expected ?s q" using data_okD(3) [OF D(6), of q] q b(3,4) by simp
  qed
  show "flush_ok ?s (task_flush (tasks ?s u))" for u
    using D(7) [of u] cached settled b(3,4) by (auto simp: flush_ok_def)
  show "task_ok content next_of ?s (tasks ?s u)" for u
  proof -
    have "task_load (tasks s u) \<noteq> Some p" using D(3) settled unfolding loads_ok_def by metis
    moreover have "tasks s u \<noteq> Allocated p" using D(8) [of u] cached by auto
    ultimately show ?thesis using D(8) [of u] b(3,4) by (cases "tasks s u") auto
  qed
  show "flushes_ok ?s" "ordered (tasks ?s)" using D(9,10) b(4) by (simp_all add: flushes_ok_def)
qed

text \<open>The end of a flush.\<close>

lemma coherent_flushed:
  assumes inv: "coherent ok content next_of s" and t: "task_flush (tasks s t) = Some (q, bs)"
    and x: "task_load (tasks s t) = None" "task_load x = None" "task_flush x = None" "task_alloc x = None"
      "task_ok content next_of s x" "\<And>p i fl c. x \<noteq> Flush_Wait p i fl c"
    and fin: "finish_flush q (pool s) = (c, b)"
    and disk: "ok d" "content d = (content (store_state s))(q := bs)" "next_of d = next_of (store_state s)"
  shows "coherent ok content next_of (s\<lparr>pool := b, store_state := d, tasks := (tasks s)(t := x),
      sent := set_option c \<union> sent s, failed := e\<rparr>)"
    (is "coherent ok content next_of ?s")
proof (rule coherentI)
  note D = coherentD [OF inv]
  have b: "b = set_flush q None (pool s)" "c = flushing s q" using fin by (simp_all add: finish_flush_def)
  have busy: "flushing s q \<noteq> None" "q \<notin> suspect s \<Longrightarrow> bs = expected s q"
    "page_table (pool s) q \<noteq> None \<Longrightarrow> fetching s q \<noteq> None"
    using D(7) [of t] t by (auto simp: flush_ok_def)
  have other: "u = t" if "task_flush (tasks s u) = Some (q, bs')" for u bs'
    using D(2) t that unfolding owners_ok_def unique_def by (metis comp_apply fst_conv option.simps(9))
  show "ok (store_state ?s)" using disk by simp
  show "owners_ok (tasks ?s)" using owners_update [OF D(2), of x t] x by simp
  show "loads_ok ?s" using D(3) loads_update [of x "tasks s" t] x(1,2) by (simp add: loads_ok_def b)
  show "channels_ok ?s" using D(4) by (rule channels_sent [of s _ c q]) (auto simp: b split: if_splits)
  show "pages_ok next_of ?s" using D(5) disk by (simp add: pages_ok_def page_allocated_def b)
  show "data_ok content ?s" unfolding data_ok_def
  proof (intro conjI allI impI)
    fix r j assume r: "page_table (pool ?s) r = Some j" "fetching ?s r = None" "r \<notin> suspect ?s"
    then have "r \<noteq> q" using busy(3) by (auto simp: b)
    then show "frame_data (frames (pool ?s) ! j) = expected ?s r"
      "\<not> frame_dirty (frames (pool ?s) ! j) \<Longrightarrow> content (store_state ?s) r = expected ?s r"
      using data_okD(1,2) [OF D(6), of r j] r disk(2) by (simp_all add: b)
  next
    fix r assume r: "page_table (pool ?s) r = None \<or> fetching ?s r \<noteq> None" "flushing ?s r = None" "r \<notin> suspect ?s"
    then show "content (store_state ?s) r = expected ?s r"
      using data_okD(3) [OF D(6), of r] disk(2) busy(2) by (cases "r = q") (simp_all add: b)
  qed
  show "flush_ok ?s (task_flush (tasks ?s u))" for u
    using D(7) [of u] other [of u] x(3) by (auto simp: flush_ok_def b)
  show "task_ok content next_of ?s (tasks ?s u)" for u
  proof (cases "u = t")
    case True
    then show ?thesis using x disk busy(1) by (cases x) (auto simp: b page_allocated_def)
  next
    case False
    then show ?thesis using D(8) [of u] disk busy(1) by (cases "tasks s u") (auto simp: b page_allocated_def)
  qed
  show "flushes_ok ?s" unfolding flushes_ok_def
  proof (intro allI impI)
    fix r assume "flushing ?s r \<noteq> None"
    then have r: "r \<noteq> q" "flushing s r \<noteq> None" by (auto simp: b split: if_splits)
    then obtain u bs' where "task_flush (tasks s u) = Some (r, bs')" using D(9) unfolding flushes_ok_def by blast
    then show "\<exists>u bs'. task_flush (tasks ?s u) = Some (r, bs')" using t r(1) by (intro exI [of _ u]) auto
  qed
  show "ordered (tasks ?s)" using ordered_update [OF D(10), of x t] x(2,3) by simp
qed

text \<open>The end of a fetch: the load of its page is over, and its frame holds the page.\<close>

lemma loads_filled:
  assumes inv: "coherent ok content next_of s" and t: "task_load (tasks s t) = Some p" and x: "task_load x = None"
    and s': "tasks s' = (tasks s)(t := x)" "fetching s' = (fetching s)(p := None)"
  shows "loads_ok s'"
proof -
  note D = coherentD [OF inv]
  have other: "u = t" if "task_load (tasks s u) = Some p" for u
    using D(2) t that unfolding owners_ok_def unique_def by blast
  have "(\<exists>u. task_load (tasks s' u) = Some r) \<longleftrightarrow> r \<noteq> p \<and> (\<exists>u. task_load (tasks s u) = Some r)" for r
  proof
    assume "\<exists>u. task_load (tasks s' u) = Some r"
    then obtain u where u: "task_load (tasks s' u) = Some r" by blast
    then have "u \<noteq> t" using x s' by auto
    then show "r \<noteq> p \<and> (\<exists>u. task_load (tasks s u) = Some r)" using u s' other [of u] by auto
  next
    assume "r \<noteq> p \<and> (\<exists>u. task_load (tasks s u) = Some r)"
    then obtain u where u: "task_load (tasks s u) = Some r" "r \<noteq> p" by blast
    then have "u \<noteq> t" using t by auto
    then show "\<exists>u. task_load (tasks s' u) = Some r" using u(1) s' by (intro exI [of _ u]) simp
  qed
  then show ?thesis using D(3) by (simp add: loads_ok_def s')
qed

lemma data_filled:
  assumes inv: "coherent ok content next_of s" and pool: "pool_ok (pool s)"
    and cached: "page_table (pool s) p = Some i" and idle: "flushing s p = None" and loading: "fetching s p \<noteq> None"
    and bs: "p \<notin> suspect s \<Longrightarrow> bs = expected s p"
    and s': "frames (pool s') = (frames (pool s))[i := write_data bs (frames (pool s) ! i)]"
      "page_table (pool s') = page_table (pool s)" "flushing s' = flushing s" "fetching s' = (fetching s)(p := None)"
      "store_state s' = store_state s" "expected s' = expected s" "suspect s' = suspect s"
  shows "data_ok content s'"
  unfolding data_ok_def
proof (intro conjI allI impI)
  note D = coherentD [OF inv]
  have i: "i < length (frames (pool s))" by (rule table_lt [OF pool cached])
  have disk: "p \<notin> suspect s \<Longrightarrow> content (store_state s) p = expected s p"
    using D(6) loading idle by (simp add: data_ok_def)
  fix q j assume q: "page_table (pool s') q = Some j" "fetching s' q = None" "q \<notin> suspect s'"
  have "frame_data (frames (pool s') ! j) = expected s' q \<and>
    (\<not> frame_dirty (frames (pool s') ! j) \<longrightarrow> content (store_state s') q = expected s' q)"
  proof (cases "q = p")
    case True
    then show ?thesis using q s' cached i bs disk by (simp add: write_data_def)
  next
    case False
    then have "j \<noteq> i" using table_inj [OF pool cached, of q] q(1) s'(2) by auto
    then show ?thesis using data_okD(1,2) [OF D(6), of q j] q False by (simp add: s')
  qed
  then show "frame_data (frames (pool s') ! j) = expected s' q"
    "\<not> frame_dirty (frames (pool s') ! j) \<Longrightarrow> content (store_state s') q = expected s' q" by simp_all
next
  note D = coherentD [OF inv]
  have disk: "p \<notin> suspect s \<Longrightarrow> content (store_state s) p = expected s p"
    using D(6) loading idle by (simp add: data_ok_def)
  fix q assume q: "page_table (pool s') q = None \<or> fetching s' q \<noteq> None" "flushing s' q = None" "q \<notin> suspect s'"
  show "content (store_state s') q = expected s' q"
    using data_okD(3) [OF D(6), of q] disk q by (cases "q = p") (simp_all add: s')
qed

lemma coherent_filled:
  assumes inv: "coherent ok content next_of s" and snd: "sound s" and t: "tasks s t = Filling p i fl bs"
    and run: "fetch_filled p i bs (pool s) = Some (c, b)"
  shows "coherent ok content next_of
    (s\<lparr>pool := b, tasks := (tasks s)(t := after_fill p i fl), sent := set_option c \<union> sent s\<rparr>)"
    (is "coherent ok content next_of ?s")
proof (rule coherentI)
  note D = coherentD [OF inv]
  have pins: "pins_inv (pool s) (tasks s)" and len: "length bs = PAGE_SIZE"
    using snd t by (auto simp: sound_def buffers_ok_def)
  have b: "c = fetching s p" "frames b = (frames (pool s))[i := write_data bs (frames (pool s) ! i)]"
    "page_table b = page_table (pool s)" "flushes (page_io_processing b) = flushing s"
    "fetches (page_io_processing b) = (fetching s)(p := None)"
    using pins_filled [OF pins _ len _ run, of t "after_fill p i fl"] t by simp_all
  have cached: "page_table (pool s) p = Some i" using pins_invD(3) [OF pins, of t p i] t by simp
  have load: "task_load (tasks s t) = Some p" using t by simp
  have loading: "fetching s p \<noteq> None" using D(3) load unfolding loads_ok_def by blast
  have idle: "flushing s p = None" "p \<notin> suspect s \<Longrightarrow> bs = expected s p" using D(8) [of t] t by simp_all
  have x: "task_flush (tasks ?s t) = fl" "task_alloc (tasks ?s t) = None" "task_load (after_fill p i fl) = None"
    by (auto simp: after_fill_def split: option.split)
  show "ok (store_state ?s)" using D(1) by simp
  show "owners_ok (tasks ?s)" using x t by (simp, intro owners_update [OF D(2)]) simp_all
  show "loads_ok ?s" by (rule loads_filled [OF inv load x(3)]) (simp_all add: b)
  show "channels_ok ?s" using D(4) by (rule channels_sent [of s _ c p]) (auto simp: b split: if_splits)
  show "pages_ok next_of ?s" using D(5) by (simp add: pages_ok_def b)
  show "data_ok content ?s"
    by (rule data_filled [OF inv pins_invD(1) [OF pins] cached idle(1) loading idle(2)]) (simp_all add: b)
  show "flush_ok ?s (task_flush (tasks ?s u))" for u
  proof -
    have "task_flush (tasks ?s u) = task_flush (tasks s u)" using x(1) t by (cases "u = t") simp_all
    then show ?thesis using D(7) [of u] idle(1) by (auto simp: flush_ok_def b)
  qed
  show "task_ok content next_of ?s (tasks ?s u)" for u
  proof (cases "u = t")
    case True
    then show ?thesis by (auto simp: after_fill_def b split: option.split)
  next
    case False
    then show ?thesis using D(8) [of u] by (cases "tasks s u") (auto simp: b)
  qed
  show "flushes_ok ?s"
    using D(9) flushes_update [of "tasks ?s t" "tasks s" t] x t by (simp add: flushes_ok_def b)
  show "ordered (tasks ?s)" using x t by (simp, intro ordered_update [OF D(10)]) simp_all
qed

text \<open>A new page.\<close>

lemma coherent_allocated:
  assumes inv: "coherent ok content next_of s" and snd: "sound s" and t: "tasks s t = Idle"
    and p: "p = \<lparr>pid_table_id = u, pid_page_index = of_nat (next_of (store_state s) u)\<rparr>"
    and room: "next_of (store_state s) u + 1 < 2 ^ 32"
    and disk: "ok d" "content d = content (store_state s)" "content d p = replicate PAGE_SIZE 0"
      "next_of d = (next_of (store_state s))(u := next_of (store_state s) u + 1)"
  shows "coherent ok content next_of (s\<lparr>store_state := d, tasks := (tasks s)(t := Allocated p)\<rparr>)"
    (is "coherent ok content next_of ?s")
proof (rule coherentI)
  note D = coherentD [OF inv]
  have index: "unat (pid_page_index p) = next_of (store_state s) u"
    using room by (simp add: p unat_of_nat take_bit_nat_eq_self)
  have new: "\<not> page_allocated next_of (store_state s) p" using index by (simp add: page_allocated_def p)
  have mono: "page_allocated next_of (store_state s) q \<Longrightarrow> page_allocated next_of d q" for q
    by (auto simp: page_allocated_def disk(4))
  have fresh: "page_table (pool s) p = None" "flushing s p = None" "p \<notin> suspect s"
    using D(5) new unfolding pages_ok_def by blast+
  have zero: "expected s p = replicate PAGE_SIZE 0"
    using data_okD(3) [OF D(6) fresh(3)] fresh disk(2,3) by simp
  have none: "task_alloc (tasks s v) \<noteq> Some p" for v using D(8) [of v] new by (cases "tasks s v") auto
  show "ok (store_state ?s)" using disk(1) by simp
  show "owners_ok (tasks ?s)"
    using D(2) none by (auto simp: owners_ok_def intro!: unique_update)
  show "loads_ok ?s" using D(3) loads_update [of "Allocated p" "tasks s" t] t by (simp add: loads_ok_def)
  show "channels_ok ?s" using D(4) by (simp add: channels_ok_def)
  show "pages_ok next_of ?s" using D(5) mono by (simp add: pages_ok_def)
  show "data_ok content ?s" using D(6) disk(2) by (simp add: data_ok_def)
  show "flush_ok ?s (task_flush (tasks ?s v))" for v using D(7) [of v] by (simp add: flush_ok_def)
  show "task_ok content next_of ?s (tasks ?s v)" for v
  proof (cases "v = t")
    case True
    have "page_allocated next_of d p" using index by (simp add: page_allocated_def disk(4) p)
    then show ?thesis using True fresh zero disk(3) by simp
  next
    case False
    then show ?thesis using D(8) [of v] mono disk(2) by (cases "tasks s v") auto
  qed
  show "flushes_ok ?s"
    using D(9) flushes_update [of "Allocated p" "tasks s" t] t by (simp add: flushes_ok_def)
  show "ordered (tasks ?s)" using ordered_update [OF D(10), of "Allocated p" t] t by simp
qed

text \<open>
  A page that enters the cache takes a free frame, or that of an evicted page \<open>q\<close>. The lemmas below
  show what this does to each part of the invariant.
\<close>

definition takeover ::
  "'c \<Rightarrow> 'c buffer_pool \<Rightarrow> page_id \<Rightarrow> usize \<Rightarrow> flush \<Rightarrow> page_id option \<Rightarrow> 'c buffer_pool \<Rightarrow> bool" where
  "takeover tx b p i fl q b' \<longleftrightarrow>
     (\<forall>r. page_table b r = Some i \<longleftrightarrow> q = Some r) \<and> (q \<noteq> None \<longrightarrow> free_frames b = []) \<and>
     page_table b' = (case q of None \<Rightarrow> page_table b | Some r \<Rightarrow> (page_table b)(r := None))(p \<mapsto> i) \<and>
     flushes (page_io_processing b') =
       (case fl of None \<Rightarrow> flushes (page_io_processing b) | Some (r, _) \<Rightarrow> (flushes (page_io_processing b))(r \<mapsto> tx)) \<and>
     (case fl of None \<Rightarrow> True | Some (r, bs) \<Rightarrow> q = Some r \<and> bs = frame_data (frames b ! i)) \<and>
     (q \<noteq> None \<and> fl = None \<longrightarrow> \<not> frame_dirty (frames b ! i)) \<and>
     (q = None \<longrightarrow> free_frames b \<noteq> [] \<and> frame_data (frames b ! i) = replicate PAGE_SIZE 0)"

lemma takeoverD:
  assumes "takeover tx b p i fl q b'"
  shows "page_table b r = Some i \<longleftrightarrow> q = Some r" and "q \<noteq> None \<Longrightarrow> free_frames b = []"
    and "page_table b' = (case q of None \<Rightarrow> page_table b | Some r \<Rightarrow> (page_table b)(r := None))(p \<mapsto> i)"
    and "flushes (page_io_processing b') =
       (case fl of None \<Rightarrow> flushes (page_io_processing b) | Some (r, _) \<Rightarrow> (flushes (page_io_processing b))(r \<mapsto> tx))"
    and "fl = Some (r, bs) \<Longrightarrow> q = Some r \<and> bs = frame_data (frames b ! i)"
    and "q = Some r \<Longrightarrow> fl = None \<Longrightarrow> \<not> frame_dirty (frames b ! i)"
    and "q = None \<Longrightarrow> free_frames b \<noteq> [] \<and> frame_data (frames b ! i) = replicate PAGE_SIZE 0"
  using assms unfolding takeover_def by (auto split: option.splits)

lemma entered_takeover:
  assumes ok: "pool_ok b" and "page_table b p = None" and "page_entered tx b p i fl f b'"
  shows "\<exists>q. takeover tx b p i fl q b'"
  using assms
proof (cases rule: entered_cases)
  case free
  then show ?thesis by (intro exI [of _ None]) (simp add: takeover_def)
next
  case (clean q)
  then show ?thesis using table_inj [OF ok] by (intro exI [of _ "Some q"]) (auto simp: takeover_def)
next
  case (dirty q)
  then show ?thesis using table_inj [OF ok] by (intro exI [of _ "Some q"]) (auto simp: takeover_def)
qed

lemma takeover_flushing:
  assumes "takeover tx b p i fl q b'"
  shows "flushes (page_io_processing b') r = Some c \<Longrightarrow>
      flushes (page_io_processing b) r = Some c \<or> c = tx \<and> q = Some r"
    and "flushes (page_io_processing b') r = None \<Longrightarrow> flushes (page_io_processing b) r = None"
    and "q \<noteq> Some r \<Longrightarrow> flushes (page_io_processing b') r = flushes (page_io_processing b) r"
    and "q = Some r \<Longrightarrow> flushes (page_io_processing b') r = None \<Longrightarrow> fl = None"
  using takeoverD(4,5) [OF assms] by (auto split: option.splits if_splits)

lemma takeover_table:
  assumes "takeover tx b p i fl q b'"
  shows "page_table b' p = Some i"
    and "r \<noteq> p \<Longrightarrow> page_table b' r = (if q = Some r then None else page_table b r)"
  using takeoverD(3) [OF assms] by (auto split: option.splits)

text \<open>Neither the page nor the evicted one is the business of another task.\<close>

lemma takeover_idle:
  assumes inv: "coherent ok content next_of s" and snd: "sound s"
    and take: "takeover tx (pool s) p i fl q (pool s')" and miss: "page_table (pool s) p = None"
    and i: "i < length (frames (pool s))" "frame_pin_count (frames (pool s) ! i) = 0"
  shows "task_frame (tasks s u) = Some (r, j) \<Longrightarrow> r \<noteq> p \<and> j \<noteq> i \<and> q \<noteq> Some r"
    and "task_load (tasks s u) \<noteq> Some p"
    and "q = Some r \<Longrightarrow> r \<noteq> p \<and> page_table (pool s) r = Some i \<and> fetching s r = None"
    and "q = Some r \<Longrightarrow> task_flush (tasks s u) \<noteq> Some (r, bs)"
proof -
  note D = coherentD [OF inv] and K = takeoverD [OF take]
  have pins: "pins_inv (pool s) (tasks s)" using snd by (simp add: sound_def)
  show held: "r \<noteq> p \<and> j \<noteq> i \<and> q \<noteq> Some r" if "task_frame (tasks s u) = Some (r, j)" for u r j
    using unpinned_no_holder [OF pins i] pins_invD(3) [OF pins that] that miss K(1) [of r] by auto
  show "task_load (tasks s u) \<noteq> Some p" using load_frame [of "tasks s u" p] held [of u p] by blast
  show idle: "r \<noteq> p \<and> page_table (pool s) r = Some i \<and> fetching s r = None" if q: "q = Some r" for r
  proof -
    have r: "page_table (pool s) r = Some i" using K(1) q by blast
    then show ?thesis using miss unpinned_settled [OF snd D(3) r i(2)] by auto
  qed
  show "task_flush (tasks s u) \<noteq> Some (r, bs)" if "q = Some r"
    using D(7) [of u] idle [OF that] by (auto simp: flush_ok_def)
qed

lemma enter_channels:
  assumes C: "channels_ok s" and take: "takeover tx (pool s) p i fl q (pool s')"
    and fetching: "fetching s' = (fetching s)(p := fetch)" and "sent s' = sent s"
    and tx: "tx \<notin> used s" "tx \<in> used s'" "used s \<subseteq> used s'"
      "\<And>c. fetch = Some c \<Longrightarrow> c \<notin> used s \<and> c \<in> used s' \<and> c \<noteq> tx"
  shows "channels_ok s'"
proof -
  note C = C [unfolded channels_ok_def]
  have old: "flushing s r = Some c \<or> c = tx \<and> q = Some r" if "flushing s' r = Some c" for r c
    by (rule takeover_flushing(1) [OF take that])
  have old': "fetching s r = Some c \<or> fetch = Some c \<and> r = p" if "fetching s' r = Some c" for r c
    using that by (simp add: fetching split: if_splits)
  have used: "c \<in> used s" if "fetching s r = Some c \<or> flushing s r = Some c" for r c using C that by blast
  have unsent: "c \<notin> sent s" if "c \<notin> used s" for c using C that by blast
  show ?thesis unfolding channels_ok_def
  proof (intro conjI allI impI)
    show "sent s' \<subseteq> used s'" using C tx(3) assms(4) by blast
    show "c \<in> used s'" if "fetching s' r = Some c \<or> flushing s' r = Some c" for r c
      using that old old' used tx by blast
    show "c \<notin> sent s'" if "fetching s' r = Some c \<or> flushing s' r = Some c" for r c
      using that old old' C unsent tx(1,4) assms(4) by metis
    show "r = r'" if "fetching s' r = Some c" "fetching s' r' = Some c" for r r' c
      using old' [OF that(1)] old' [OF that(2)] used tx(4) C by blast
    show "r = r'" if "flushing s' r = Some c" "flushing s' r' = Some c" for r r' c
      using old [OF that(1)] old [OF that(2)] used tx(1) C by (metis option.inject)
    show "flushing s' r' \<noteq> Some c" if "fetching s' r = Some c" for r r' c
      using old' [OF that] old [of r' c] used tx(1,4) C by metis
  qed
qed

lemma enter_pages:
  assumes "pages_ok next_of s" and take: "takeover tx (pool s) p i fl q (pool s')"
    and "page_allocated next_of (store_state s) p" and "store_state s' = store_state s"
    and "suspect s' \<subseteq> insert p (suspect s)"
  shows "pages_ok next_of s'"
proof -
  have "page_table (pool s) r \<noteq> None \<or> flushing s r \<noteq> None \<or> r \<in> suspect s \<or> r = p"
    if "page_table (pool s') r \<noteq> None \<or> flushing s' r \<noteq> None \<or> r \<in> suspect s'" for r
    using that assms(5) takeoverD(1) [OF take, of r] takeover_table(2) [OF take, of r]
      takeover_flushing(1) [OF take, of r] by (cases "r = p") (auto split: if_splits)
  then show ?thesis using assms(1,3,4) unfolding pages_ok_def by metis
qed

lemma enter_data:
  assumes data: "data_ok content s" and take: "takeover tx (pool s) p i fl q (pool s')"
    and miss: "page_table (pool s) p = None" and settled: "\<And>r. q = Some r \<Longrightarrow> fetching s r = None"
    and fetching: "fetching s' = (fetching s)(p := fetch)"
    and fr: "i < length (frames (pool s))" "frames (pool s') = (frames (pool s))[i := f]"
      "frame_data f = frame_data (frames (pool s) ! i)"
    and new: "fetch = None \<Longrightarrow> if free_frames (pool s) = [] then p \<in> suspect s'
       else content (store_state s) p = replicate PAGE_SIZE 0 \<and> expected s p = replicate PAGE_SIZE 0"
    and rest: "store_state s' = store_state s" "expected s' = expected s" and grow: "suspect s \<subseteq> suspect s'"
  shows "data_ok content s'"
  unfolding data_ok_def
proof (intro conjI allI impI)
  note K = takeoverD [OF take]
  fix r j assume r: "page_table (pool s') r = Some j" "fetching s' r = None" "r \<notin> suspect s'"
  have "frame_data (frames (pool s') ! j) = expected s' r \<and>
    (\<not> frame_dirty (frames (pool s') ! j) \<longrightarrow> content (store_state s') r = expected s' r)"
  proof (cases "r = p")
    case True
    then have "fetch = None" "free_frames (pool s) \<noteq> []" using r new by (auto simp: fetching split: if_splits)
    moreover have "j = i" using r(1) True takeover_table(1) [OF take] by simp
    ultimately show ?thesis using True new K(2,7) rest fr by (cases q) auto
  next
    case False
    then have j: "page_table (pool s) r = Some j" "q \<noteq> Some r"
      using r(1) takeover_table(2) [OF take False] by (auto split: if_splits)
    then have "j \<noteq> i" using K(1) by blast
    moreover have "fetching s r = None" "r \<notin> suspect s" using r False grow by (auto simp: fetching)
    ultimately show ?thesis using data_okD(1,2) [OF data, of r j] j(1) rest fr(2) by simp
  qed
  then show "frame_data (frames (pool s') ! j) = expected s' r"
    "\<not> frame_dirty (frames (pool s') ! j) \<Longrightarrow> content (store_state s') r = expected s' r" by simp_all
next
  fix r assume r: "page_table (pool s') r = None \<or> fetching s' r \<noteq> None" "flushing s' r = None" "r \<notin> suspect s'"
  have out: "r \<notin> suspect s" using r(3) grow by blast
  show "content (store_state s') r = expected s' r"
  proof (cases "q = Some r")
    case True
    then show ?thesis using data_okD(2) [OF data out, of i] settled takeoverD(1,6) [OF take, of r]
        takeover_flushing(4) [OF take True r(2)] rest by simp
  next
    case False
    then show ?thesis using data_okD(3) [OF data out] takeover_flushing(2) [OF take r(2)] rest r(1) miss
        takeover_table(2) [OF take, of r] by (cases "r = p") (auto simp: fetching)
  qed
qed

lemma enter_own_flush:
  assumes data: "data_ok content s" and ok: "pool_ok (pool s)"
    and take: "takeover tx (pool s) p i fl q (pool s')"
    and idle: "\<And>r. q = Some r \<Longrightarrow> r \<noteq> p \<and> fetching s r = None" and i: "i < length (frames (pool s))"
    and "expected s' = expected s" and "suspect s \<subseteq> suspect s'"
  shows "flush_ok s' fl"
  unfolding flush_ok_def
proof (intro allI impI)
  note K = takeoverD [OF take]
  fix r bs assume fl: "fl = Some (r, bs)"
  then have q: "q = Some r" "bs = frame_data (frames (pool s) ! i)" using K(5) by simp_all
  have len: "length bs = PAGE_SIZE"
    using pool_exceptD(5) [OF ok [unfolded pool_ok_def] i] by (simp add: frame_ok_def Let_def q(2))
  have "bs = expected s' r" if "r \<notin> suspect s'"
    using data_okD(1) [OF data, of r i] idle [OF q(1)] that assms(6,7) q K(1) [of r] by auto
  then show "flushing s' r \<noteq> None \<and> length bs = PAGE_SIZE \<and> (r \<notin> suspect s' \<longrightarrow> bs = expected s' r) \<and>
      (page_table (pool s') r \<noteq> None \<longrightarrow> fetching s' r \<noteq> None)"
    using len idle [OF q(1)] takeover_table(2) [OF take, of r] K(4) fl q(1) by simp
qed

lemma enter_other_flush:
  assumes old: "flush_ok s g" and take: "takeover tx (pool s) p i fl q (pool s')"
    and fetching: "fetching s' = (fetching s)(p := fetch)" and new: "fetch = None \<Longrightarrow> flushing s p = None"
    and "expected s' = expected s" and "suspect s \<subseteq> suspect s'"
  shows "flush_ok s' g"
  unfolding flush_ok_def
proof (intro allI impI)
  fix r bs assume g: "g = Some (r, bs)"
  then have r: "flushing s r \<noteq> None" "length bs = PAGE_SIZE" "r \<notin> suspect s \<longrightarrow> bs = expected s r"
    "page_table (pool s) r \<noteq> None \<longrightarrow> fetching s r \<noteq> None"
    using old unfolding flush_ok_def g by blast+
  have "flushing s' r \<noteq> None" using r(1) takeover_flushing(2) [OF take, of r] by (cases "flushing s' r") auto
  moreover have "page_table (pool s') r \<noteq> None \<longrightarrow> fetching s' r \<noteq> None"
    using r(1,4) new takeover_table(2) [OF take, of r] by (cases "r = p"; cases fetch) (auto simp: fetching)
  ultimately show "flushing s' r \<noteq> None \<and> length bs = PAGE_SIZE \<and> (r \<notin> suspect s' \<longrightarrow> bs = expected s' r) \<and>
      (page_table (pool s') r \<noteq> None \<longrightarrow> fetching s' r \<noteq> None)"
    using r assms(5,6) by auto
qed

lemma enter_task:
  assumes old: "task_ok content next_of s y" and take: "takeover tx (pool s) p i fl q (pool s')"
    and y: "y \<noteq> Allocated p" "\<And>r j. task_frame y = Some (r, j) \<Longrightarrow> r \<noteq> p \<and> q \<noteq> Some r"
    and fetching: "fetching s' = (fetching s)(p := fetch)" and "used s \<subseteq> used s'"
    and rest: "store_state s' = store_state s" "sent s' = sent s" "expected s' = expected s"
    and suspect: "suspect s \<subseteq> suspect s'" "suspect s' \<subseteq> insert p (suspect s)"
  shows "task_ok content next_of s' y"
proof -
  have same: "fetching s' r = fetching s r" "flushing s' r = flushing s r" "r \<in> suspect s' \<longleftrightarrow> r \<in> suspect s"
    if "task_frame y = Some (r, j)" for r j
    using y(2) [OF that] suspect takeover_flushing(3) [OF take, of r] by (auto simp: fetching)
  show ?thesis
  proof (cases y)
    case (Allocated r)
    then have r: "r \<noteq> p" "page_table (pool s) r = None" using y(1) old by auto
    then have "q \<noteq> Some r" using takeoverD(1) [OF take, of r] by auto
    then show ?thesis using old Allocated r rest suspect(2) takeover_table(2) [OF take, of r]
        takeover_flushing(3) [OF take, of r] by auto
  qed (use old same assms(6) rest in auto)
qed

text \<open>
  Together: \<open>fetch\<close> is the channel on which the bytes of the page are announced, or nothing for a
  page that was just created.
\<close>

lemma coherent_enter:
  assumes inv: "coherent ok content next_of s" and snd: "sound s"
    and miss: "page_table (pool s) p = None" and entered: "page_entered tx (pool s) p i fl f (pool s')"
    and f: "frame_data f = frame_data (frames (pool s) ! i)"
    and t: "task_flush (tasks s t) = None" "task_load (tasks s t) = None"
    and x: "task_flush x = fl" "task_load x = (if fetch = None then None else Some p)" "task_alloc x = None"
      "task_ok content next_of s' x"
    and fetching: "fetching s' = (fetching s)(p := fetch)"
    and others: "\<And>u. u \<noteq> t \<Longrightarrow> tasks s u \<noteq> Allocated p"
    and known: "page_allocated next_of (store_state s) p"
    and new: "fetch = None \<Longrightarrow> flushing s p = None \<and>
      (if free_frames (pool s) = [] then p \<in> suspect s'
       else content (store_state s) p = replicate PAGE_SIZE 0 \<and> expected s p = replicate PAGE_SIZE 0)"
    and tx: "tx \<notin> used s" "tx \<in> used s'" "used s \<subseteq> used s'"
      "\<And>c. fetch = Some c \<Longrightarrow> c \<notin> used s \<and> c \<in> used s' \<and> c \<noteq> tx"
    and T: "tasks s' = (tasks s)(t := x)"
    and rest: "store_state s' = store_state s" "sent s' = sent s" "expected s' = expected s"
    and suspect: "suspect s \<subseteq> suspect s'" "suspect s' \<subseteq> insert p (suspect s)"
  shows "coherent ok content next_of s'"
proof -
  note D = coherentD [OF inv]
  have pins: "pins_inv (pool s) (tasks s)" using snd by (simp add: sound_def)
  note ok = pins_invD(1) [OF pins] and fr = entered_frames [OF entered]
  obtain q where take: "takeover tx (pool s) p i fl q (pool s')" using entered_takeover [OF ok miss entered] by blast
  note idle = takeover_idle [OF inv snd take miss fr(1,2)]
  show ?thesis
  proof (rule coherentI)
    show "ok (store_state s')" using D(1) rest by simp
    show "owners_ok (tasks s')" unfolding T owners_ok_def
      using D(2) [unfolded owners_ok_def] x(1-3) idle(2,4) takeoverD(5) [OF take]
      by (intro conjI unique_update) (auto split: if_splits)
    have "(\<exists>u. task_load (tasks s' u) = Some r) \<longleftrightarrow>
        (if r = p then fetch \<noteq> None else \<exists>u. task_load (tasks s u) = Some r)" for r
      unfolding T loads_new [of "tasks s" t, OF t(2)] using idle(2) x(2) by (cases "r = p") auto
    then show "loads_ok s'" using D(3) unfolding loads_ok_def fetching by simp
    show "channels_ok s'" by (rule enter_channels [OF D(4) take fetching rest(2) tx])
    show "pages_ok next_of s'" by (rule enter_pages [OF D(5) take known rest(1) suspect(2)])
    show "data_ok content s'"
      by (rule enter_data [OF D(6) take miss _ fetching fr(1,3) f _ rest(1,3) suspect(1)]) (use idle(3) new in auto)
    have own: "flush_ok s' fl"
      by (rule enter_own_flush [OF D(6) ok take _ fr(1) rest(3) suspect(1)]) (use idle(3) in blast)
    have "flush_ok s' (task_flush (tasks s u))" for u
      by (rule enter_other_flush [OF D(7) take fetching _ rest(3) suspect(1)]) (use new in blast)
    then show "flush_ok s' (task_flush (tasks s' u))" for u using own by (simp add: T x(1))
    have "task_ok content next_of s' (tasks s u)" if "u \<noteq> t" for u
      by (rule enter_task [OF D(8) take others [OF that] _ fetching tx(3) rest suspect]) (use idle(1) in blast)
    then show "task_ok content next_of s' (tasks s' u)" for u using x(4) by (simp add: T)
    have "(\<exists>u bs. task_flush (tasks s' u) = Some (r, bs)) \<longleftrightarrow>
        (\<exists>bs. fl = Some (r, bs)) \<or> (\<exists>u bs. task_flush (tasks s u) = Some (r, bs))" for r
      unfolding T using t(1) x(1) by (metis fun_upd_apply option.distinct(1))
    then show "flushes_ok s'" using D(9) takeoverD(4) [OF take] unfolding flushes_ok_def
      by (auto split: option.splits if_splits)
    show "ordered (tasks s')" unfolding T
    proof (rule ordered_enter [OF D(10) pins_invD(2) [OF pins]])
      fix u r bs assume "task_flush x = Some (r, bs)"
      then have "q = Some r" using takeoverD(5) [OF take] x(1) by simp
      then show "task_load (((tasks s)(t := x)) u) \<noteq> Some r"
        using load_frame [of "tasks s u" r] idle(1) [of u r] idle(3) [of r] x(2) by (cases "u = t") auto
    qed
  qed
qed

end
