(* ===== verification/Pool_Coherence.thy ===== *)
theory Pool_Coherence
  imports Pool_Invariant
begin

text \<open>
  The cache is coherent with the disk in every run of the system of \<open>Pool_System\<close> in which no disk
  operation failed, and its operations do not deadlock. The invariant is stated for any page store
  and proved in the locale of \<open>Disk_Manager\<close>; the properties are about the disk manager on the
  file system of the operating system.
\<close>

section \<open>Runs\<close>

lemma step_failed: "step allocate get whole store next_of t s s' \<Longrightarrow> failed s \<Longrightarrow> failed s'"
  by (cases rule: step.cases) auto

lemma initial_coherent: "ok d \<Longrightarrow> coherent ok content next_of (initial (content d) n d)"
  by (rule coherentI) (simp_all add: initial_def buffer_pool_new_def page_processing_map_new_def owners_ok_def
    unique_def loads_ok_def flushes_ok_def ordered_def waits_def channels_ok_def pages_ok_def data_ok_def flush_ok_def)

lemma after_task:
  "task_flush (after_fill p i fl) = fl" "task_flush (after_claim p i fl) = fl"
  "task_alloc (after_fill p i fl) = None" "task_alloc (after_claim p i fl) = None"
  "task_ok content next_of s (after_claim p i fl) = (fetching s p = None)"
  by (auto simp: after_fill_def after_claim_def split: option.split)

lemma flushed_ok:
  assumes "fetch_flushed q (Ok u) b = (r', c, b') \<or> create_page_flushed q (Ok u) b = (r', c, b')"
  shows "r' = Ok ()" and "finish_flush q b = (c, b')"
  using assms by (auto simp: fetch_flushed_def create_page_flushed_def split: prod.splits)

text \<open>A list of frames after an update of one pin count has the same bytes and flags.\<close>

lemma pins_data:
  assumes "j < length xs"
  shows "frame_data (xs[i := (xs ! i)\<lparr>frame_pin_count := n\<rparr>] ! j) = frame_data (xs ! j) \<and>
    frame_dirty (xs[i := (xs ! i)\<lparr>frame_pin_count := n\<rparr>] ! j) = frame_dirty (xs ! j)"
  using assms by (cases "j = i") simp_all

text \<open>
  In a coherent system a guard on a page shows the bytes last written to the page by any task (or
  those on the disk at the start), and a page that is neither in the cache nor being flushed has
  them on the disk. Pages created in an evicted frame or read short, and not written since, are exempt.
\<close>

lemma coherent_data:
  assumes inv: "coherent ok content next_of s" and snd: "sound s" and p: "p \<notin> suspect s"
  shows "tasks s t = Reader p i \<or> tasks s t = Writer p i \<Longrightarrow> frame_data (frames (pool s) ! i) = expected s p"
    and "page_table (pool s) p = None \<Longrightarrow> flushing s p = None \<Longrightarrow> content (store_state s) p = expected s p"
proof -
  have pins: "pins_inv (pool s) (tasks s)" using snd by (simp add: sound_def)
  note D = coherentD [OF inv]
  show "frame_data (frames (pool s) ! i) = expected s p" if g: "tasks s t = Reader p i \<or> tasks s t = Writer p i"
  proof -
    have "page_table (pool s) p = Some i" using pins_invD(3) [OF pins, of t p i] g by auto
    moreover have "fetching s p = None" using D(8) [of t] g by auto
    ultimately show ?thesis by (rule data_okD(1) [OF D(6) p])
  qed
  show "content (store_state s) p = expected s p" if "page_table (pool s) p = None" "flushing s p = None"
    using data_okD(3) [OF D(6) p] that by blast
qed

context page_store
begin

lemma coherent_miss:
  assumes inv: "coherent ok content next_of s" and snd: "sound s" and t: "tasks s t = Idle"
    and known: "known next_of s p" and tx: "tx \<notin> used s" "tx' \<notin> used s" "tx \<noteq> tx'"
    and run: "fetch_claim tx tx' p (pool s) = Some (Miss i fl, b)"
  shows "coherent ok content next_of (s\<lparr>pool := b, tasks := (tasks s)(t := Miss_Check p i fl),
    used := insert tx (insert tx' (used s))\<rparr>)"
proof -
  have pins: "pins_inv (pool s) (tasks s)" using snd by (simp add: sound_def)
  note m = miss_entered [OF pins run]
  show ?thesis
    by (rule coherent_enter [OF inv snd m(1), where fetch = "Some tx'" and t = t and x = "Miss_Check p i fl"
          and tx = tx and i = i and fl = fl, rotated])
      (use m t known tx in \<open>auto simp: known_def\<close>)
qed

lemma coherent_claim:
  assumes inv: "coherent ok content next_of s" and snd: "sound s" and t: "tasks s t = Allocated p"
    and new: "page_table (pool s) p = None" and tx: "tx \<notin> used s"
    and run: "create_page_claim tx p (pool s) = Some (i, fl, b)"
  shows "coherent ok content next_of (s\<lparr>pool := b, tasks := (tasks s)(t := after_claim p i fl),
    used := insert tx (used s),
    suspect := (if free_frames (pool s) = [] then insert p (suspect s) else suspect s)\<rparr>)"
proof -
  have pins: "pins_inv (pool s) (tasks s)" using snd by (simp add: sound_def)
  note D = coherentD [OF inv]
  note m = claim_entered [OF pins new run]
  have p: "page_allocated next_of (store_state s) p" "flushing s p = None"
    "content (store_state s) p = replicate PAGE_SIZE 0" "expected s p = replicate PAGE_SIZE 0"
    using D(8) [of t] t by simp_all
  have others: "tasks s u \<noteq> Allocated p" if "u \<noteq> t" for u
    using D(2) t that unfolding owners_ok_def unique_def by (metis task_alloc.simps(1))
  have settled: "fetching s p = None" by (rule uncached_settled [OF snd D(3) new])
  then have same: "(fetching s)(p := None) = fetching s" by auto
  show ?thesis
    by (rule coherent_enter [OF inv snd new, where fetch = None and t = t and x = "after_claim p i fl"
          and tx = tx and i = i and fl = fl, rotated])
      (use m t p others settled same tx in \<open>auto simp: after_task\<close>)
qed

lemma coherent_write:
  assumes good and inv: "coherent ok content next_of s"
    and t: "tasks s t = Writing_Back p i q bs \<or> tasks s t = Create_Flush p i q bs"
    and st: "store q bs (store_state s) = (Ok u, d)"
    and out: "fetch_flushed q (Ok u) (pool s) = (r', c, b) \<or> create_page_flushed q (Ok u) (pool s) = (r', c, b)"
  shows "coherent ok content next_of (s\<lparr>pool := b, store_state := d, tasks := (tasks s)(t := after_write p i r'),
    sent := set_option c \<union> sent s, failed := e\<rparr>)"
proof -
  note D = coherentD [OF inv]
  note f = flushed_ok [OF out]
  have fl: "task_flush (tasks s t) = Some (q, bs)" "task_load (tasks s t) = None" "fetching s p = None"
    using t D(8) [of t] by auto
  then have q: "flushing s q \<noteq> None" "length bs = PAGE_SIZE" using D(7) [of t] by (auto simp: flush_ok_def)
  have "unat (pid_page_index q) < next_of (store_state s) (pid_table_id q)"
    using D(5) q(1) by (auto simp: pages_ok_def page_allocated_def)
  from write_law [OF assms(1) D(1) this q(2) st]
  have d: "ok d" "content d = (content (store_state s))(q := bs)" "next_of d = next_of (store_state s)" by simp_all
  show ?thesis unfolding f(1)
    by (rule coherent_flushed [OF inv fl(1,2) _ _ _ _ _ f(2) d]) (simp_all add: after_write_def fl(3))
qed

lemma step_coherent:
  assumes good and "step allocate get whole store next_of t s s'" and snd: "sound s"
    and inv: "coherent ok content next_of s" and fine: "\<not> failed s'"
  shows "coherent ok content next_of s'"
proof -
  have pins: "pins_inv (pool s) (tasks s)" using snd by (simp add: sound_def)
  note D = coherentD [OF inv]
  note move = coherent_move [OF inv snd]
  from assms(2) show ?thesis
  proof cases
    case (hit p tx tx' i b)
    note h = pins_hit [OF pins hit(2,4,5)]
    show ?thesis using hit h D(1) by (intro move [of _ t "Hit_Check p i"]) (simp_all add: pins_data)
  next
    case (full p tx tx' b)
    note h = full_fields [OF pins full(4)]
    have "(tasks s)(t := Idle) = tasks s" using full(2) by (simp add: fun_upd_idem)
    then show ?thesis using full h D(1) by (intro move [of _ t Idle]) simp_all
  next
    case (miss p tx tx' i fl b)
    show ?thesis unfolding miss(1) by (rule coherent_miss [OF inv snd]) (use miss in simp_all)
  next
    case (hit_ready p i)
    then show ?thesis using D(1) by (intro move [of _ t "Pinned p i"]) simp_all
  next
    case (hit_wait p i c)
    have "c \<in> used s" using D(4) hit_wait(3) by (auto simp: channels_ok_def)
    then show ?thesis using hit_wait D(1) by (intro move [of _ t "Fetch_Wait p i c"]) simp_all
  next
    case (fetch_received p i c)
    have "fetching s p \<noteq> Some c" using D(4) fetch_received(3) by (auto simp: channels_ok_def)
    then have "fetching s p = None" using D(8) [of t] fetch_received(2) by auto
    then show ?thesis using fetch_received D(1) by (intro move [of _ t "Pinned p i"]) simp_all
  next
    case (fetch_closed p i c b)
    have "task_frame (tasks s t) = Some (p, i)" using fetch_closed by simp
    note h = pins_release [OF pins this fetch_closed(4), of Idle]
    show ?thesis using fetch_closed h D(1) by (intro move [of _ t Idle]) (simp_all add: pins_data)
  next
    case (miss_ready p i fl)
    then show ?thesis using D(1) by (intro move [of _ t "Reading p i fl"]) simp_all
  next
    case (miss_wait p i fl c)
    have "c \<in> used s" using D(4) miss_wait(3) by (auto simp: channels_ok_def)
    then show ?thesis using miss_wait D(1) by (intro move [of _ t "Flush_Wait p i fl c"]) simp_all
  next
    case (flush_received p i fl c)
    have "flushing s p \<noteq> Some c" using D(4) flush_received(3) by (auto simp: channels_ok_def)
    then have "flushing s p = None" using D(8) [of t] flush_received(2) by auto
    then show ?thesis using flush_received D(1) by (intro move [of _ t "Reading p i fl"]) simp_all
  next
    case (flush_closed p i fl c)
    then show ?thesis using fine by simp
  next
    case (read p i fl u bs d)
    define s1 where "s1 = (if whole p (store_state s) then s else s\<lparr>suspect := insert p (suspect s)\<rparr>)"
    have "page_table (pool s) p = Some i" using pins_invD(3) [OF pins, of t p i] read(2) by simp
    then have inv1: "coherent ok content next_of s1" using inv coherent_suspect [OF inv, of p] by (simp add: s1_def)
    have snd1: "sound s1" using snd by (simp add: s1_def sound_def)
    have same: "tasks s1 = tasks s" "pool s1 = pool s" "store_state s1 = store_state s" "used s1 = used s"
      "sent s1 = sent s" "expected s1 = expected s"
      "suspect s1 = (if whole p (store_state s) then suspect s else insert p (suspect s))"
      by (simp_all add: s1_def)
    from read_law [OF assms(1) D(1) read(3)]
    have d: "ok d" "content d = content (store_state s)" "next_of d = next_of (store_state s)"
      "whole p (store_state s) \<Longrightarrow> bs = content (store_state s) p" by simp_all
    have idle: "flushing s p = None" using D(8) [of t] read(2) by simp
    have "task_load (tasks s t) = Some p" using read(2) by simp
    then have "fetching s p \<noteq> None" using D(3) unfolding loads_ok_def by blast
    then have "bs = expected s p" if "p \<notin> suspect s1"
      using data_okD(3) [OF D(6)] idle d(4) that same(7) by (simp split: if_splits)
    then show ?thesis unfolding read(1)
      using read(2) d(1-3) idle by (intro coherent_move [OF inv1 snd1, of _ t "Filling p i fl bs"]) (simp_all add: same)
  next
    case (read_failed p i fl e bs d)
    then show ?thesis using fine by simp
  next
    case (fill p i fl bs c b)
    show ?thesis unfolding fill(1) by (rule coherent_filled [OF inv snd fill(2,4)])
  next
    case (write_back p i q bs r d r' c b)
    then obtain u where "r = Ok u" using fine by auto
    then show ?thesis unfolding write_back(1) using write_back
      by (intro coherent_write [OF assms(1) inv, of t p i q bs u]) simp_all
  next
    case (allocated table_id p d)
    from allocate_law [OF assms(1) D(1), of table_id] allocated(3,4)
    have d: "p = \<lparr>pid_table_id = table_id, pid_page_index = of_nat (next_of (store_state s) table_id)\<rparr>"
      "ok d" "content d = content (store_state s)" "content (store_state s) p = replicate PAGE_SIZE 0"
      "next_of d = (next_of (store_state s))(table_id := next_of (store_state s) table_id + 1)" by auto
    show ?thesis unfolding allocated(1)
      by (rule coherent_allocated [OF inv snd allocated(2) d(1) allocated(3) d(2,3) _ d(5)]) (simp add: d(3,4))
  next
    case (allocate_failed table_id e d)
    then show ?thesis using fine by simp
  next
    case (claim p tx i fl b)
    show ?thesis unfolding claim(1) by (rule coherent_claim [OF inv snd claim(2-5)])
  next
    case (create_flush p i q bs r d r' c b)
    then obtain u where "r = Ok u" using fine by auto
    then show ?thesis unfolding create_flush(1) using create_flush
      by (intro coherent_write [OF assms(1) inv, of t p i q bs u]) simp_all
  next
    case (lock_read p i)
    then show ?thesis using D(1) D(8) [of t] by (intro move [of _ t "Reader p i"]) simp_all
  next
    case (lock_write p i)
    then show ?thesis using D(1) D(8) [of t] by (intro move [of _ t "Writer p i"]) simp_all
  next
    case (store_guard p i bs b)
    show ?thesis unfolding store_guard(1) by (rule coherent_store [OF inv snd store_guard(2-4)])
  next
    case (drop_read p i b)
    then show ?thesis using pins_release [OF pins, of t p i b Idle] guard_unpins [OF pins, of t p i b] D(1)
      by (intro move [of _ t Idle]) (simp_all add: pins_data)
  next
    case (drop_write p i b)
    then show ?thesis using pins_release [OF pins, of t p i b Idle] guard_unpins [OF pins, of t p i b] D(1)
      by (intro move [of _ t Idle]) (simp_all add: pins_data)
  qed
qed

lemma run_coherent:
  assumes good and "ok d" and "run allocate get whole store next_of (initial (content d) n d) s"
    and "\<not> failed s"
  shows "coherent ok content next_of s"
  using assms(3,4)
proof (induction rule: run.induct)
  case start
  then show ?case using initial_coherent [of ok d content next_of n] assms(2) by simp
next
  case (continue s' s'')
  have "\<not> failed s'" using step_failed [OF continue.hyps(2)] continue.prems by blast
  then show ?case
    using step_coherent [OF assms(1) continue.hyps(2) run_sound [OF continue.hyps(1)]] continue by blast
qed

end

section \<open>Progress\<close>

text \<open>
  A task is busy between the start of an operation and the pin it returns, and blocked while what it
  awaits has not happened. A task that holds a guard, or waits for the data lock of a guard, is its
  client's matter.
\<close>

fun busy :: "'c task \<Rightarrow> bool" where
  "busy Idle = False"
| "busy (Allocated p) = False"
| "busy (Pinned p i) = False"
| "busy (Reader p i) = False"
| "busy (Writer p i) = False"
| "busy _ = True"

fun blocked :: "('c, 'd) system \<Rightarrow> 'c task \<Rightarrow> bool" where
  "blocked s (Fetch_Wait p i c) = (c \<notin> sent s)"
| "blocked s (Flush_Wait p i fl c) = (c \<notin> sent s)"
| "blocked s (Filling p i fl bs) = (\<exists>u. locks_read (tasks s u) i \<or> locks_write (tasks s u) i)"
| "blocked s _ = False"

lemma flush_busy: "task_flush x = Some (q, bs) \<Longrightarrow> busy x"
  by (cases x) simp_all

lemma load_busy: "task_load x = Some p \<Longrightarrow> busy x"
  by (cases x) simp_all

lemma lock_frame:
  "locks_read x i \<or> locks_write x i \<Longrightarrow> \<exists>p. task_frame x = Some (p, i) \<and> (\<forall>c. \<not> (\<exists>j. x = Fetch_Wait p j c)) \<and>
     task_load x = None"
  by (cases x) auto

text \<open>The frame of a page that is being loaded is not locked.\<close>

lemma filling_unlocked:
  assumes inv: "coherent ok content next_of s" and snd: "sound s" and t: "tasks s t = Filling p i fl bs"
  shows "\<not> locks_read (tasks s u) i \<and> \<not> locks_write (tasks s u) i"
proof (rule ccontr)
  note D = coherentD [OF inv]
  have pins: "pins_inv (pool s) (tasks s)" using snd by (simp add: sound_def)
  have p: "page_table (pool s) p = Some i" using pins_invD(3) [OF pins, of t p i] t by simp
  have "task_load (tasks s t) = Some p" using t by simp
  then have loading: "fetching s p \<noteq> None" using D(3) unfolding loads_ok_def by blast
  assume "\<not> (\<not> locks_read (tasks s u) i \<and> \<not> locks_write (tasks s u) i)"
  then obtain q where q: "task_frame (tasks s u) = Some (q, i)" "fetching s q = None"
    using D(8) [of u] by (cases "tasks s u") auto
  then have "q = p" using table_inj [OF pins_invD(1) [OF pins] _ p] pins_invD(3) [OF pins q(1)] by blast
  then show False using q(2) loading by simp
qed

text \<open>Among the tasks of an operation one is not blocked: follow who waits for whom.\<close>

lemma loader_progress:
  assumes inv: "coherent ok content next_of s" and snd: "sound s"
    and t: "task_load (tasks s t) \<noteq> None \<or> task_flush (tasks s t) \<noteq> None"
  shows "\<exists>u. busy (tasks s u) \<and> \<not> blocked s (tasks s u)"
proof -
  note D = coherentD [OF inv]
  obtain rank :: "nat \<Rightarrow> nat" where rank: "\<And>u v. waits (tasks s) u v \<Longrightarrow> rank v < rank u"
    using D(10) unfolding ordered_def by blast
  show ?thesis using t
  proof (induction "rank t" arbitrary: t rule: less_induct)
    case less
    have busy: "busy (tasks s t)"
      using less.prems load_busy flush_busy by (metis option.exhaust prod.exhaust)
    show ?case
    proof (cases "blocked s (tasks s t)")
      case False
      then show ?thesis using busy by blast
    next
      case True
      then show ?thesis
      proof (cases "tasks s t")
        case (Flush_Wait p i fl c)
        then have "flushing s p \<noteq> None" using D(8) [of t] True by auto
        then obtain u bs where u: "task_flush (tasks s u) = Some (p, bs)" using D(9) unfolding flushes_ok_def by blast
        then have "rank u < rank t" using Flush_Wait by (intro rank) (auto simp: waits_def)
        then show ?thesis using less.hyps [of u] u by simp
      next
        case (Fetch_Wait p i c)
        then show ?thesis using less.prems by simp
      next
        case (Filling p i fl bs)
        then show ?thesis using True filling_unlocked [OF inv snd Filling] by simp
      qed (use True in simp_all)
    qed
  qed
qed

lemma busy_progress:
  assumes inv: "coherent ok content next_of s" and snd: "sound s" and t: "busy (tasks s t)"
  shows "\<exists>u. busy (tasks s u) \<and> \<not> blocked s (tasks s u)"
proof (cases "blocked s (tasks s t)")
  case False
  then show ?thesis using t by blast
next
  case True
  note D = coherentD [OF inv]
  show ?thesis
  proof (cases "tasks s t")
    case (Fetch_Wait p i c)
    then have "fetching s p \<noteq> None" using D(8) [of t] True by auto
    then obtain u where "task_load (tasks s u) = Some p" using D(3) unfolding loads_ok_def by blast
    then show ?thesis using loader_progress [OF inv snd, of u] by simp
  next
    case (Flush_Wait p i fl c)
    then show ?thesis using loader_progress [OF inv snd, of t] by simp
  next
    case (Filling p i fl bs)
    then show ?thesis using loader_progress [OF inv snd, of t] by simp
  qed (use True in simp_all)
qed

context page_store
begin

lemma unblocked_steps:
  assumes good and disk: "ok (store_state s)"
    and lt: "\<And>p i. task_frame (tasks s t) = Some (p, i) \<Longrightarrow> i < length (frames (pool s))"
    and t: "busy (tasks s t)" "\<not> blocked s (tasks s t)"
  shows "\<exists>s'. step allocate get whole store next_of t s s' \<and> tasks s' t \<noteq> tasks s t"
proof -
  have go: "\<exists>s'. step allocate get whole store next_of t s s' \<and> tasks s' t \<noteq> tasks s t"
    if "step allocate get whole store next_of t s s'" "tasks s' t \<noteq> tasks s t" for s' using that by blast
  show ?thesis
  proof (cases "tasks s t")
    case (Hit_Check p i)
    show ?thesis
    proof (cases "fetching s p")
      case None
      show ?thesis by (rule go [OF step.hit_ready [OF Hit_Check None]]) (simp add: Hit_Check)
    next
      case (Some c)
      show ?thesis by (rule go [OF step.hit_wait [OF Hit_Check Some]]) (simp add: Hit_Check)
    qed
  next
    case (Fetch_Wait p i c)
    have "c \<in> sent s" using t(2) Fetch_Wait by simp
    show ?thesis by (rule go [OF step.fetch_received [OF Fetch_Wait \<open>c \<in> sent s\<close>]]) (simp add: Fetch_Wait)
  next
    case (Miss_Check p i fl)
    show ?thesis
    proof (cases "flushing s p")
      case None
      show ?thesis by (rule go [OF step.miss_ready [OF Miss_Check None]]) (simp add: Miss_Check)
    next
      case (Some c)
      show ?thesis by (rule go [OF step.miss_wait [OF Miss_Check Some]]) (simp add: Miss_Check)
    qed
  next
    case (Flush_Wait p i fl c)
    have "c \<in> sent s" using t(2) Flush_Wait by simp
    show ?thesis by (rule go [OF step.flush_received [OF Flush_Wait \<open>c \<in> sent s\<close>]]) (simp add: Flush_Wait)
  next
    case (Reading p i fl)
    obtain r bs d where g: "get p (replicate PAGE_SIZE 0) (store_state s) = (r, bs, d)" by (cases "get p (replicate PAGE_SIZE 0) (store_state s)")
    have len: "length bs = PAGE_SIZE" using read_law [OF assms(1) disk g] by simp
    show ?thesis
    proof (cases r)
      case (Inl e)
      show ?thesis by (rule go [OF step.read_failed [where get = get and whole = whole, OF Reading g [unfolded Inl]]]) (simp add: Reading)
    next
      case (Inr u)
      show ?thesis by (rule go [OF step.read [where get = get and whole = whole, OF Reading g [unfolded Inr] len]]) (simp add: Reading)
    qed
  next
    case (Filling p i fl bs)
    have "i < length (frames (pool s))" using lt Filling by simp
    then obtain c b where f: "fetch_filled p i bs (pool s) = Some (c, b)"
      by (simp add: fetch_filled_def update_frame_def)
    have "\<forall>u. \<not> locks_read (tasks s u) i \<and> \<not> locks_write (tasks s u) i" using t(2) Filling by simp
    then show ?thesis by (intro go [OF step.fill [OF Filling _ f]]) (simp_all add: Filling)
  next
    case (Writing_Back p i q bs)
    obtain r d where w: "store q bs (store_state s) = (r, d)" by (cases "store q bs (store_state s)")
    obtain r' c b where f: "fetch_flushed q r (pool s) = (r', c, b)" by (cases "fetch_flushed q r (pool s)")
    show ?thesis by (rule go [OF step.write_back [where store = store, OF Writing_Back w f]]) (simp add: Writing_Back after_write_def split: sum.split)
  next
    case (Create_Flush p i q bs)
    obtain r d where w: "store q bs (store_state s) = (r, d)" by (cases "store q bs (store_state s)")
    obtain r' c b where f: "create_page_flushed q r (pool s) = (r', c, b)" by (cases "create_page_flushed q r (pool s)")
    show ?thesis by (rule go [OF step.create_flush [where store = store, OF Create_Flush w f]]) (simp add: Create_Flush after_write_def split: sum.split)
  qed (use t in simp_all)
qed

text \<open>
  The operations never wait for one another in a circle: whenever a task is inside a fetch or a
  creation, some such task is not blocked.
\<close>

lemma run_progress:
  assumes good and "ok d" and "run allocate get whole store next_of (initial (content d) n d) s"
    and "\<not> failed s" and "busy (tasks s t)"
  shows "ok (store_state s) \<and> (\<exists>u. busy (tasks s u) \<and> \<not> blocked s (tasks s u))"
  using coherentD(1) busy_progress run_coherent [OF assms(1-4)] run_sound [OF assms(3)] assms(5) by metis

end

section \<open>Examples\<close>

text \<open>Task 0 has claimed a frame to fetch page 0.\<close>

lemma example_fetching:
  "\<exists>s i fl. memory_run example_start s \<and> tasks s 0 = Miss_Check (example_page 0) i fl \<and> \<not> failed s \<and>
     flushing s (example_page 0) = None"
proof -
  let ?p = "example_page 0"
  let ?b = "buffer_pool_new 2 :: nat buffer_pool"
  have b: "page_table ?b ?p = None" "free_frames ?b = [0..<2]" by (simp_all add: buffer_pool_new_def)
  obtain r c where out: "fetch_claim 5 6 ?p ?b = Some (r, c)" "case r of Hit _ \<Rightarrow> False | Full \<Rightarrow> False | Miss _ _ \<Rightarrow> True"
    using fetch_claim_miss [OF pool_new_ok b(1), of 5 6] b(2) by (fastforce split: claim.splits)
  then obtain i fl where run: "fetch_claim 5 6 ?p ?b = Some (Miss i fl, c)" by (cases r) simp_all
  have "page_entered 5 ?b ?p i fl ((frames ?b ! i)\<lparr>frame_dirty := False, frame_page_id := Some ?p, frame_pin_count := 1\<rparr>) c"
    using fetch_claim_miss [OF pool_new_ok b(1), of 5 6] run by auto
  with pool_new_ok b(1) have flushes: "flushes (page_io_processing c) ?p = None"
    by (cases rule: entered_cases) (use b(2) in \<open>simp_all add: buffer_pool_new_def page_processing_map_new_def\<close>)
  let ?s = "example_start\<lparr>pool := c, tasks := (tasks example_start)(0 := Miss_Check ?p i fl),
    used := insert 5 (insert 6 (used example_start))\<rparr>"
  have "known (disk_next mem_files) example_start ?p"
    by (simp add: known_def page_allocated_def example_start_fields example_page_def example_store_next)
  then have "memory_step 0 example_start ?s"
    by (intro step.miss) (use run in \<open>simp_all add: example_start_fields\<close>)
  then have "memory_run example_start ?s" by (rule run.continue [OF run.start])
  then show ?thesis by (intro exI [of _ ?s] exI [of _ i] exI [of _ fl]) (simp add: example_start_fields flushes)
qed

text \<open>It sees that nobody flushes the page, and begins to read it.\<close>

lemma example_reading:
  "\<exists>s i fl. memory_run example_start s \<and> tasks s 0 = Reading (example_page 0) i fl \<and> \<not> failed s"
proof -
  obtain s i fl where s: "memory_run example_start s" "tasks s 0 = Miss_Check (example_page 0) i fl" "\<not> failed s"
    "flushing s (example_page 0) = None"
    using example_fetching by blast
  let ?s = "s\<lparr>tasks := (tasks s)(0 := Reading (example_page 0) i fl)\<rparr>"
  have "memory_step 0 s ?s" by (rule step.miss_ready [OF s(2,4)])
  then have "memory_run example_start ?s" by (rule run.continue [OF s(1)])
  then show ?thesis using s(3) by (intro exI [of _ ?s] exI [of _ i] exI [of _ fl]) simp
qed

end
