(* ===== verification/Pool_Drops.thy ===== *)
theory Pool_Drops
  imports Pool_Coherence
begin

text \<open>
  The system of \<open>Pool_System\<close> with the two halves of an unpin as steps of their own: \<open>page_guard.rs\<close>
  and \<open>unpin_frame\<close> first decrement the pin count of the frame and then, when it was 1, give the frame
  to the evictor, and nothing keeps another task from running in between. A drop that is not
  interrupted is still one step.

  The race is a fetch that finds its page in a frame whose drop is half done: it can happen in every
  state with a sole guard on a frame (\<open>drop_race_reachable\<close>). A run that has no such fetch refines a
  run of \<open>Pool_System\<close>: the refinement mapping shows every drop as not
  begun until it is finished. What holds there then holds here.
\<close>

section \<open>Definitions\<close>

text \<open>
  \<open>dropping t\<close> is the frame that task \<open>t\<close> has unpinned and not yet given to the evictor; until then
  its guard still holds the lock of the frame, as the fields of a guard are dropped after its \<open>drop\<close>
  has run. \<open>raced\<close> records whether the race has happened.
\<close>

record ('c, 'd) dropping_system =
  base :: "('c, 'd) system"
  dropping :: "nat \<Rightarrow> usize option"
  raced :: bool

definition pending :: "('c, 'd) dropping_system \<Rightarrow> usize set" where
  "pending f = {i. \<exists>t. dropping f t = Some i}"

text \<open>The frame a task unpins when it drops its guard, or when the channel it waits on is closed.\<close>

fun gives_up :: "'c task \<Rightarrow> usize option" where
  "gives_up (Reader p i) = Some i"
| "gives_up (Writer p i) = Some i"
| "gives_up (Fetch_Wait p i c) = Some i"
| "gives_up _ = None"

inductive drop_step ::
  "(u32 \<Rightarrow> 'd \<Rightarrow> ((io_error, page_id) rust_result \<times> 'd) option) \<Rightarrow>
   (page_id \<Rightarrow> bytes \<Rightarrow> 'd \<Rightarrow> (io_error, unit) rust_result \<times> bytes \<times> 'd) \<Rightarrow>
   (page_id \<Rightarrow> 'd \<Rightarrow> bool) \<Rightarrow>
   (page_id \<Rightarrow> bytes \<Rightarrow> 'd \<Rightarrow> (io_error, unit) rust_result \<times> 'd) \<Rightarrow>
   ('d \<Rightarrow> u32 \<Rightarrow> nat) \<Rightarrow> nat \<Rightarrow> ('c, 'd) dropping_system \<Rightarrow> ('c, 'd) dropping_system \<Rightarrow> bool"
  for allocate get whole store next_of t where
  act: "dropping f t = None \<Longrightarrow> step allocate get whole store next_of t (base f) s \<Longrightarrow>
    drop_step allocate get whole store next_of t f
      (f\<lparr>base := s, raced := raced f \<or>
        (\<exists>p i. tasks (base f) t = Idle \<and> tasks s t = Hit_Check p i \<and> i \<in> pending f)\<rparr>)"
| decrement: "dropping f t = None \<Longrightarrow> gives_up (tasks (base f) t) = Some i \<Longrightarrow>
    \<forall>p c. tasks (base f) t = Fetch_Wait p i c \<longrightarrow> channel_closed (base f) c \<Longrightarrow>
    index (frames (pool (base f))) i = Some fr \<Longrightarrow> decrement_pin_count fr = Some (1, fr') \<Longrightarrow>
    drop_step allocate get whole store next_of t f
      (f\<lparr>base := (base f)\<lparr>pool := (pool (base f))\<lparr>frames := (frames (pool (base f)))[i := fr']\<rparr>\<rparr>,
         dropping := (dropping f)(t := Some i)\<rparr>)"
| report: "dropping f t = Some i \<Longrightarrow> evictor_add (bpm_evictor (pool (base f))) i = Some ev \<Longrightarrow>
    drop_step allocate get whole store next_of t f
      (f\<lparr>base := (base f)\<lparr>pool := (pool (base f))\<lparr>bpm_evictor := ev\<rparr>, tasks := (tasks (base f))(t := Idle)\<rparr>,
         dropping := (dropping f)(t := None)\<rparr>)"

definition drop_initial :: "(page_id \<Rightarrow> bytes) \<Rightarrow> usize \<Rightarrow> 'd \<Rightarrow> ('c, 'd) dropping_system" where
  "drop_initial content n d = \<lparr>base = initial content n d, dropping = \<lambda>_. None, raced = False\<rparr>"

inductive drop_run ::
  "(u32 \<Rightarrow> 'd \<Rightarrow> ((io_error, page_id) rust_result \<times> 'd) option) \<Rightarrow>
   (page_id \<Rightarrow> bytes \<Rightarrow> 'd \<Rightarrow> (io_error, unit) rust_result \<times> bytes \<times> 'd) \<Rightarrow>
   (page_id \<Rightarrow> 'd \<Rightarrow> bool) \<Rightarrow>
   (page_id \<Rightarrow> bytes \<Rightarrow> 'd \<Rightarrow> (io_error, unit) rust_result \<times> 'd) \<Rightarrow>
   ('d \<Rightarrow> u32 \<Rightarrow> nat) \<Rightarrow> ('c, 'd) dropping_system \<Rightarrow> ('c, 'd) dropping_system \<Rightarrow> bool"
  for allocate get whole store next_of f where
  start: "drop_run allocate get whole store next_of f f"
| continue: "drop_run allocate get whole store next_of f f' \<Longrightarrow> drop_step allocate get whole store next_of t f' f'' \<Longrightarrow>
    drop_run allocate get whole store next_of f f''"

text \<open>The refinement mapping: the frames that are being dropped are still pinned.\<close>

definition raise :: "usize set \<Rightarrow> 'c buffer_pool \<Rightarrow> 'c buffer_pool" where
  "raise P b = b\<lparr>frames := map (\<lambda>i. if i \<in> P
     then (frames b ! i)\<lparr>frame_pin_count := frame_pin_count (frames b ! i) + 1\<rparr> else frames b ! i)
     [0..<length (frames b)]\<rparr>"

definition not_begun :: "('c, 'd) dropping_system \<Rightarrow> ('c, 'd) system" where
  "not_begun f = (base f)\<lparr>pool := raise (pending f) (pool (base f))\<rparr>"

section \<open>Sections of the pool do not see frames that are being dropped\<close>

lemma raise_fields [simp]:
  "length (frames (raise P b)) = length (frames b)" "free_frames (raise P b) = free_frames b"
  "bpm_evictor (raise P b) = bpm_evictor b" "page_table (raise P b) = page_table b"
  "page_io_processing (raise P b) = page_io_processing b"
  by (simp_all add: raise_def)

lemma raise_nth:
  "i < length (frames b) \<Longrightarrow> frames (raise P b) ! i =
    (if i \<in> P then (frames b ! i)\<lparr>frame_pin_count := frame_pin_count (frames b ! i) + 1\<rparr> else frames b ! i)"
  by (simp add: raise_def)

lemma raise_index [simp]: "i \<notin> P \<Longrightarrow> index (frames (raise P b)) i = index (frames b) i"
  by (cases "i < length (frames b)") (simp_all add: raise_nth)

lemma raise_frames:
  "i \<notin> P \<Longrightarrow> (raise P b)\<lparr>frames := (frames (raise P b))[i := f]\<rparr> = raise P (b\<lparr>frames := (frames b)[i := f]\<rparr>)"
proof -
  assume "i \<notin> P"
  then have "(frames (raise P b))[i := f] = frames (raise P (b\<lparr>frames := (frames b)[i := f]\<rparr>))"
  proof (intro nth_equalityI)
    fix j assume "j < length ((frames (raise P b))[i := f])"
    then show "(frames (raise P b))[i := f] ! j = frames (raise P (b\<lparr>frames := (frames b)[i := f]\<rparr>)) ! j"
      using \<open>i \<notin> P\<close> by (cases "j = i") (auto simp: raise_nth)
  qed simp
  then show ?thesis by (simp add: raise_def)
qed

lemma raise_commutes [simp]:
  "(raise P b)\<lparr>free_frames := l\<rparr> = raise P (b\<lparr>free_frames := l\<rparr>)"
  "(raise P b)\<lparr>bpm_evictor := e\<rparr> = raise P (b\<lparr>bpm_evictor := e\<rparr>)"
  "(raise P b)\<lparr>page_table := m\<rparr> = raise P (b\<lparr>page_table := m\<rparr>)"
  "set_fetch p c (raise P b) = raise P (set_fetch p c b)" "set_flush p c (raise P b) = raise P (set_flush p c b)"
  by (simp_all add: raise_def set_fetch_def set_flush_def)

text \<open>\<open>carried P b b'\<close>: a section that takes \<open>b\<close> to \<open>b'\<close> leaves the frames of \<open>P\<close> as they are.\<close>

definition carried :: "usize set \<Rightarrow> 'c buffer_pool \<Rightarrow> 'c buffer_pool \<Rightarrow> bool" where
  "carried P b b' \<longleftrightarrow> length (frames b') = length (frames b) \<and> (\<forall>i \<in> P. frames b' ! i = frames b ! i)"

lemma carried_trans: "carried P b c \<Longrightarrow> carried P c d \<Longrightarrow> carried P b d"
  by (simp add: carried_def)

lemma carried_same [simp]: "frames b' = frames b \<Longrightarrow> carried P b b'"
  by (simp add: carried_def)

lemma carried_update: "i \<notin> P \<Longrightarrow> frames b' = (frames b)[i := f] \<Longrightarrow> carried P b b'"
  by (auto simp: carried_def intro!: nth_list_update_neq)

lemma pin_frame_raise:
  assumes "i \<notin> P" and "pin_frame i b = Some b'"
  shows "pin_frame i (raise P b) = Some (raise P b') \<and> carried P b b'"
  using assms by (auto simp: pin_frame_def Let_def raise_frames carried_update split: Option.bind_splits prod.splits if_splits)

lemma unpin_frame_raise:
  assumes "i \<notin> P" and "unpin_frame i b = Some b'"
  shows "unpin_frame i (raise P b) = Some (raise P b') \<and> carried P b b'"
  using assms by (auto simp: unpin_frame_def Let_def raise_frames carried_update split: Option.bind_splits prod.splits if_splits)

lemma update_frame_raise:
  assumes "i \<notin> P" and "update_frame i g b = Some b'"
  shows "update_frame i g (raise P b) = Some (raise P b') \<and> carried P b b'"
  using assms by (auto simp: update_frame_def raise_frames carried_update split: Option.bind_splits)

lemma announce_flush_raise:
  assumes "i \<notin> P" and "announce_flush tx i data b = Some b'"
  shows "announce_flush tx i data (raise P b) = Some (raise P b') \<and> carried P b b'"
  using assms by (auto simp: announce_flush_def carried_same split: Option.bind_splits prod.splits if_splits)

lemma evict_page_raise:
  assumes clock: "clock_ok (bpm_evictor b)" and out: "P \<inter> evictable (bpm_evictor b) = {}"
    and run: "evict_page b = Some (r, b')"
  shows "evict_page (raise P b) = Some (r, raise P b') \<and> carried P b b' \<and>
    (\<forall>i data. r = Ok (i, data) \<longrightarrow> i \<notin> P)"
proof -
  obtain v ev where v: "evictor_victim (bpm_evictor b) = Some (v, ev)"
    and mem: "\<And>i. v = Some i \<Longrightarrow> i \<in> evictable (bpm_evictor b)"
    using clock_victim_ok [OF clock] by (auto split: option.splits)
  show ?thesis
  proof (cases v)
    case None
    then show ?thesis using run v by (auto simp: evict_page_def carried_same)
  next
    case (Some i)
    then have "i \<notin> P" using mem out by blast
    then show ?thesis using run v Some
      by (auto simp: evict_page_def Let_def carried_same split: Option.bind_splits if_splits)
  qed
qed

lemma find_frame_raise:
  assumes clock: "clock_ok (bpm_evictor b)" and out: "P \<inter> evictable (bpm_evictor b) = {}"
    "P \<inter> set (free_frames b) = {}"
    and run: "find_frame tx b = Some (r, b')"
  shows "find_frame tx (raise P b) = Some (r, raise P b') \<and> carried P b b' \<and>
    (\<forall>i data. r = Some (i, data) \<longrightarrow> i \<notin> P)"
proof (cases "free_frames b = []")
  case False
  then have "last (free_frames b) \<notin> P" using out(2) last_in_set by blast
  then show ?thesis using run False by (auto simp: find_frame_def vec_pop_def carried_same)
next
  case True
  then obtain e c where e: "evict_page b = Some (e, c)"
    using run by (auto simp: find_frame_def vec_pop_def split: Option.bind_splits)
  note ev = evict_page_raise [OF clock out(1) e]
  show ?thesis
  proof (cases e)
    case (Inl x)
    then show ?thesis using run True e ev by (auto simp: find_frame_def vec_pop_def)
  next
    case (Inr w)
    then obtain i data where w: "e = Ok (i, data)" by (cases w) simp
    then obtain d where d: "announce_flush tx i data c = Some d" "r = Some (i, data)" "b' = d"
      using run True e by (auto simp: find_frame_def vec_pop_def split: Option.bind_splits)
    have "i \<notin> P" using ev w by blast
    from announce_flush_raise [OF this d(1)] show ?thesis
      using ev w d True \<open>i \<notin> P\<close> by (auto simp: find_frame_def vec_pop_def intro: carried_trans)
  qed
qed

lemma fetch_claim_raise:
  assumes clock: "clock_ok (bpm_evictor b)" and out: "P \<inter> evictable (bpm_evictor b) = {}"
    "P \<inter> set (free_frames b) = {}" and hit: "\<And>i. page_table b p = Some i \<Longrightarrow> i \<notin> P"
    and run: "fetch_claim tx tx' p b = Some (r, b')"
  shows "fetch_claim tx tx' p (raise P b) = Some (r, raise P b') \<and> carried P b b'"
proof (cases "page_table b p")
  case (Some i)
  then obtain c where c: "pin_frame i b = Some c" "r = Hit i" "b' = c"
    using run by (auto simp: fetch_claim_def split: Option.bind_splits)
  then show ?thesis using pin_frame_raise [OF hit [OF Some] c(1)] Some by (simp add: fetch_claim_def)
next
  case None
  then obtain a c where a: "find_frame tx b = Some (a, c)"
    using run by (auto simp: fetch_claim_def split: Option.bind_splits)
  note ff = find_frame_raise [OF clock out a]
  show ?thesis
  proof (cases a)
    case no_frame: None
    then show ?thesis using run None a ff by (auto simp: fetch_claim_def)
  next
    case (Some w)
    then obtain i data where w: "a = Some (i, data)" by (cases w) simp
    then have i: "i \<notin> P" using ff by blast
    obtain d e where d: "update_frame i (\<lambda>f. set_dirty False (set_page_id (Some p) f))
        (c\<lparr>page_table := (page_table c)(p \<mapsto> i)\<rparr>) = Some d"
      and e: "pin_frame i d = Some e" "r = Miss i data" "b' = set_fetch p (Some tx') e"
      using run None a w by (auto simp: fetch_claim_def split: Option.bind_splits)
    have "carried P b c" "carried P c d" "carried P d e"
      using ff update_frame_raise [OF i d] pin_frame_raise [OF i e(1)] by (simp_all add: carried_def)
    then have "carried P b e" by (blast intro: carried_trans)
    then show ?thesis using None w e ff update_frame_raise [OF i d] pin_frame_raise [OF i e(1)]
      by (simp add: fetch_claim_def carried_def)
  qed
qed

lemma create_claim_raise:
  assumes clock: "clock_ok (bpm_evictor b)" and out: "P \<inter> evictable (bpm_evictor b) = {}"
    "P \<inter> set (free_frames b) = {}" and run: "create_page_claim tx p b = Some (i, data, b')"
  shows "create_page_claim tx p (raise P b) = Some (i, data, raise P b') \<and> carried P b b'"
proof -
  define take where "take c = (case vec_pop (free_frames c) of
      (Some i, free) \<Rightarrow> do { c \<leftarrow> pin_frame i (c\<lparr>free_frames := free\<rparr>); Some (i, None, c) }
    | (None, _) \<Rightarrow> do {
        (r, c) \<leftarrow> evict_page c;
        (i, page_data) \<leftarrow> unwrap r;
        c \<leftarrow> pin_frame i c;
        c \<leftarrow> announce_flush tx i page_data c;
        Some (i, page_data, c)
      })" for c :: "'a buffer_pool"
  have claim: "create_page_claim tx p c = do {
      (i, page_data, c) \<leftarrow> take c;
      c \<leftarrow> update_frame i (set_page_id (Some p)) c;
      Some (i, page_data, c\<lparr>page_table := (page_table c)(p \<mapsto> i)\<rparr>)
    }" for c unfolding create_page_claim_def take_def by simp
  obtain c d where c: "take b = Some (i, data, c)" and d: "update_frame i (set_page_id (Some p)) c = Some d"
      "b' = d\<lparr>page_table := (page_table d)(p \<mapsto> i)\<rparr>"
    using run unfolding claim by (auto split: Option.bind_splits)
  have took: "take (raise P b) = Some (i, data, raise P c) \<and> carried P b c \<and> i \<notin> P"
  proof (cases "free_frames b = []")
    case False
    then have "last (free_frames b) \<notin> P" using out(2) last_in_set by blast
    then show ?thesis using c False pin_frame_raise [of "last (free_frames b)" P]
      by (auto simp: take_def vec_pop_def carried_def split: Option.bind_splits)
  next
    case True
    then obtain r e g where e: "evict_page b = Some (r, e)" "unwrap r = Some (i, data)"
        "pin_frame i e = Some g" "announce_flush tx i data g = Some c"
      using c by (auto simp: take_def vec_pop_def split: Option.bind_splits)
    have r: "r = Ok (i, data)" using e(2) by (cases r) (simp_all add: unwrap_def)
    note ev = evict_page_raise [OF clock out(1) e(1)]
    then have i: "i \<notin> P" using r by blast
    note g = pin_frame_raise [OF i e(3)] announce_flush_raise [OF i e(4)]
    have "carried P b c" using ev g by (blast intro: carried_trans)
    then show ?thesis using True ev g e i by (simp add: take_def vec_pop_def)
  qed
  then show ?thesis unfolding claim using update_frame_raise [of i P "set_page_id (Some p)", OF _ d(1)] d(2)
    by (auto simp: carried_def)
qed

lemma fetch_filled_raise:
  assumes "i \<notin> P" and "fetch_filled p i bs b = Some (c, b')"
  shows "fetch_filled p i bs (raise P b) = Some (c, raise P b') \<and> carried P b b'"
  using assms update_frame_raise [of i P "write_data bs" b]
  by (auto simp: fetch_filled_def carried_def split: Option.bind_splits)

lemma flushed_raise:
  "fetch_flushed q r b = (r', c, b') \<Longrightarrow> fetch_flushed q r (raise P b) = (r', c, raise P b') \<and> carried P b b'"
  "create_page_flushed q r b = (r', c, b') \<Longrightarrow>
    create_page_flushed q r (raise P b) = (r', c, raise P b') \<and> carried P b b'"
  by (auto simp: fetch_flushed_def create_page_flushed_def finish_flush_def carried_same split: sum.splits)

section \<open>Closed channels\<close>

text \<open>A channel that is closed stays closed: nobody sends on it, and new channels are fresh.\<close>

lemma closed_mono:
  assumes "channel_closed s c" and "used s \<subseteq> used s'" and "c \<in> sent s' \<Longrightarrow> c \<in> sent s"
    and "\<And>q. fetching s' q = Some c \<Longrightarrow> \<exists>r. fetching s r = Some c"
    and "\<And>q. flushing s' q = Some c \<Longrightarrow> \<exists>r. flushing s r = Some c"
  shows "channel_closed s' c"
  using assms unfolding channel_closed_def by blast

lemma closed_cong:
  assumes "page_io_processing (pool s') = page_io_processing (pool s)" and "used s' = used s" and "sent s' = sent s"
  shows "channel_closed s' c = channel_closed s c"
  using assms by (simp add: channel_closed_def)

lemma flushed_maps:
  assumes "fetch_flushed q r b = (r', c, b') \<or> create_page_flushed q r b = (r', c, b')"
  shows "(c = flushes (page_io_processing b) q \<and>
      flushes (page_io_processing b') = (flushes (page_io_processing b))(q := None)) \<or> (c = None \<and> b' = b)"
  using assms by (auto simp: fetch_flushed_def create_page_flushed_def finish_flush_def split: sum.splits)

lemma step_closed:
  assumes run: "step allocate get whole store next_of t s s'" and snd: "sound s" and closed: "channel_closed s c"
  shows "channel_closed s' c"
proof -
  have pins: "pins_inv (pool s) (tasks s)" and buf: "buffers_ok (tasks s)" using snd by (simp_all add: sound_def)
  note ok = pins_invD(1) [OF pins]
  have C: "c \<in> used s" "fetching s q \<noteq> Some c" "flushing s q \<noteq> Some c" for q
    using closed by (simp_all add: channel_closed_def)
  note keep = closed_cong [of s' s c, THEN iffD2, OF _ _ _ closed] and grow = closed_mono [OF closed]
  have flush: "channel_closed s' c" if out: "fetch_flushed q r (pool s) = (r', e, pool s') \<or>
      create_page_flushed q r (pool s) = (r', e, pool s')" and "used s' = used s" "sent s' = set_option e \<union> sent s" for q r r' e
    using flushed_maps [OF out] flushed_fields(5) [OF out] that(2,3) C by (intro grow) (auto split: if_splits)
  from run show ?thesis
  proof cases
    case (hit p tx tx' i b)
    then show ?thesis using pins_hit(4) [OF pins hit(2,4,5)] by (intro keep) simp_all
  next
    case (full p tx tx' b)
    then show ?thesis using full_fields(5) [OF pins full(4)] by (intro keep) simp_all
  next
    case (miss p tx tx' i fl b)
    note m = miss_entered [OF pins miss(7)]
    obtain q where "takeover tx (pool s) p i fl q b" using entered_takeover [OF ok m(1,3)] by blast
    then show ?thesis using takeover_flushing(1) [of tx "pool s" p i fl q b] m(2) miss C
      by (intro grow) (auto split: if_splits)
  next
    case (fetch_closed p i c' b)
    have "task_frame (tasks s t) = Some (p, i)" using fetch_closed by simp
    then show ?thesis using pins_release(4) [OF pins _ fetch_closed(4), of t p Idle] fetch_closed by (intro keep) simp_all
  next
    case (fill p i fl bs e b)
    have "length bs = PAGE_SIZE" using buf fill(2) by (auto simp: buffers_ok_def)
    then have "e = fetching s p" "flushing s' = flushing s" "fetching s' = (fetching s)(p := None)"
      using pins_filled(2,5,6) [OF pins _ _ _ fill(4), of t "after_fill p i fl"] fill(1,2) by simp_all
    then show ?thesis using fill(1) C by (intro grow) (auto split: if_splits)
  next
    case (write_back p i q bs r d r' e b)
    then show ?thesis by (intro flush [of q r r' e]) simp_all
  next
    case (claim p tx i fl b)
    note m = claim_entered [OF pins claim(3,5)]
    obtain q where "takeover tx (pool s) p i fl q b" using entered_takeover [OF ok claim(3) m(2)] by blast
    then show ?thesis using takeover_flushing(1) [of tx "pool s" p i fl q b] m(1) claim C
      by (intro grow) (auto split: if_splits)
  next
    case (create_flush p i q bs r d r' e b)
    then show ?thesis by (intro flush [of q r r' e]) simp_all
  next
    case (store_guard p i bs b)
    then show ?thesis using pins_stored(4) [OF pins _ store_guard(3,4), of t p] by (intro keep) simp_all
  next
    case (drop_read p i b)
    then show ?thesis using pins_release(4) [OF pins, of t p i b Idle] guard_unpins [OF pins, of t p i b]
      by (intro keep) simp_all
  next
    case (drop_write p i b)
    then show ?thesis using pins_release(4) [OF pins, of t p i b Idle] guard_unpins [OF pins, of t p i b]
      by (intro keep) simp_all
  qed (rule keep; simp)+
qed

section \<open>The refinement\<close>

text \<open>
  A frame that is being dropped is unpinned, but not for the refinement mapping, where the task that
  drops it is the only one that holds it.
\<close>

definition drops_ok :: "('c, 'd) dropping_system \<Rightarrow> bool" where
  "drops_ok f \<longleftrightarrow> sound (not_begun f) \<and>
     (\<forall>t i. dropping f t = Some i \<longrightarrow> gives_up (tasks (base f) t) = Some i \<and>
        frame_pin_count (frames (pool (base f)) ! i) = 0) \<and>
     (\<forall>t i p c. dropping f t = Some i \<longrightarrow> tasks (base f) t = Fetch_Wait p i c \<longrightarrow> channel_closed (base f) c) \<and>
     (\<forall>t u i. dropping f t = Some i \<longrightarrow> dropping f u = Some i \<longrightarrow> t = u)"

lemma drops_okD:
  assumes "drops_ok f"
  shows "sound (not_begun f)" and "pins_inv (raise (pending f) (pool (base f))) (tasks (base f))"
    and "dropping f t = Some i \<Longrightarrow> gives_up (tasks (base f) t) = Some i"
    and "i \<in> pending f \<Longrightarrow> frame_pin_count (frames (pool (base f)) ! i) = 0"
    and "dropping f t = Some i \<Longrightarrow> dropping f u = Some i \<Longrightarrow> t = u"
    and "dropping f t = Some i \<Longrightarrow> tasks (base f) t = Fetch_Wait p i c \<Longrightarrow> channel_closed (base f) c"
  using assms by (auto simp: drops_ok_def sound_def not_begun_def pending_def)

lemma drops_okI:
  assumes "sound (not_begun f)"
    and "\<And>t i. dropping f t = Some i \<Longrightarrow> gives_up (tasks (base f) t) = Some i"
    and "\<And>t i. dropping f t = Some i \<Longrightarrow> frame_pin_count (frames (pool (base f)) ! i) = 0"
    and "\<And>t i p c. dropping f t = Some i \<Longrightarrow> tasks (base f) t = Fetch_Wait p i c \<Longrightarrow> channel_closed (base f) c"
    and "\<And>t u i. dropping f t = Some i \<Longrightarrow> dropping f u = Some i \<Longrightarrow> t = u"
  shows "drops_ok f"
  using assms unfolding drops_ok_def by blast

lemma not_begun_fields [simp]:
  "tasks (not_begun f) = tasks (base f)" "pool (not_begun f) = raise (pending f) (pool (base f))"
  "store_state (not_begun f) = store_state (base f)" "used (not_begun f) = used (base f)"
  "sent (not_begun f) = sent (base f)" "expected (not_begun f) = expected (base f)"
  "suspect (not_begun f) = suspect (base f)" "failed (not_begun f) = failed (base f)"
  by (simp_all add: not_begun_def)

lemma closed_not_begun [simp]: "channel_closed (not_begun f) c = channel_closed (base f) c"
  by (rule closed_cong) simp_all

lemma gives_up_frame: "gives_up x = Some i \<Longrightarrow> \<exists>p. task_frame x = Some (p, i)"
  by (cases x) auto

lemma pending_frame:
  assumes inv: "drops_ok f" and i: "i \<in> pending f"
  shows "i < length (frames (pool (base f)))" and "frame_pin_count (frames (raise (pending f) (pool (base f))) ! i) = 1"
    and "i \<notin> evictable (bpm_evictor (pool (base f)))" and "i \<notin> set (free_frames (pool (base f)))"
proof -
  note D = drops_okD [OF inv]
  obtain t p where "task_frame (tasks (base f) t) = Some (p, i)"
    using i D(3) gives_up_frame unfolding pending_def by blast
  then have "page_table (pool (base f)) p = Some i" using pins_invD(3) [OF D(2)] by fastforce
  then have tab: "page_table (raise (pending f) (pool (base f))) p = Some i" by simp
  note wf = pool_exceptD [OF pins_invD(1) [OF D(2), unfolded pool_ok_def]]
  show len: "i < length (frames (pool (base f)))" and free: "i \<notin> set (free_frames (pool (base f)))"
    using wf(6) [OF tab] by simp_all
  show pin: "frame_pin_count (frames (raise (pending f) (pool (base f))) ! i) = 1"
    using len i D(4) [OF i] by (simp add: raise_nth)
  show "i \<notin> evictable (bpm_evictor (pool (base f)))"
    using wf(5) [of i] len free pin by (simp add: frame_ok_def Let_def)
qed

lemma pending_sole:
  assumes inv: "drops_ok f" and t: "dropping f t = Some i" and u: "task_frame (tasks (base f) u) = Some (p, i)"
  shows "u = t"
proof -
  note D = drops_okD [OF inv]
  have i: "i \<in> pending f" using t by (auto simp: pending_def)
  have "card (holders (tasks (base f)) i) \<le> 1"
    using pins_invD(4) [OF D(2), of i] pending_frame(1,2) [OF inv i] by simp
  moreover have "t \<in> holders (tasks (base f)) i" "u \<in> holders (tasks (base f)) i"
    using u gives_up_frame [OF D(3) [OF t]] by (auto simp: holders_def)
  ultimately show ?thesis using finite_holders [OF D(2)] card_le_Suc0_iff_eq by auto
qed

lemma held_not_pending:
  "drops_ok f \<Longrightarrow> dropping f t = None \<Longrightarrow> task_frame (tasks (base f) t) = Some (p, i) \<Longrightarrow> i \<notin> pending f"
  using pending_sole by (fastforce simp: pending_def)

lemma step_others: "step allocate get whole store next_of t s s' \<Longrightarrow> u \<noteq> t \<Longrightarrow> tasks s' u = tasks s u"
  by (cases rule: step.cases) auto

lemma step_to: "step allocate get whole store next_of t s s1 \<Longrightarrow> s1 = s2 \<Longrightarrow> step allocate get whole store next_of t s s2"
  by simp

lemma closed_raise [simp]: "channel_closed (s\<lparr>pool := raise P (pool s)\<rparr>) c = channel_closed s c"
  by (rule closed_cong) simp_all

lemma known_pool [simp]: "known next_of (s\<lparr>pool := b\<rparr>) p = known next_of s p"
  by (simp add: known_def)

text \<open>A step of a task that is not dropping is a step of the system in which no drop has begun.\<close>

lemma act_simulated:
  fixes f :: "('c, 'd) dropping_system"
  assumes inv: "drops_ok f" and idle: "dropping f t = None" and run: "step allocate get whole store next_of t (base f) s"
    and calm: "\<And>p i. tasks (base f) t = Idle \<Longrightarrow> tasks s t = Hit_Check p i \<Longrightarrow> i \<notin> pending f"
  shows "step allocate get whole store next_of t (not_begun f) (s\<lparr>pool := raise (pending f) (pool s)\<rparr>) \<and>
    carried (pending f) (pool (base f)) (pool s)"
proof -
  let ?P = "pending f" and ?s = "base f"
  note D = drops_okD [OF inv]
  have clock: "clock_ok (bpm_evictor (pool ?s))"
    using pool_exceptD(1) [OF pins_invD(1) [OF D(2), unfolded pool_ok_def]] by simp
  have out: "?P \<inter> evictable (bpm_evictor (pool ?s)) = {}" "?P \<inter> set (free_frames (pool ?s)) = {}"
    using pending_frame(3,4) [OF inv] by blast+
  note fetch = fetch_claim_raise [OF clock out] and held = held_not_pending [OF inv idle]
  have release: "release_read i (raise ?P (pool ?s)) = Some (raise ?P b) \<and>
      release_write i (raise ?P (pool ?s)) = Some (raise ?P b) \<and> carried ?P (pool ?s) b"
    if g: "task_frame (tasks ?s t) = Some (p, i)" and r: "release_read i (pool ?s) = Some b \<or> release_write i (pool ?s) = Some b"
    for p i b
  proof -
    have i: "i < length (frames (raise ?P (pool ?s)))" using holder_pinned [OF D(2) g] by simp
    have same: "frames (raise ?P (pool ?s)) ! i = frames (pool ?s) ! i" using held [OF g] i by (simp add: raise_nth)
    have "frame_id (frames (pool ?s) ! i) = i"
      using pool_exceptD(5) [OF pins_invD(1) [OF D(2), unfolded pool_ok_def] i] same by (simp add: frame_ok_def Let_def)
    then show ?thesis using release_eq [of i "pool ?s"] release_unpin [OF pins_invD(1) [OF D(2)] i]
        unpin_frame_raise [OF held [OF g], of "pool ?s" b] r i by auto
  qed
  have "step allocate get whole store next_of t (?s\<lparr>pool := raise ?P (pool ?s)\<rparr>) (s\<lparr>pool := raise ?P (pool s)\<rparr>) \<and>
    carried ?P (pool ?s) (pool s)"
    using run
  proof cases
    case (hit p tx tx' i b)
    have "page_table (pool ?s) p = Some j \<Longrightarrow> j \<notin> ?P" for j
      using calm [of p i] hit by (auto simp: fetch_claim_def split: Option.bind_splits)
    note c = fetch [OF this hit(5)]
    have "pins_bounded (raise ?P (pool ?s))"
      using hit(4) D(4) unfolding pins_bounded_def by (auto simp: raise_def)
    then show ?thesis using c hit by (auto intro!: step_to [OF step.hit])
  next
    case (full p tx tx' b)
    have "page_table (pool ?s) p = None"
      using full by (cases "page_table (pool ?s) p") (auto simp: fetch_claim_def split: Option.bind_splits)
    then have "page_table (pool ?s) p = Some j \<Longrightarrow> j \<notin> ?P" for j by simp
    note c = fetch [OF this full(4)]
    show ?thesis using c full by (auto intro!: step_to [OF step.full])
  next
    case (miss p tx tx' i fl b)
    have "page_table (pool ?s) p = None"
      using miss by (cases "page_table (pool ?s) p") (auto simp: fetch_claim_def split: Option.bind_splits)
    then have "page_table (pool ?s) p = Some j \<Longrightarrow> j \<notin> ?P" for j by simp
    note c = fetch [OF this miss(7)]
    show ?thesis using c miss by (auto intro!: step_to [OF step.miss [where tx = tx and tx' = tx']])
  next
    case (hit_ready p i)
    then show ?thesis by (auto intro!: step_to [OF step.hit_ready])
  next
    case (hit_wait p i c)
    then show ?thesis by (auto intro!: step_to [OF step.hit_wait])
  next
    case (fetch_received p i c)
    then show ?thesis by (auto intro!: step_to [OF step.fetch_received])
  next
    case (fetch_closed p i c b)
    have "i \<notin> ?P" using held [of p i] fetch_closed by simp
    then show ?thesis using unpin_frame_raise [of i ?P "pool ?s" b] fetch_closed
      by (auto intro!: step_to [OF step.fetch_closed])
  next
    case (miss_ready p i fl)
    then show ?thesis by (auto intro!: step_to [OF step.miss_ready])
  next
    case (miss_wait p i fl c)
    then show ?thesis by (auto intro!: step_to [OF step.miss_wait])
  next
    case (flush_received p i fl c)
    then show ?thesis by (auto intro!: step_to [OF step.flush_received])
  next
    case (flush_closed p i fl c)
    then show ?thesis by (auto intro!: step_to [OF step.flush_closed])
  next
    case (read p i fl u bs d)
    then show ?thesis by (auto intro!: step_to [OF step.read])
  next
    case (read_failed p i fl e bs d)
    then show ?thesis by (auto intro!: step_to [OF step.read_failed])
  next
    case (fill p i fl bs c b)
    have "i \<notin> ?P" using held [of p i] fill by simp
    then show ?thesis using fetch_filled_raise [of i ?P p bs "pool ?s" c b] fill
      by (auto intro!: step_to [OF step.fill])
  next
    case (write_back p i q bs r d r' c b)
    then show ?thesis using flushed_raise(1) [of q r "pool ?s" r' c b ?P]
      by (auto intro!: step_to [OF step.write_back])
  next
    case (allocated table_id p d)
    then show ?thesis by (auto intro!: step_to [OF step.allocated])
  next
    case (allocate_failed table_id e d)
    then show ?thesis by (auto intro!: step_to [OF step.allocate_failed])
  next
    case (claim p tx i fl b)
    then show ?thesis using create_claim_raise [OF clock out claim(5)]
      by (auto intro!: step_to [OF step.claim])
  next
    case (create_flush p i q bs r d r' c b)
    then show ?thesis using flushed_raise(2) [of q r "pool ?s" r' c b ?P]
      by (auto intro!: step_to [OF step.create_flush])
  next
    case (lock_read p i)
    then show ?thesis by (auto intro!: step_to [OF step.lock_read])
  next
    case (lock_write p i)
    then show ?thesis by (auto intro!: step_to [OF step.lock_write])
  next
    case (store_guard p i bs b)
    have "i \<notin> ?P" using held [of p i] store_guard by simp
    then show ?thesis using update_frame_raise [of i ?P "\<lambda>f. set_dirty True (write_data bs f)" "pool ?s" b] store_guard
      by (auto intro!: step_to [OF step.store_guard])
  next
    case (drop_read p i b)
    then show ?thesis using release [of p i b]
      by (auto intro!: step_to [OF step.drop_read])
  next
    case (drop_write p i b)
    then show ?thesis using release [of p i b]
      by (auto intro!: step_to [OF step.drop_write])
  qed
  then show ?thesis by (simp only: not_begun_def)
qed

text \<open>The first half of a drop is not seen, the second half is the whole drop.\<close>

lemma decrement_unseen:
  assumes i: "i \<notin> P" and fr: "index (frames b) i = Some fr" and dec: "decrement_pin_count fr = Some (1, fr')"
    and bound: "frame_pin_count fr < 2 ^ 64"
  shows "raise (insert i P) (b\<lparr>frames := (frames b)[i := fr']\<rparr>) = raise P b" and "frame_pin_count fr' = 0"
proof -
  have pin: "frame_pin_count fr = 1" using dec by (auto simp: decrement_pin_count_def Let_def split: if_splits)
  then have fr': "fr' = fr\<lparr>frame_pin_count := 0\<rparr>"
    using dec decrement_pinned [of fr] bound by simp
  then show "frame_pin_count fr' = 0" by simp
  have "frames (raise (insert i P) (b\<lparr>frames := (frames b)[i := fr']\<rparr>)) = frames (raise P b)"
  proof (rule nth_equalityI)
    fix j assume "j < length (frames (raise (insert i P) (b\<lparr>frames := (frames b)[i := fr']\<rparr>)))"
    then show "frames (raise (insert i P) (b\<lparr>frames := (frames b)[i := fr']\<rparr>)) ! j = frames (raise P b) ! j"
      using i fr fr' pin by (cases "j = i") (auto simp: raise_nth)
  qed simp
  then show "raise (insert i P) (b\<lparr>frames := (frames b)[i := fr']\<rparr>) = raise P b"
    by (simp add: raise_def)
qed

lemma report_unpins:
  assumes i: "i \<in> P" "i < length (frames b)" and pin: "frame_pin_count (frames b ! i) = 0"
    and ev: "evictor_add (bpm_evictor b) i = Some ev"
  shows "unpin_frame i (raise P b) = Some (raise (P - {i}) (b\<lparr>bpm_evictor := ev\<rparr>))"
proof -
  let ?f = "frames (raise P b) ! i"
  have f: "?f = (frames b ! i)\<lparr>frame_pin_count := 1\<rparr>" using i pin by (simp add: raise_nth)
  have dec: "decrement_pin_count ?f = Some (1, frames b ! i)"
    using pin by (simp add: f decrement_pin_count_def)
  have "(frames (raise P b))[i := frames b ! i] = frames (raise (P - {i}) b)"
  proof (rule nth_equalityI)
    fix j assume "j < length ((frames (raise P b))[i := frames b ! i])"
    then show "(frames (raise P b))[i := frames b ! i] ! j = frames (raise (P - {i}) b) ! j"
      using i by (cases "j = i") (auto simp: raise_nth)
  qed simp
  then show ?thesis using i ev dec by (simp add: unpin_frame_def) (simp add: raise_def)
qed

lemma report_simulated:
  fixes f :: "('c, 'd) dropping_system"
  assumes inv: "drops_ok f" and t: "dropping f t = Some i" and ev: "evictor_add (bpm_evictor (pool (base f))) i = Some ev"
  shows "step allocate get whole store next_of t (not_begun f)
    ((base f)\<lparr>pool := raise (pending f - {i}) ((pool (base f))\<lparr>bpm_evictor := ev\<rparr>), tasks := (tasks (base f))(t := Idle)\<rparr>)"
proof -
  note D = drops_okD [OF inv]
  have i: "i \<in> pending f" using t by (auto simp: pending_def)
  note p = pending_frame [OF inv i]
  have run: "unpin_frame i (raise (pending f) (pool (base f))) =
      Some (raise (pending f - {i}) ((pool (base f))\<lparr>bpm_evictor := ev\<rparr>))"
    by (rule report_unpins [OF i p(1) D(4) [OF i] ev])
  have release: "release_read i (raise (pending f) (pool (base f))) = unpin_frame i (raise (pending f) (pool (base f)))"
    "release_write i (raise (pending f) (pool (base f))) = unpin_frame i (raise (pending f) (pool (base f)))"
    using release_unpin [OF pins_invD(1) [OF D(2)]] p(1) by simp_all
  from D(3) [OF t] show ?thesis
  proof (cases "tasks (base f) t")
    case (Reader q j)
    then show ?thesis using D(3) [OF t] run release
      by (intro step_to [OF step.drop_read]) (simp_all add: not_begun_def)
  next
    case (Writer q j)
    then show ?thesis using D(3) [OF t] run release
      by (intro step_to [OF step.drop_write]) (simp_all add: not_begun_def)
  next
    case (Fetch_Wait q j c)
    then have "tasks (base f) t = Fetch_Wait q i c" using D(3) [OF t] by simp
    moreover have "channel_closed (not_begun f) c" using D(6) [OF t] calculation by simp
    ultimately show ?thesis using run
      by (intro step_to [OF step.fetch_closed [of "not_begun f"]]) (simp_all add: not_begun_def)
  qed simp_all
qed

text \<open>Each step is a step of the system in which no drop has begun, or none.\<close>

lemma drop_step_simulated:
  fixes f :: "('c, 'd) dropping_system"
  assumes inv: "drops_ok f" and "drop_step allocate get whole store next_of t f f'" and calm: "\<not> raced f'"
  shows "drops_ok f' \<and> (not_begun f' = not_begun f \<or> step allocate get whole store next_of t (not_begun f) (not_begun f'))"
  using assms(2)
proof cases
  case (act s)
  note D = drops_okD [OF inv]
  have sim: "step allocate get whole store next_of t (not_begun f) (not_begun f')" and
    keep: "carried (pending f) (pool (base f)) (pool s)"
    using act_simulated [OF inv act(2,3)] act(1) calm by (auto simp: not_begun_def pending_def)
  have same: "dropping f' = dropping f" "base f' = s" "pending f' = pending f" using act(1) by (simp_all add: pending_def)
  have other: "tasks s u = tasks (base f) u" if "dropping f u = Some i" for u i
    using step_others [OF act(3)] act(2) that by (cases "u = t") auto
  have pin: "frame_pin_count (frames (pool s) ! i) = 0" if "dropping f u = Some i" for u i
  proof -
    have "i \<in> pending f" using that by (auto simp: pending_def)
    then show ?thesis using D(4) [of i] keep by (simp add: carried_def)
  qed
  have closed: "channel_closed s c" if "channel_closed (base f) c" for c
    using step_closed [OF sim D(1), of c] that same(2) by simp
  have "drops_ok f'"
  proof (rule drops_okI [OF step_sound [OF sim D(1)]]; unfold same)
    show "gives_up (tasks s u) = Some j" if "dropping f u = Some j" for u j using D(3) [OF that] other [OF that] by simp
    show "channel_closed s c" if "dropping f u = Some j" "tasks s u = Fetch_Wait p j c" for u j p c
      by (rule closed, rule D(6) [OF that(1)]) (rule trans [OF other [OF that(1), symmetric] that(2)])
  qed (erule pin, erule D(5), assumption)
  then show ?thesis using sim by blast
next
  case (decrement i fr fr')
  note D = drops_okD [OF inv]
  obtain p where frame: "task_frame (tasks (base f) t) = Some (p, i)" using gives_up_frame [OF decrement(3)] by blast
  have i: "i \<notin> pending f" by (rule held_not_pending [OF inv decrement(2) frame])
  have len: "i < length (frames (pool (base f)))" using decrement(5) by simp
  have "frame_pin_count fr < 2 ^ 64"
    using pool_exceptD(5) [OF pins_invD(1) [OF D(2), unfolded pool_ok_def], of i] decrement(5) i
    by (simp add: frame_ok_def Let_def raise_nth)
  note unseen = decrement_unseen [OF i decrement(5,6) this]
  have "ran (dropping f') = insert i (ran (dropping f))" using decrement(1,2) by simp
  then have P: "pending f' = insert i (pending f)" by (simp add: pending_def ran_def)
  have same: "not_begun f' = not_begun f" using unseen(1) P decrement(1) by (simp add: not_begun_def)
  have "drops_ok f'"
  proof (rule drops_okI)
    show "sound (not_begun f')" unfolding same by (rule D(1))
    show "gives_up (tasks (base f') u) = Some j" if "dropping f' u = Some j" for u j
      using that decrement(1,3) D(3) by (auto split: if_splits)
    show "frame_pin_count (frames (pool (base f')) ! j) = 0" if j: "dropping f' u = Some j" for u j
      using j decrement(1) unseen(2) D(4) [of j] i len by (cases "j = i") (auto simp: pending_def split: if_splits)
    show "channel_closed (base f') c" if "dropping f' u = Some j" "tasks (base f') u = Fetch_Wait p j c" for u j p c
    proof -
      have at: "tasks (base f) u = Fetch_Wait p j c" using that(2) decrement(1) by simp
      have "channel_closed (base f) c"
      proof (cases "u = t")
        case True
        then have "j = i" using that(1) decrement(1) by simp
        then show ?thesis using decrement(4) at True by blast
      next
        case False
        then have "dropping f u = Some j" using that(1) decrement(1) by simp
        then show ?thesis using at by (rule D(6))
      qed
      moreover have "channel_closed (base f') c = channel_closed (base f) c"
        by (rule closed_cong) (simp_all add: decrement(1))
      ultimately show ?thesis by simp
    qed
    show "u = v" if "dropping f' u = Some j" "dropping f' v = Some j" for u v j
      using that decrement(1) i D(5) by (auto simp: pending_def split: if_splits)
  qed
  then show ?thesis using same by blast
next
  case (report i ev)
  note D = drops_okD [OF inv]
  have "dropping f' u = Some j \<longleftrightarrow> u \<noteq> t \<and> dropping f u = Some j" for u j using report(1) by simp
  then have "(\<exists>u. dropping f' u = Some j) \<longleftrightarrow> j \<noteq> i \<and> (\<exists>u. dropping f u = Some j)" for j
    using report(2) D(5) by (metis option.inject)
  then have P: "pending f' = pending f - {i}" by (auto simp: pending_def)
  have sim: "step allocate get whole store next_of t (not_begun f) (not_begun f')"
    by (rule step_to [OF report_simulated [OF inv report(2,3)]]) (use P report(1) in \<open>simp add: not_begun_def\<close>)
  have closed: "channel_closed (base f') c = channel_closed (base f) c" for c
    by (rule closed_cong) (simp_all add: report(1))
  have "drops_ok f'"
  proof (rule drops_okI [OF step_sound [OF sim D(1)]])
    fix u j assume u: "dropping f' u = Some j"
    then have old: "dropping f u = Some j" "tasks (base f') u = tasks (base f) u"
      using report(1) by (auto split: if_splits)
    then show "gives_up (tasks (base f') u) = Some j" using D(3) by simp
    show "frame_pin_count (frames (pool (base f')) ! j) = 0"
      using D(4) [of j] old(1) report(1) by (auto simp: pending_def)
    show "channel_closed (base f') c" if "tasks (base f') u = Fetch_Wait p j c" for p c
      unfolding closed by (rule D(6) [OF old(1)]) (rule trans [OF old(2) [symmetric] that])
    show "u = v" if "dropping f' v = Some j" for v
      using D(5) [OF old(1)] that report(1) by (auto split: if_splits)
  qed
  then show ?thesis using sim by blast
qed

lemma drop_step_others:
  "drop_step allocate get whole store next_of t f f' \<Longrightarrow> u \<noteq> t \<Longrightarrow>
   tasks (base f') u = tasks (base f) u \<and> dropping f' u = dropping f u"
  by (cases rule: drop_step.cases) (auto dest: step_others)

lemma drop_step_failed: "drop_step allocate get whole store next_of t f f' \<Longrightarrow> failed (base f) \<Longrightarrow> failed (base f')"
  by (cases rule: drop_step.cases) (auto dest: step_failed)

lemma raced_forever: "drop_step allocate get whole store next_of t f f' \<Longrightarrow> raced f \<Longrightarrow> raced f'"
  by (cases rule: drop_step.cases) auto

lemma raise_none [simp]: "raise {} b = b"
  by (simp add: raise_def map_nth)

lemma initial_not_begun: "not_begun (drop_initial content n d) = initial content n d"
  by (simp add: not_begun_def drop_initial_def pending_def)

lemma initial_drops: "drops_ok (drop_initial content n d)"
  using initial_sound by (simp add: drops_ok_def initial_not_begun) (simp add: drop_initial_def)

lemma drop_run_simulated:
  assumes "drop_run allocate get whole store next_of (drop_initial content n d) f" and "\<not> raced f"
  shows "drops_ok f \<and> run allocate get whole store next_of (initial content n d) (not_begun f)"
  using assms
proof (induction rule: drop_run.induct)
  case start
  show ?case using initial_drops initial_not_begun run.start by metis
next
  case (continue f' t f'')
  have calm: "\<not> raced f'" using raced_forever [OF continue.hyps(2)] continue.prems by blast
  note IH = continue.IH [OF calm]
  from drop_step_simulated [OF conjunct1 [OF IH] continue.hyps(2) continue.prems] show ?case
    using IH run.continue by metis
qed

text \<open>A guard that is not being dropped has its frame.\<close>

lemma drops_guards:
  assumes inv: "drops_ok f" and g: "tasks (base f) t = Reader p i \<or> tasks (base f) t = Writer p i"
    and t: "dropping f t = None"
  shows "page_table (pool (base f)) p = Some i \<and> i < length (frames (pool (base f))) \<and>
    frame_page_id (frames (pool (base f)) ! i) = Some p \<and> 0 < frame_pin_count (frames (pool (base f)) ! i) \<and>
    i \<notin> evictable (bpm_evictor (pool (base f))) \<and>
    (\<forall>u q. tasks (base f) u = Reader q i \<or> tasks (base f) u = Writer q i \<longrightarrow>
       q = p \<and> (tasks (base f) t = Writer p i \<longrightarrow> u = t))"
proof -
  have "task_frame (tasks (base f) t) = Some (p, i)" using g by auto
  then have "i \<notin> pending f" by (rule held_not_pending [OF inv t])
  then have "i < length (frames (pool (base f))) \<Longrightarrow> frames (raise (pending f) (pool (base f))) ! i = frames (pool (base f)) ! i"
    by (simp add: raise_nth)
  then show ?thesis using guards_kept [OF drops_okD(1) [OF inv], of t p i] g by simp
qed

text \<open>A fetch that hits a frame whose last pin is gone, but which is not in the evictor yet.\<close>

lemma claim_half_dropped:
  assumes "page_table b p = Some i" and "i < length (frames b)" and "frame_pin_count (frames b ! i) = 0"
    and "clock_capacity (bpm_evictor b) = length (frames b)" and "i \<notin> evictable (bpm_evictor b)"
  shows "fetch_claim tx tx' p b = Some (Hit i, b\<lparr>frames := (frames b)[i := (frames b ! i)\<lparr>frame_pin_count := 1\<rparr>]\<rparr>)"
proof -
  have "evictor_remove (bpm_evictor b) i = Some (bpm_evictor b)"
    using assms(2,4,5) by (auto simp: evictor_remove_def evictable_def)
  then show ?thesis
    using assms(1-3) by (simp add: fetch_claim_def pin_frame_def increment_pin_count_def)
qed

section \<open>Properties\<close>

text \<open>
  C10: A run in which no fetch hits a frame between the two halves of a drop refines a run of the system
  where every drop is one step: the refinement mapping takes the drops that are half done as not
  begun, and is the identity when there are none.
\<close>

theorem drops_refine:
  assumes "drop_run allocate get whole store next_of (drop_initial content n d) f" and "\<not> raced f"
  shows "run allocate get whole store next_of (initial content n d) (not_begun f) \<and>
    (pending f = {} \<longrightarrow> not_begun f = base f)"
  using drop_run_simulated [OF assms] by (simp add: not_begun_def)

text \<open>
  C40: The race can happen in every reachable state in which a task holds the only pin on a frame and
  another task is idle: three steps later the frame is in the evictor although the other task has
  fetched its page and has it pinned, so that an eviction can take the frame away from it.
\<close>

theorem drop_race_reachable:
  fixes f :: "('c, 'd) dropping_system"
  assumes "drop_run allocate get whole store next_of (drop_initial content n d) f" and "\<not> raced f"
    and "tasks (base f) t = Reader p i \<or> tasks (base f) t = Writer p i" and "dropping f t = None"
    and "frame_pin_count (frames (pool (base f)) ! i) = 1" and "pins_bounded (pool (base f))"
    and "tasks (base f) u = Idle" and "known next_of (base f) p"
  shows "\<exists>f' :: ('c, 'd) dropping_system. drop_run allocate get whole store next_of (drop_initial content n d) f' \<and> raced f' \<and>
    tasks (base f') t = Idle \<and> tasks (base f') u = Hit_Check p i \<and>
    frame_pin_count (frames (pool (base f')) ! i) = 1 \<and> i \<in> evictable (bpm_evictor (pool (base f')))"
proof -
  let ?b = "pool (base f)"
  note sim = drop_run_simulated [OF assms(1,2)]
  note D = drops_okD [OF conjunct1 [OF sim]]
  note wf = pool_exceptD [OF pins_invD(1) [OF D(2), unfolded pool_ok_def], simplified]
  note kept = guards_kept [OF D(1), of t p i, simplified, OF assms(3)]
  have i: "i < length (frames ?b)" "page_table ?b p = Some i" "i \<notin> evictable (bpm_evictor ?b)" using kept by simp_all
  have held: "task_frame (tasks (base f) t) = Some (p, i)" "gives_up (tasks (base f) t) = Some i" using assms(3) by auto
  have tu: "t \<noteq> u" using assms(3,7) by auto
  have free: "dropping f u = None"
    using D(3) [of u] assms(7) by (cases "dropping f u") auto
  define fr where "fr = (frames ?b ! i)\<lparr>frame_pin_count := 0\<rparr>"
  define f1 where "f1 = f\<lparr>base := (base f)\<lparr>pool := ?b\<lparr>frames := (frames ?b)[i := fr]\<rparr>\<rparr>, dropping := (dropping f)(t := Some i)\<rparr>"
  have 1: "drop_step allocate get whole store next_of t f f1" unfolding f1_def
    by (rule drop_step.decrement [OF assms(4) held(2) _ index_in [OF i(1)]])
      (use decrement_pinned [of "frames ?b ! i"] assms(3,5) in \<open>auto simp: fr_def\<close>)
  define b2 where "b2 = ?b\<lparr>frames := (frames ?b)[i := fr\<lparr>frame_pin_count := 1\<rparr>]\<rparr>"
  have claim: "fetch_claim tx tx' p (pool (base f1)) = Some (Hit i, b2)" for tx tx'
    using claim_half_dropped [of "pool (base f1)" p i tx tx'] i wf(2) by (simp add: f1_def b2_def fr_def)
  have bounded: "pins_bounded (pool (base f1))"
    using assms(6) set_update_subset_insert [of "frames ?b" i fr] by (auto simp: pins_bounded_def f1_def fr_def)
  define s2 where "s2 = (base f1)\<lparr>pool := b2, tasks := (tasks (base f1))(u := Hit_Check p i)\<rparr>"
  have "step allocate get whole store next_of u (base f1) s2" unfolding s2_def
    by (rule step.hit [OF _ _ bounded claim]) (use assms(7,8) in \<open>simp_all add: f1_def known_def\<close>)
  note 2 = drop_step.act [OF _ this]
  define f2 where "f2 = f1\<lparr>base := s2, raced := True\<rparr>"
  have "i \<in> pending f1" by (auto simp: pending_def f1_def)
  then have 2: "drop_step allocate get whole store next_of u f1 f2"
    using 2 free tu assms(7) by (auto simp: f2_def f1_def s2_def)
  have pool2: "pool (base f2) = b2" by (simp add: f2_def s2_def)
  obtain ev where ev: "evictor_add (bpm_evictor b2) i = Some ev" "i \<in> evictable ev"
    using evictor_add_ok [of "bpm_evictor ?b" i] wf(1,2) i(1) by (auto simp: b2_def)
  define f3 where "f3 = f2\<lparr>base := (base f2)\<lparr>pool := (pool (base f2))\<lparr>bpm_evictor := ev\<rparr>, tasks := (tasks (base f2))(t := Idle)\<rparr>,
    dropping := (dropping f2)(t := None)\<rparr>"
  have 3: "drop_step allocate get whole store next_of t f2 f3" unfolding f3_def
    by (rule drop_step.report) (simp_all add: f2_def f1_def, use ev(1) pool2 in \<open>simp add: f2_def\<close>)
  have run: "drop_run allocate get whole store next_of (drop_initial content n d) f3"
    by (rule drop_run.continue [OF drop_run.continue [OF drop_run.continue [OF assms(1) 1] 2] 3])
  show ?thesis
    by (rule exI [of _ f3]) (use run tu i(1) ev(2) in \<open>simp add: f3_def f2_def s2_def b2_def\<close>)
qed

section \<open>Examples\<close>

lemma run_drop_run:
  "run allocate get whole store next_of s s' \<Longrightarrow>
   drop_run allocate get whole store next_of \<lparr>base = s, dropping = \<lambda>_. None, raced = False\<rparr>
     \<lparr>base = s', dropping = \<lambda>_. None, raced = False\<rparr>"
proof (induction rule: run.induct)
  case start
  show ?case by (rule drop_run.start)
next
  case (continue s' t s'')
  let ?f = "\<lparr>base = s', dropping = \<lambda>_. None, raced = False\<rparr>"
  have "drop_step allocate get whole store next_of t ?f \<lparr>base = s'', dropping = \<lambda>_. None, raced = False\<rparr>"
    using drop_step.act [of ?f t allocate get whole store next_of s''] continue.hyps(2) by (simp add: pending_def)
  then show ?case by (rule drop_run.continue [OF continue.IH])
qed

abbreviation memory_drop_run where
  "memory_drop_run \<equiv> drop_run (disk_allocate memory_system) (disk_read memory_system)
      (disk_whole memory_system mem_files) (disk_write memory_system)
     (disk_next mem_files) (drop_initial (disk_content mem_files example_store) 2 example_store ::
       (nat, (memory, path tokio_file_handle) disk_state) dropping_system)"

text \<open>Task 0 holds a write guard on page 2, where it has stored some bytes.\<close>

lemma example_guard:
  assumes "length bs = PAGE_SIZE"
  shows "\<exists>f i. memory_drop_run f \<and> tasks (base f) = (\<lambda>_. Idle)(0 := Writer (example_page 2) i) \<and>
    dropping f = (\<lambda>_. None) \<and> \<not> raced f \<and> \<not> failed (base f) \<and> suspect (base f) = {} \<and>
    expected (base f) (example_page 2) = bs \<and> i < length (frames (pool (base f))) \<and>
    frame_pin_count (frames (pool (base f)) ! i) = 1 \<and>
    known (disk_next mem_files) (base f) (example_page 2) \<and> pins_bounded (pool (base f))"
proof -
  obtain s i where "memory_run example_start s" "tasks s = (\<lambda>_. Idle)(0 := Writer (example_page 2) i)" "\<not> failed s"
    "suspect s = {}" "expected s (example_page 2) = bs" "i < length (frames (pool s))"
    "frame_pin_count (frames (pool s) ! i) = 1" "known (disk_next mem_files) s (example_page 2)" "pins_bounded (pool s)"
    using example_written [OF assms] by blast
  then show ?thesis using run_drop_run
    by (intro exI [of _ "\<lparr>base = s, dropping = \<lambda>_. None, raced = False\<rparr>"] exI [of _ i])
      (fastforce simp: drop_initial_def example_start_def)
qed

theorem drops_refine_witness:
  "\<exists>f i. memory_drop_run f \<and> pending f = {i} \<and> frame_pin_count (frames (pool (base f)) ! i) = 0 \<and>
     memory_run example_start (not_begun f)"
proof -
  obtain f i where f: "memory_drop_run f" "tasks (base f) = (\<lambda>_. Idle)(0 := Writer (example_page 2) i)"
    "dropping f = (\<lambda>_. None)" "\<not> raced f" "i < length (frames (pool (base f)))"
    "frame_pin_count (frames (pool (base f)) ! i) = 1"
    using example_guard [of "replicate PAGE_SIZE 0"] by auto
  obtain fr' where dec: "decrement_pin_count (frames (pool (base f)) ! i) = Some (1, fr')" "frame_pin_count fr' = 0"
    using decrement_pinned [of "frames (pool (base f)) ! i"] f(6) by simp
  let ?f = "f\<lparr>base := (base f)\<lparr>pool := (pool (base f))\<lparr>frames := (frames (pool (base f)))[i := fr']\<rparr>\<rparr>,
    dropping := (dropping f)(0 := Some i)\<rparr>"
  have "drop_step (disk_allocate memory_system) (disk_read memory_system)
      (disk_whole memory_system mem_files) (disk_write memory_system)
      (disk_next mem_files) 0 f ?f"
    by (rule drop_step.decrement [OF _ _ _ index_in [OF f(5)] dec(1)]) (simp_all add: f)
  then have run: "memory_drop_run ?f" by (rule drop_run.continue [OF f(1)])
  have "memory_run example_start (not_begun ?f)"
    using drops_refine [OF run] f(4) by (simp add: example_start_def)
  then show ?thesis using run f(3,5) dec(2) by (intro exI [of _ ?f] exI [of _ i]) (simp add: pending_def)
qed

theorem drop_race_reachable_witness:
  "\<exists>f' i. memory_drop_run f' \<and> raced f' \<and> tasks (base f') 1 = Hit_Check (example_page 2) i \<and>
     i \<in> evictable (bpm_evictor (pool (base f')))"
proof -
  obtain f i where f: "memory_drop_run f" "\<not> raced f" "tasks (base f) = (\<lambda>_. Idle)(0 := Writer (example_page 2) i)"
    "dropping f 0 = None" "frame_pin_count (frames (pool (base f)) ! i) = 1"
    "known (disk_next mem_files) (base f) (example_page 2)" "pins_bounded (pool (base f))"
    using example_guard [of "replicate PAGE_SIZE 0"] by auto
  then show ?thesis
    using drop_race_reachable [OF f(1,2), of 0 "example_page 2" i 1] by simp blast
qed

end
