(* ===== verification/Pool_Faults.thy ===== *)
theory Pool_Faults
  imports Pool_Drops
begin

text \<open>
  Operations that are given up half-way: a fetch whose read of the disk fails or whose wait for a
  flush ends in an error returns early, and the future of an operation can be dropped at any await
  point (the client is gone, a timeout). The pin of an operation is a plain count, undone only by the
  guard that the operation returns at its end, and its entries in the page table and in the maps of
  channels are taken back only by its own later sections: whoever gives up leaves all of them behind.

  For the other tasks such an operation cannot be told from one that stays at its await point for ever.
  So what holds of all interleavings of \<open>Pool_Drops\<close> still holds: guards keep their frames and show
  what was last written (\<open>guards_keep_frames\<close>, \<open>cache_coherent\<close>). What is lost is the frame and
  the pages that were in transit (\<open>abandoned_for_ever\<close>).
\<close>

section \<open>Definitions\<close>

text \<open>
  The await points at which an operation can be given up. The disk operation of the await has been
  done or not; one that fails is a read, after a failed write the operation goes on by itself.
\<close>

fun suspended :: "'c task \<Rightarrow> bool" where
  "suspended (Fetch_Wait p i c) = True"
| "suspended (Flush_Wait p i fl c) = True"
| "suspended (Reading p i fl) = True"
| "suspended (Writing_Back p i q bs) = True"
| "suspended (Create_Flush p i q bs) = True"
| "suspended _ = False"

definition quit :: "nat \<Rightarrow> 'd \<Rightarrow> ('c, 'd) dropping_system \<Rightarrow> ('c, 'd) dropping_system" where
  "quit t d f = f\<lparr>base := (base f)\<lparr>store_state := d, tasks := (tasks (base f))(t := Idle)\<rparr>\<rparr>"

inductive give_up ::
  "(page_id \<Rightarrow> bytes \<Rightarrow> 'd \<Rightarrow> (io_error, unit) rust_result \<times> bytes \<times> 'd) \<Rightarrow>
   (page_id \<Rightarrow> bytes \<Rightarrow> 'd \<Rightarrow> (io_error, unit) rust_result \<times> 'd) \<Rightarrow>
   nat \<Rightarrow> ('c, 'd) dropping_system \<Rightarrow> ('c, 'd) dropping_system \<Rightarrow> bool"
  for get store t f where
  early: "dropping f t = None \<Longrightarrow> suspended (tasks (base f) t) \<Longrightarrow>
    give_up get store t f (quit t (store_state (base f)) f)"
| after_read: "tasks (base f) t = Reading p i fl \<Longrightarrow>
    get p (replicate PAGE_SIZE 0) (store_state (base f)) = (r, bs, d) \<Longrightarrow> give_up get store t f (quit t d f)"
| after_store: "tasks (base f) t = Writing_Back p i q bs \<or> tasks (base f) t = Create_Flush p i q bs \<Longrightarrow>
    store q bs (store_state (base f)) = (Ok (), d) \<Longrightarrow> give_up get store t f (quit t d f)"

text \<open>
  A fetch whose read fails, or whose wait for a flush ends in an error, takes one of these steps, and
  this is not recorded as a failure of the system. A task whose wait for another fetch ends in an
  error unpins its frame, which is a step of \<open>Pool_Drops\<close>.
\<close>

inductive fault_step ::
  "(u32 \<Rightarrow> 'd \<Rightarrow> ((io_error, page_id) rust_result \<times> 'd) option) \<Rightarrow>
   (page_id \<Rightarrow> bytes \<Rightarrow> 'd \<Rightarrow> (io_error, unit) rust_result \<times> bytes \<times> 'd) \<Rightarrow>
   (page_id \<Rightarrow> 'd \<Rightarrow> bool) \<Rightarrow>
   (page_id \<Rightarrow> bytes \<Rightarrow> 'd \<Rightarrow> (io_error, unit) rust_result \<times> 'd) \<Rightarrow>
   ('d \<Rightarrow> u32 \<Rightarrow> nat) \<Rightarrow> nat \<Rightarrow> ('c, 'd) dropping_system \<Rightarrow> ('c, 'd) dropping_system \<Rightarrow> bool"
  for allocate get whole store next_of t f where
  act: "drop_step allocate get whole store next_of t f f' \<Longrightarrow>
    task_load (tasks (base f) t) = None \<or> tasks (base f') t \<noteq> Idle \<Longrightarrow>
    fault_step allocate get whole store next_of t f f'"
| gone: "give_up get store t f f' \<Longrightarrow> fault_step allocate get whole store next_of t f f'"

inductive fault_run ::
  "(u32 \<Rightarrow> 'd \<Rightarrow> ((io_error, page_id) rust_result \<times> 'd) option) \<Rightarrow>
   (page_id \<Rightarrow> bytes \<Rightarrow> 'd \<Rightarrow> (io_error, unit) rust_result \<times> bytes \<times> 'd) \<Rightarrow>
   (page_id \<Rightarrow> 'd \<Rightarrow> bool) \<Rightarrow>
   (page_id \<Rightarrow> bytes \<Rightarrow> 'd \<Rightarrow> (io_error, unit) rust_result \<times> 'd) \<Rightarrow>
   ('d \<Rightarrow> u32 \<Rightarrow> nat) \<Rightarrow> ('c, 'd) dropping_system \<Rightarrow> ('c, 'd) dropping_system \<Rightarrow> bool"
  for allocate get whole store next_of f where
  start: "fault_run allocate get whole store next_of f f"
| continue: "fault_run allocate get whole store next_of f f' \<Longrightarrow> fault_step allocate get whole store next_of t f' f'' \<Longrightarrow>
    fault_run allocate get whole store next_of f f''"

section \<open>Operations that stay at their await point\<close>

text \<open>
  The mirror of a system: every task has a name in it, and what was given up is still there under
  a name of its own. An operation given up while it wrote a page back has released the lock of its
  frame, like one that flushes for a creation.
\<close>

fun ghost :: "'c task \<Rightarrow> 'c task" where
  "ghost (Writing_Back p i q bs) = Create_Flush p i q bs"
| "ghost x = x"

fun inert :: "'c task \<Rightarrow> bool" where
  "inert Idle = True"
| "inert (Writing_Back p i q bs) = False"
| "inert x = suspended x"

definition mirrors :: "(nat \<Rightarrow> nat) \<Rightarrow> ('c, 'd) dropping_system \<Rightarrow> ('c, 'd) dropping_system \<Rightarrow> bool" where
  "mirrors name f g \<longleftrightarrow> inj name \<and> infinite (- range name) \<and>
     base g = (base f)\<lparr>tasks := tasks (base g)\<rparr> \<and> raced g = raced f \<and>
     (\<forall>t. tasks (base g) (name t) = tasks (base f) t \<and> dropping g (name t) = dropping f t) \<and>
     (\<forall>n. n \<notin> range name \<longrightarrow> inert (tasks (base g) n) \<and> dropping g n = None)"

lemma ghost_simps [simp]:
  "suspended x \<Longrightarrow> inert (ghost x)" "task_frame (ghost x) = task_frame x" "task_load (ghost x) = task_load x"
  "task_flush (ghost x) = task_flush x"
  by (cases x; simp)+

lemma inert_simps [simp]:
  "inert x \<Longrightarrow> \<not> locks_read x i" "inert x \<Longrightarrow> \<not> locks_write x i" "\<not> inert (Allocated p)"
  by (cases x; simp)+

lemma mirrorsD:
  assumes "mirrors name f g"
  shows "inj name" and "infinite (- range name)" and "base g = (base f)\<lparr>tasks := tasks (base g)\<rparr>"
    and "raced g = raced f" and "tasks (base g) (name t) = tasks (base f) t" and "dropping g (name t) = dropping f t"
    and "n \<notin> range name \<Longrightarrow> inert (tasks (base g) n)" and "n \<notin> range name \<Longrightarrow> dropping g n = None"
  using assms unfolding mirrors_def by blast+

lemma mirrors_fields:
  assumes "mirrors name f g"
  shows "pool (base g) = pool (base f)" and "store_state (base g) = store_state (base f)"
    and "expected (base g) = expected (base f)" and "suspect (base g) = suspect (base f)"
    and "failed (base g) = failed (base f)"
proof -
  obtain T where "base g = (base f)\<lparr>tasks := T\<rparr>" using mirrorsD(3) [OF assms] by blast
  then show "pool (base g) = pool (base f)" "store_state (base g) = store_state (base f)"
    "expected (base g) = expected (base f)" "suspect (base g) = suspect (base f)"
    "failed (base g) = failed (base f)" by simp_all
qed

lemma closed_mirrored [simp]:
  "channel_closed (s\<lparr>tasks := T\<rparr>) c = channel_closed s c"
  "channel_closed (s\<lparr>store_state := d\<rparr>) c = channel_closed s c"
  by (rule closed_cong; simp)+

text \<open>Tasks that are inert hinder no one: a step of a system is one of its mirror.\<close>

lemma step_mirrored:
  fixes s :: "('c, 'd) system"
  assumes run: "step allocate get whole store next_of t s s'" and name: "inj name"
    and same: "\<And>u. T (name u) = tasks s u" and others: "\<And>n. n \<notin> range name \<Longrightarrow> inert (T n)"
  shows "step allocate get whole store next_of (name t) (s\<lparr>tasks := T\<rparr>) (s'\<lparr>tasks := T(name t := tasks s' t)\<rparr>)"
proof -
  have all: "(\<forall>n. P (T n)) \<longleftrightarrow> (\<forall>u. P (tasks s u))" if "\<And>x. inert x \<Longrightarrow> P x" for P
    using same others that by (metis rangeE rangeI)
  have known: "known next_of (s\<lparr>tasks := T\<rparr>) p = known next_of s p" for p
  proof -
    have "(\<forall>n. T n \<noteq> Allocated p) \<longleftrightarrow> (\<forall>u. tasks s u \<noteq> Allocated p)" by (rule all) auto
    then show ?thesis by (simp add: known_def page_allocated_def)
  qed
  have wr: "\<not> locks_write (T n) i" if "\<forall>u. \<not> locks_write (tasks s u) i" for n i
    using all [of "\<lambda>x. \<not> locks_write x i", OF inert_simps(2)] that by blast
  have rw: "\<not> locks_read (T n) i" "\<not> locks_write (T n) i"
    if "\<forall>u. \<not> locks_read (tasks s u) i \<and> \<not> locks_write (tasks s u) i" for n i
    using all [of "\<lambda>x. \<not> locks_read x i", OF inert_simps(1)] wr [of i n] that by blast+
  have t: "T (name t) = tasks s t" by (rule same)
  have idem: "T(name t := tasks s t) = T" using t by (simp add: fun_upd_idem)
  from run show ?thesis
  proof cases
    case hit
    then show ?thesis using t known by (auto intro!: step_to [OF step.hit])
  next
    case full
    then show ?thesis using t known idem by (auto intro!: step_to [OF step.full])
  next
    case (miss p tx tx' i fl b)
    then show ?thesis using t known by (auto intro!: step_to [OF step.miss [where tx = tx and tx' = tx']])
  next
    case hit_ready
    then show ?thesis using t by (auto intro!: step_to [OF step.hit_ready])
  next
    case hit_wait
    then show ?thesis using t by (auto intro!: step_to [OF step.hit_wait])
  next
    case fetch_received
    then show ?thesis using t by (auto intro!: step_to [OF step.fetch_received])
  next
    case fetch_closed
    then show ?thesis using t by (auto intro!: step_to [OF step.fetch_closed])
  next
    case miss_ready
    then show ?thesis using t by (auto intro!: step_to [OF step.miss_ready])
  next
    case miss_wait
    then show ?thesis using t by (auto intro!: step_to [OF step.miss_wait])
  next
    case flush_received
    then show ?thesis using t by (auto intro!: step_to [OF step.flush_received])
  next
    case flush_closed
    then show ?thesis using t by (auto intro!: step_to [OF step.flush_closed])
  next
    case read
    then show ?thesis using t by (auto intro!: step_to [OF step.read])
  next
    case read_failed
    then show ?thesis using t by (auto intro!: step_to [OF step.read_failed])
  next
    case fill
    then show ?thesis using t rw by (auto intro!: step_to [OF step.fill])
  next
    case write_back
    then show ?thesis using t by (auto intro!: step_to [OF step.write_back])
  next
    case allocated
    then show ?thesis using t by (auto intro!: step_to [OF step.allocated])
  next
    case allocate_failed
    then show ?thesis using t idem by (auto intro!: step_to [OF step.allocate_failed])
  next
    case claim
    then show ?thesis using t by (auto intro!: step_to [OF step.claim])
  next
    case create_flush
    then show ?thesis using t by (auto intro!: step_to [OF step.create_flush])
  next
    case lock_read
    then show ?thesis using t wr by (auto intro!: step_to [OF step.lock_read])
  next
    case lock_write
    then show ?thesis using t rw by (auto intro!: step_to [OF step.lock_write])
  next
    case store_guard
    then show ?thesis using t idem by (auto intro!: step_to [OF step.store_guard])
  next
    case drop_read
    then show ?thesis using t by (auto intro!: step_to [OF step.drop_read])
  next
    case drop_write
    then show ?thesis using t by (auto intro!: step_to [OF step.drop_write])
  qed
qed

lemma mirrors_pending:
  assumes "mirrors name f g"
  shows "pending g = pending f"
proof -
  note M = mirrorsD [OF assms]
  have "(\<exists>n. dropping g n = Some i) \<longleftrightarrow> (\<exists>t. dropping f t = Some i)" for i
    using M(6,8) by (metis option.distinct(1) rangeE)
  then show ?thesis by (simp add: pending_def)
qed

text \<open>The mirror after a step of the task \<open>t\<close> that takes \<open>f\<close> to \<open>f'\<close>.\<close>

definition reflect :: "(nat \<Rightarrow> nat) \<Rightarrow> nat \<Rightarrow> ('c, 'd) dropping_system \<Rightarrow> ('c, 'd) dropping_system \<Rightarrow>
    ('c, 'd) dropping_system" where
  "reflect name t f' g = f'\<lparr>base := (base f')\<lparr>tasks := (tasks (base g))(name t := tasks (base f') t)\<rparr>,
     dropping := (dropping g)(name t := dropping f' t)\<rparr>"

lemma reflect_mirrors:
  assumes M: "mirrors name f g"
    and others: "\<And>u. u \<noteq> t \<Longrightarrow> tasks (base f') u = tasks (base f) u \<and> dropping f' u = dropping f u"
  shows "mirrors name f' (reflect name t f' g)"
proof -
  note D = mirrorsD [OF M]
  have "tasks (base (reflect name t f' g)) (name u) = tasks (base f') u \<and>
      dropping (reflect name t f' g) (name u) = dropping f' u" for u
    using others [of u] D(5,6) [of u] D(1) by (cases "u = t") (auto simp: reflect_def inj_eq)
  then show ?thesis using D(1,2,7,8) by (auto simp: mirrors_def reflect_def)
qed

lemma drop_step_to: "drop_step allocate get whole store next_of t f f1 \<Longrightarrow> f1 = f2 \<Longrightarrow> drop_step allocate get whole store next_of t f f2"
  by simp

lemma drop_step_mirrored:
  assumes M: "mirrors name f g" and run: "drop_step allocate get whole store next_of t f f'"
  shows "drop_step allocate get whole store next_of (name t) g (reflect name t f' g)"
proof -
  note D = mirrorsD [OF M] and P = mirrors_pending [OF M]
  define T where "T = tasks (base g)"
  define E where "E = dropping g"
  have g: "g = f\<lparr>base := (base f)\<lparr>tasks := T\<rparr>, dropping := E\<rparr>"
    using D(3,4) by (cases f; cases g) (simp add: T_def E_def)
  have t: "T (name t) = tasks (base f) t" "E (name t) = dropping f t" using D(5,6) by (simp_all add: T_def E_def)
  from run show ?thesis
  proof cases
    case (act s)
    have "step allocate get whole store next_of (name t) ((base f)\<lparr>tasks := T\<rparr>) (s\<lparr>tasks := T(name t := tasks s t)\<rparr>)"
      by (rule step_mirrored [OF act(3) D(1,5,7), folded T_def])
    then have "step allocate get whole store next_of (name t) (base g) (s\<lparr>tasks := T(name t := tasks s t)\<rparr>)"
      by (simp add: g)
    from drop_step.act [OF _ this] show ?thesis
      by (rule drop_step_to) (use t act(1,2) P D(6) in \<open>simp_all add: reflect_def g fun_upd_idem\<close>)
  next
    case (decrement i fr fr')
    then show ?thesis using t
      by (intro drop_step_to [OF drop_step.decrement [where i = i and fr = fr and fr' = fr']])
        (simp_all add: reflect_def g fun_upd_idem)
  next
    case (report i ev)
    then show ?thesis using t
      by (intro drop_step_to [OF drop_step.report [where i = i and ev = ev]]) (simp_all add: reflect_def g)
  qed
qed

lemma sound_ghost:
  assumes snd: "sound s" and t: "suspended (tasks s t)"
  shows "sound (s\<lparr>store_state := d, tasks := (tasks s)(t := ghost (tasks s t))\<rparr>)"
proof -
  have "pins_inv (pool s) ((tasks s)(t := ghost (tasks s t)))"
    using snd pins_same_pool [of "pool s" "tasks s" "ghost (tasks s t)" t] by (simp add: sound_def)
  moreover have "inert (ghost (tasks s t))" using t by simp
  moreover have "ghost (tasks s t) \<noteq> Filling p i fl bs" for p i fl bs using t by (cases "tasks s t") simp_all
  ultimately show ?thesis by (intro sound_plain [OF snd, of _ t "ghost (tasks s t)"]) simp_all
qed

text \<open>Where an operation is given up it is not unpinning its frame, and its name is free again.\<close>

lemma suspended_task:
  assumes "drops_ok g" and "give_up get store t f f'" and M: "mirrors name f g"
  shows "suspended (tasks (base f) t)" and "dropping f t = None" and "\<exists>d. f' = quit t d f"
proof -
  note D = mirrorsD [OF M]
  have gone: "gives_up (tasks (base f) t) = Some i" if "dropping f t = Some i" for i
    using drops_okD(3) [OF assms(1), of "name t" i] D(5,6) that by simp
  have "suspended (tasks (base f) t) \<and> dropping f t = None \<and> (\<exists>d. f' = quit t d f)"
    using assms(2)
  proof cases
    case early
    then show ?thesis by blast
  next
    case after_read
    then show ?thesis using gone by (cases "dropping f t") auto
  next
    case after_store
    then show ?thesis using gone by (cases "dropping f t") auto
  qed
  then show "suspended (tasks (base f) t)" "dropping f t = None" "\<exists>d. f' = quit t d f" by blast+
qed

lemma quit_mirrors:
  assumes M: "mirrors name f g" and t: "suspended (tasks (base f) t)" "dropping f t = None"
    and m: "m \<notin> range name" "tasks (base g) m = Idle"
  shows "mirrors (name(t := m)) (quit t d f)
    (g\<lparr>base := (base g)\<lparr>store_state := d, tasks := (tasks (base g))(name t := ghost (tasks (base f) t))\<rparr>\<rparr>)"
proof -
  note D = mirrorsD [OF M]
  have fresh: "name u \<noteq> m" for u using m(1) by auto
  have inj: "inj (name(t := m))" by (rule inj_on_fun_updI [OF D(1) m(1)])
  have "- range name - {m} \<subseteq> - range (name(t := m))" by (auto split: if_splits)
  then have inf: "infinite (- range (name(t := m)))" using D(2) finite_subset by (metis infinite_remove)
  have out: "n = name t \<or> n \<notin> range name" if "n \<notin> range (name(t := m))" for n
    using that by (auto simp: image_iff split: if_splits)
  define T where "T = (tasks (base g))(name t := ghost (tasks (base f) t))"
  let ?g = "g\<lparr>base := (base g)\<lparr>store_state := d, tasks := T\<rparr>\<rparr>"
  have "mirrors (name(t := m)) (quit t d f) ?g"
    unfolding mirrors_def
  proof (intro conjI allI impI)
    show "base ?g = (base (quit t d f))\<lparr>tasks := tasks (base ?g)\<rparr>"
      by (subst D(3)) (simp add: quit_def)
    show "raced ?g = raced (quit t d f)" using D(4) by (simp add: quit_def)
    show "tasks (base ?g) ((name(t := m)) u) = tasks (base (quit t d f)) u" for u
      using D(1,5) m fresh [of t] by (simp add: T_def quit_def inj_eq)
    show "dropping ?g ((name(t := m)) u) = dropping (quit t d f) u" for u
      using D(6,8) m(1) t(2) by (simp add: quit_def)
    show "inert (tasks (base ?g) n)" if "n \<notin> range (name(t := m))" for n
      using out [OF that] D(7) t(1) by (auto simp: T_def)
    show "dropping ?g n = None" if "n \<notin> range (name(t := m))" for n
      using out [OF that] D(6) [of t] D(8) t(2) by auto
  qed (fact inj, fact inf)
  then show ?thesis by (simp add: T_def)
qed

section \<open>What holds in the mirror\<close>

lemma fault_step_raced: "fault_step allocate get whole store next_of t f f' \<Longrightarrow> raced f \<Longrightarrow> raced f'"
  using raced_forever by (fastforce elim: fault_step.cases give_up.cases simp: quit_def)

text \<open>
  A property of systems that the steps keep is kept by faults as well, if it does not depend on
  whether an operation goes on. \<open>upheld X f\<close> says that it holds in a mirror of \<open>f\<close> where the
  operations \<open>X\<close> that were given up are still there.
\<close>

locale kept =
  fixes allocate :: "u32 \<Rightarrow> 'd \<Rightarrow> ((io_error, page_id) rust_result \<times> 'd) option"
    and get :: "page_id \<Rightarrow> bytes \<Rightarrow> 'd \<Rightarrow> (io_error, unit) rust_result \<times> bytes \<times> 'd"
    and whole :: "page_id \<Rightarrow> 'd \<Rightarrow> bool"
    and store :: "page_id \<Rightarrow> bytes \<Rightarrow> 'd \<Rightarrow> (io_error, unit) rust_result \<times> 'd"
    and next_of :: "'d \<Rightarrow> u32 \<Rightarrow> nat"
    and K :: "('c, 'd) system \<Rightarrow> bool"
  assumes step_law: "step allocate get whole store next_of t s s' \<Longrightarrow> sound s \<Longrightarrow> K s \<Longrightarrow> \<not> failed s' \<Longrightarrow> K s'"
    and ghost_law: "sound s \<Longrightarrow> K s \<Longrightarrow> suspended (tasks s t) \<Longrightarrow> K (s\<lparr>tasks := (tasks s)(t := ghost (tasks s t))\<rparr>)"
    and read_law: "sound s \<Longrightarrow> K s \<Longrightarrow> tasks s t = Reading p i fl \<Longrightarrow>
      get p (replicate PAGE_SIZE 0) (store_state s) = (r, bs, d) \<Longrightarrow> K (s\<lparr>store_state := d\<rparr>)"
    and store_law: "sound s \<Longrightarrow> K s \<Longrightarrow> tasks s t = Writing_Back p i q bs \<or> tasks s t = Create_Flush p i q bs \<Longrightarrow>
      store q bs (store_state s) = (Ok (), d) \<Longrightarrow> K (s\<lparr>store_state := d\<rparr>)"
begin

definition upheld :: "'c task set \<Rightarrow> ('c, 'd) dropping_system \<Rightarrow> bool" where
  "upheld X f \<longleftrightarrow> (\<exists>name g. mirrors name f g \<and> drops_ok g \<and> (failed (base f) \<or> K (not_begun g)) \<and>
     (\<forall>x \<in> X. x \<noteq> Idle \<and> (\<exists>n. n \<notin> range name \<and> tasks (base g) n = x)))"

lemma upheld_step:
  assumes up: "upheld X f" and run: "drop_step allocate get whole store next_of t f f'" and calm: "\<not> raced f'"
  shows "upheld X f'"
proof -
  obtain name g where M: "mirrors name f g" and ok: "drops_ok g" and K: "failed (base f) \<or> K (not_begun g)"
    and X: "\<forall>x \<in> X. x \<noteq> Idle \<and> (\<exists>n. n \<notin> range name \<and> tasks (base g) n = x)"
    using up unfolding upheld_def by blast
  note D = mirrorsD [OF M]
  let ?g = "reflect name t f' g"
  have M': "mirrors name f' ?g" by (rule reflect_mirrors [OF M drop_step_others [OF run]])
  have "\<not> raced ?g" using calm by (simp add: reflect_def)
  from drop_step_simulated [OF ok drop_step_mirrored [OF M run] this]
  have sim: "drops_ok ?g" "not_begun ?g = not_begun g \<or> step allocate get whole store next_of (name t) (not_begun g) (not_begun ?g)"
    by blast+
  have "failed (base f') \<or> K (not_begun ?g)"
  proof (cases "failed (base f')")
    case False
    have flags: "failed (base ?g) = failed (base f')" "failed (base g) = failed (base f)"
      using mirrors_fields(5) [OF M] by (simp_all add: reflect_def)
    have "\<not> failed (base g)" using sim(2) False flags(1) step_failed by (metis not_begun_fields(8))
    then have "K (not_begun g)" using K flags(2) by blast
    then show ?thesis using sim(2) step_law [OF _ drops_okD(1) [OF ok]] False flags(1) by auto
  qed simp
  moreover have "tasks (base ?g) n = tasks (base g) n" if "n \<notin> range name" for n
    using that by (auto simp: reflect_def)
  ultimately show ?thesis unfolding upheld_def using M' sim(1) X by (intro exI [of _ name] exI [of _ ?g]) metis
qed

lemma upheld_give_up:
  assumes up: "upheld X f" and run: "give_up get store t f f'"
  shows "upheld (insert (ghost (tasks (base f) t)) X) f'"
proof -
  obtain name g where M: "mirrors name f g" and ok: "drops_ok g" and K: "failed (base f) \<or> K (not_begun g)"
    and X: "\<forall>x \<in> X. x \<noteq> Idle \<and> (\<exists>n. n \<notin> range name \<and> tasks (base g) n = x)"
    using up unfolding upheld_def by blast
  note D = mirrorsD [OF M] and O = drops_okD [OF ok]
  note t = suspended_task [OF ok run M]
  obtain d where f': "f' = quit t d f" using t(3) by blast
  have "infinite (- range name - {n. tasks (base g) n \<noteq> Idle})"
    using D(2) pins_invD(2) [OF O(2)] by (rule Diff_infinite_finite [rotated])
  then have "- range name - {n. tasks (base g) n \<noteq> Idle} \<noteq> {}" by (metis infinite_imp_nonempty)
  then obtain m where m: "m \<notin> range name" "tasks (base g) m = Idle" by blast
  let ?x = "ghost (tasks (base f) t)"
  let ?g = "g\<lparr>base := (base g)\<lparr>store_state := d, tasks := (tasks (base g))(name t := ?x)\<rparr>\<rparr>"
  have M': "mirrors (name(t := m)) f' ?g" unfolding f' by (rule quit_mirrors [OF M t(1,2) m])
  have at: "tasks (not_begun g) (name t) = tasks (base f) t" using D(5) by simp
  have moved: "not_begun ?g = (not_begun g)\<lparr>store_state := d,
      tasks := (tasks (not_begun g))(name t := ghost (tasks (not_begun g) (name t)))\<rparr>"
    using D(5) by (simp add: not_begun_def pending_def)
  have snd: "sound (not_begun ?g)" unfolding moved by (rule sound_ghost [OF O(1)]) (use at t(1) in simp)
  then have "drops_ok ?g" using ok t(2) D(6) [of t] by (auto simp: drops_ok_def)
  moreover have "failed (base f') \<or> K (not_begun ?g)"
  proof (cases "failed (base f)")
    case False
    then have K: "K (not_begun g)" using K by blast
    have here: "store_state (not_begun g) = store_state (base f)" using mirrors_fields(2) [OF M] by simp
    have d: "store_state (base f') = d" by (simp add: f' quit_def)
    from run have disk: "K ((not_begun g)\<lparr>store_state := d\<rparr>)"
    proof cases
      case early
      then have "d = store_state (not_begun g)" using d here by (simp add: quit_def)
      moreover have "s\<lparr>store_state := store_state s\<rparr> = s" for s :: "('c, 'd) system" by simp
      ultimately show ?thesis using K by metis
    next
      case (after_read p i fl r bs e)
      then have "e = d" using d by (simp add: quit_def)
      then show ?thesis using read_law [OF O(1) K, of "name t" p i fl r bs d] after_read(2,3) here at by simp
    next
      case (after_store p i q bs e)
      then have "e = d" using d by (simp add: quit_def)
      then show ?thesis using store_law [OF O(1) K, of "name t" p i q bs d] after_store(2,3) here at by simp
    qed
    have "sound ((not_begun g)\<lparr>store_state := d\<rparr>)" using O(1) by (simp add: sound_def)
    from ghost_law [OF this disk, of "name t"] show ?thesis using moved at t(1) by simp
  qed (simp add: f' quit_def)
  moreover have "\<forall>x \<in> insert ?x X. x \<noteq> Idle \<and> (\<exists>n. n \<notin> range (name(t := m)) \<and> tasks (base ?g) n = x)"
  proof
    fix x assume "x \<in> insert ?x X"
    then consider "x = ?x" | "x \<in> X" by blast
    then show "x \<noteq> Idle \<and> (\<exists>n. n \<notin> range (name(t := m)) \<and> tasks (base ?g) n = x)"
    proof cases
      case 1
      have "name t \<notin> range (name(t := m))" using D(1) m(1) by (auto simp: inj_eq image_iff split: if_splits)
      moreover have "?x \<noteq> Idle" using t(1) by (cases "tasks (base f) t") simp_all
      ultimately show ?thesis using 1 by (intro conjI exI [of _ "name t"]) simp_all
    next
      case 2
      then obtain n where n: "x \<noteq> Idle" "n \<notin> range name" "tasks (base g) n = x" using X by blast
      then have "n \<noteq> m" "n \<noteq> name t" using m(2) by auto
      then show ?thesis using n by (intro conjI exI [of _ n]) (auto split: if_splits)
    qed
  qed
  ultimately show ?thesis unfolding upheld_def using M' by blast
qed

lemma upheld_mono:
  assumes "upheld Y f" and "X \<subseteq> Y"
  shows "upheld X f"
proof -
  obtain name g where "mirrors name f g" "drops_ok g" "failed (base f) \<or> K (not_begun g)"
    and "\<forall>x \<in> Y. x \<noteq> Idle \<and> (\<exists>n. n \<notin> range name \<and> tasks (base g) n = x)"
    using assms(1) unfolding upheld_def by blast
  then show ?thesis using assms(2) unfolding upheld_def by blast
qed

lemma upheld_run:
  assumes "fault_run allocate get whole store next_of f f'" and "upheld X f" and "\<not> raced f'"
  shows "upheld X f'"
  using assms
proof (induction rule: fault_run.induct)
  case (continue f' t f'')
  have "raced f' \<Longrightarrow> raced f''"
    by (rule fault_step_raced [OF continue.hyps(2)])
  then have up: "upheld X f'" using continue.IH continue.prems by blast
  from continue.hyps(2) show ?case
  proof cases
    case act
    then show ?thesis using upheld_step [OF up] continue.prems(2) by blast
  next
    case gone
    then show ?thesis using upheld_mono [OF upheld_give_up [OF up]] by blast
  qed
qed simp

lemma upheld_initial:
  assumes "K (initial content n d)"
  shows "upheld {} (drop_initial content n d)"
proof -
  let ?f = "drop_initial content n d"
  have "mirrors (\<lambda>t. 2 * t) ?f ?f"
  proof -
    have "- range (\<lambda>t :: nat. 2 * t) = {n. odd n}" by (auto elim: evenE)
    moreover have "infinite {n :: nat. odd n}"
      unfolding infinite_iff_countable_subset by (rule exI [of _ "\<lambda>n. 2 * n + 1"]) (auto simp: inj_def)
    ultimately show ?thesis by (simp add: mirrors_def inj_def drop_initial_def initial_def)
  qed
  then show ?thesis unfolding upheld_def using initial_drops initial_not_begun assms by (metis empty_iff)
qed

end

text \<open>The invariant of pins and locks needs no more than soundness.\<close>

interpretation pins: kept allocate get whole store next_of "\<lambda>_. True" for allocate get whole store next_of
  by unfold_locales simp_all

text \<open>The invariant of the data on any page store.\<close>

lemma coherent_ghost:
  assumes inv: "coherent ok content next_of s" and snd: "sound s" and t: "suspended (tasks s t)"
  shows "coherent ok content next_of (s\<lparr>tasks := (tasks s)(t := ghost (tasks s t))\<rparr>)"
proof -
  note D = coherentD [OF inv]
  show ?thesis
    by (rule coherent_move [OF inv snd, of _ t "ghost (tasks s t)"])
      (use D(1) D(8) [of t] t in \<open>cases "tasks s t"; simp\<close>)+
qed

text \<open>The page a task is writing back is settled by none of the clauses until it is announced as written.\<close>

lemma coherent_disk:
  assumes inv: "coherent ok content next_of s" and ok: "ok d" "next_of d = next_of (store_state s)"
    and d: "content d = content (store_state s) \<or>
      (\<exists>t q bs. task_flush (tasks s t) = Some (q, bs) \<and> content d = (content (store_state s))(q := bs))"
  shows "coherent ok content next_of (s\<lparr>store_state := d\<rparr>)"
proof -
  note D = coherentD [OF inv]
  have same: "content d p = content (store_state s) p"
    if p: "flushing s p = None \<or> page_table (pool s) p \<noteq> None \<and> fetching s p = None" for p
  proof -
    have "p \<noteq> q" if "task_flush (tasks s t) = Some (q, bs)" for t q bs
      using D(7) [of t] that p by (auto simp: flush_ok_def)
    then show ?thesis using d by auto
  qed
  show ?thesis
  proof (rule coherentI)
    show "data_ok content (s\<lparr>store_state := d\<rparr>)"
      using D(6) same by (simp add: data_ok_def)
    show "task_ok content next_of (s\<lparr>store_state := d\<rparr>) (tasks (s\<lparr>store_state := d\<rparr>) t)" for t
      using D(8) [of t] same ok(2) by (cases "tasks s t") (auto simp: page_allocated_def)
  qed (use D ok in \<open>simp_all add: loads_ok_def flushes_ok_def channels_ok_def pages_ok_def page_allocated_def flush_ok_def\<close>)
qed

sublocale page_store < faults: kept allocate get whole store next_of
    "\<lambda>s. good \<longrightarrow> coherent ok content next_of s"
proof (unfold_locales, goal_cases)
  case (1 t s s')
  then show ?case using step_coherent by blast
next
  case (2 s t)
  then show ?case using coherent_ghost by blast
next
  case (3 s t p i fl r bs d)
  then show ?case using read_law coherent_disk coherentD(1) by metis
next
  case (4 s t p i q bs d)
  show ?case
  proof
    assume good
    then have inv: "coherent ok content next_of s" using 4(2) by simp
    have fl: "task_flush (tasks s t) = Some (q, bs)" using 4(3) by auto
    then have "flushing s q \<noteq> None" "length bs = PAGE_SIZE"
      using coherentD(7) [OF inv, of t] by (simp_all add: flush_ok_def)
    moreover from this have "unat (pid_page_index q) < next_of (store_state s) (pid_table_id q)"
      using coherentD(5) [OF inv] by (auto simp: pages_ok_def page_allocated_def)
    ultimately have "ok d \<and> content d = (content (store_state s))(q := bs) \<and> next_of d = next_of (store_state s)"
      using write_law [OF \<open>good\<close> coherentD(1) [OF inv] _ _ 4(4)] by blast
    then show "coherent ok content next_of (s\<lparr>store_state := d\<rparr>)"
      using coherent_disk [OF inv] fl by blast
  qed
qed

context page_store
begin

lemma upheld_start: "ok d \<Longrightarrow> faults.upheld {} (drop_initial (content d) n d)"
  by (rule faults.upheld_initial) (simp add: initial_coherent)

lemma upheld_mirror:
  assumes good and "faults.upheld X f" and "\<not> failed (base f)"
  obtains name g where "mirrors name f g" and "drops_ok g" and "coherent ok content next_of (not_begun g)"
    and "\<forall>x \<in> X. \<exists>n. n \<notin> range name \<and> tasks (base g) n = x"
proof -
  obtain name g where M: "mirrors name f g" and "drops_ok g" and "coherent ok content next_of (not_begun g)"
    and "\<forall>x \<in> X. \<exists>n. n \<notin> range name \<and> tasks (base g) n = x"
    using assms unfolding faults.upheld_def by blast
  then show thesis using that [OF M] by blast
qed

lemma upheld_data:
  assumes good and "faults.upheld X f" and "\<not> failed (base f)" and p: "p \<notin> suspect (base f)"
  shows "tasks (base f) t = Reader p i \<or> tasks (base f) t = Writer p i \<Longrightarrow>
      frame_data (frames (pool (base f)) ! i) = expected (base f) p"
    and "page_table (pool (base f)) p = None \<Longrightarrow> flushing (base f) p = None \<Longrightarrow>
      content (store_state (base f)) p = expected (base f) p"
proof -
  obtain name g where M: "mirrors name f g" and ok: "drops_ok g"
    and inv: "coherent ok content next_of (not_begun g)"
    by (rule upheld_mirror [OF assms(1-3)])
  have same: "pool (base g) = pool (base f)" "store_state (base g) = store_state (base f)"
    "expected (base g) = expected (base f)" "suspect (base g) = suspect (base f)"
    by (rule mirrors_fields [OF M])+
  note O = drops_okD(1) [OF ok]
  have p': "p \<notin> suspect (not_begun g)" using p same by simp
  note data = coherent_data [OF inv O p']
  show "frame_data (frames (pool (base f)) ! i) = expected (base f) p"
    if t: "tasks (base f) t = Reader p i \<or> tasks (base f) t = Writer p i"
  proof -
    have t: "tasks (not_begun g) (name t) = Reader p i \<or> tasks (not_begun g) (name t) = Writer p i"
      using t mirrorsD(5) [OF M] by simp
    then have "i < length (frames (pool (not_begun g)))" using guards_kept [OF O] by blast
    then show ?thesis using data(1) [OF t] same by (simp add: raise_nth split: if_splits)
  qed
  show "content (store_state (base f)) p = expected (base f) p"
    if "page_table (pool (base f)) p = None" "flushing (base f) p = None"
    using data(2) that same by simp
qed

text \<open>What an operation that was given up leaves behind.\<close>

lemma upheld_lost:
  assumes good and "faults.upheld X f" and "\<not> failed (base f)"
    and x: "x \<in> X" "task_frame x = Some (p, i)"
  shows "page_table (pool (base f)) p = Some i" and "0 < frame_pin_count (frames (pool (base f)) ! i)"
    and "i \<notin> evictable (bpm_evictor (pool (base f)))"
    and "task_load x = Some q \<or> task_flush x = Some (q, bs) \<Longrightarrow>
      tasks (base f) u \<noteq> Pinned q j \<and> tasks (base f) u \<noteq> Reader q j \<and> tasks (base f) u \<noteq> Writer q j"
proof -
  obtain name g where M: "mirrors name f g" and ok: "drops_ok g"
    and inv: "coherent ok content next_of (not_begun g)"
    and X: "\<forall>x \<in> X. \<exists>n. n \<notin> range name \<and> tasks (base g) n = x"
    by (rule upheld_mirror [OF assms(1-3)])
  obtain n where n: "n \<notin> range name" "tasks (base g) n = x" using X x(1) by blast
  have pool: "pool (base g) = pool (base f)" by (rule mirrors_fields [OF M])
  note D = drops_okD [OF ok] and C = coherentD [OF inv]
  have held: "task_frame (tasks (base g) n) = Some (p, i)" using n(2) x(2) by simp
  have i: "i \<notin> pending g" by (rule held_not_pending [OF ok mirrorsD(8) [OF M n(1)] held])
  note pinned = holder_pinned [OF D(2) held]
  show tab: "page_table (pool (base f)) p = Some i" using pins_invD(3) [OF D(2) held] pool by simp
  show "0 < frame_pin_count (frames (pool (base f)) ! i)" using pinned i pool by (auto simp: raise_nth)
  show "i \<notin> evictable (bpm_evictor (pool (base f)))"
    using pool_exceptD(5) [OF pins_invD(1) [OF D(2), unfolded pool_ok_def], of i] pinned pool
      pool_exceptD(6) [OF pins_invD(1) [OF D(2), unfolded pool_ok_def], of p i] tab
    by (auto simp: frame_ok_def Let_def)
  show "tasks (base f) u \<noteq> Pinned q j \<and> tasks (base f) u \<noteq> Reader q j \<and> tasks (base f) u \<noteq> Writer q j"
    if q: "task_load x = Some q \<or> task_flush x = Some (q, bs)"
  proof (rule ccontr)
    assume "\<not> ?thesis"
    then have u: "tasks (base g) (name u) \<in> {Pinned q j, Reader q j, Writer q j}"
      using mirrorsD(5) [OF M, of u] by auto
    then have "fetching (base g) q = None" using C(8) [of "name u"] by auto
    moreover have "task_frame (tasks (base g) (name u)) = Some (q, j)" using u by auto
    then have "page_table (pool (base g)) q = Some j" using pins_invD(3) [OF D(2)] by fastforce
    moreover have "(\<exists>c. fetching (base g) q = Some c) \<longleftrightarrow> (\<exists>v. task_load (tasks (base g) v) = Some q)"
      using C(3) by (simp add: loads_ok_def)
    then have "task_load x = Some q \<Longrightarrow> fetching (base g) q \<noteq> None" using n(2) by blast
    moreover have "task_flush x = Some (q, bs) \<Longrightarrow> page_table (pool (base g)) q \<noteq> None \<Longrightarrow> fetching (base g) q \<noteq> None"
      using C(7) [of n] n(2) by (simp add: flush_ok_def)
    ultimately show False using q by auto
  qed
qed

end

lemma fault_run_raced: "fault_run allocate get whole store next_of f f' \<Longrightarrow> raced f \<Longrightarrow> raced f'"
  by (induction rule: fault_run.induct) (blast intro: fault_step_raced)+

lemma give_up_raced: "give_up get store t f f' \<Longrightarrow> raced f' = raced f \<and> failed (base f') = failed (base f)"
  by (auto elim!: give_up.cases simp: quit_def)

section \<open>Properties\<close>

text \<open>
  C5: However the tasks are interleaved, whatever fails and whichever operations are given up half-way,
  as long as the race of \<open>drop_race_reachable\<close> has not happened, a guard that is not being dropped
  keeps its frame: its page stays in the page table at that frame, the frame holds that page, is
  pinned and cannot be evicted; every other guard on the frame is a guard on the same page, and there
  is none beside a write guard.
\<close>

theorem guards_keep_frames:
  assumes "fault_run allocate get whole store next_of (drop_initial content n d) f" and "\<not> raced f"
    and "tasks (base f) t = Reader p i \<or> tasks (base f) t = Writer p i" and "dropping f t = None"
  shows "page_table (pool (base f)) p = Some i \<and> i < length (frames (pool (base f))) \<and>
    frame_page_id (frames (pool (base f)) ! i) = Some p \<and> 0 < frame_pin_count (frames (pool (base f)) ! i) \<and>
    i \<notin> evictable (bpm_evictor (pool (base f))) \<and>
    (\<forall>u q. tasks (base f) u = Reader q i \<or> tasks (base f) u = Writer q i \<longrightarrow>
       q = p \<and> (tasks (base f) t = Writer p i \<longrightarrow> u = t))"
proof -
  have "pins.upheld {} f" by (rule pins.upheld_run [OF assms(1) pins.upheld_initial assms(2)]) simp
  then obtain name g where M: "mirrors name f g" and ok: "drops_ok g" unfolding pins.upheld_def by blast
  note D = mirrorsD [OF M]
  have pool: "pool (base g) = pool (base f)" by (rule mirrors_fields [OF M])
  have "page_table (pool (base f)) p = Some i \<and> i < length (frames (pool (base f))) \<and>
    frame_page_id (frames (pool (base f)) ! i) = Some p \<and> 0 < frame_pin_count (frames (pool (base f)) ! i) \<and>
    i \<notin> evictable (bpm_evictor (pool (base f)))"
    and sole: "\<And>n q. tasks (base g) n = Reader q i \<or> tasks (base g) n = Writer q i \<Longrightarrow>
       q = p \<and> (tasks (base f) t = Writer p i \<longrightarrow> n = name t)"
    using drops_guards [OF ok, of "name t" p i] D(5,6) [of t] assms(3,4) pool by auto
  moreover have "q = p \<and> (tasks (base f) t = Writer p i \<longrightarrow> u = t)"
    if "tasks (base f) u = Reader q i \<or> tasks (base f) u = Writer q i" for u q
    using sole [of "name u" q] that D(1) D(5) [of u] by (simp add: inj_eq)
  ultimately show ?thesis by blast
qed

text \<open>
  C2: As long as no write and no allocation has failed and the race of \<open>drop_race_reachable\<close> has not
  happened, the cache is coherent with the disk however the tasks are interleaved, whichever reads
  fail or come short and whichever operations are given up half-way: a guard on a page shows the
  bytes last written to the page by any task (or those on the disk at the start), and a page that is
  neither in the cache nor being flushed has them on the disk. Exempt are the pages that were created
  in an evicted frame (\<open>create_page_correct\<close>) or of which a read came short (\<open>write_read_page\<close>), until
  they are written again.
\<close>

theorem cache_coherent:
  fixes os :: "('w, 'f) os_fs"
  assumes "os_documented os files path_of cursor"
    and "disk_state_ok files (\<lambda>h. path_of (tokio_file h)) d"
    and "fault_run (disk_allocate (tokio_file_system os)) (disk_read (tokio_file_system os))
      (disk_whole (tokio_file_system os) files)
      (disk_write (tokio_file_system os)) (disk_next files) (drop_initial (disk_content files d) n d) f"
    and "\<not> raced f" and "\<not> failed (base f)" and "p \<notin> suspect (base f)"
  shows "(tasks (base f) t = Reader p i \<or> tasks (base f) t = Writer p i \<longrightarrow>
       frame_data (frames (pool (base f)) ! i) = expected (base f) p) \<and>
    (page_table (pool (base f)) p = None \<and> flushes (page_io_processing (pool (base f))) p = None \<longrightarrow>
       disk_content files (store_state (base f)) p = expected (base f) p)"
proof -
  have "tokio.disk.faults.upheld os files path_of cursor {} f"
    by (rule tokio.disk.faults.upheld_run [OF assms(3) tokio.disk.upheld_start [OF assms(2)] assms(4)])
  from tokio.disk.upheld_data [OF assms(1) this assms(5,6)] show ?thesis by blast
qed

text \<open>
  C11: Giving up an operation half-way has effects that last for ever: in every continuation without a
  failed write or allocation and without the race of a drop, the frame it had taken stays pinned,
  keeps its page in the page table and is never evicted, although no task has it; and no task ever
  gets a guard again on the page that was being loaded, nor on one whose write-back was not over.
\<close>

theorem abandoned_for_ever:
  fixes os :: "('w, 'f) os_fs" and files :: "'w \<Rightarrow> disk"
  defines "A \<equiv> disk_allocate (tokio_file_system os)" and "G \<equiv> disk_read (tokio_file_system os)"
    and "W \<equiv> disk_whole (tokio_file_system os) files" and "S \<equiv> disk_write (tokio_file_system os)"
  assumes "os_documented os files path_of cursor"
    and "disk_state_ok files (\<lambda>h. path_of (tokio_file h)) d"
    and "fault_run A G W S (disk_next files) (drop_initial (disk_content files d) n d) f"
    and "give_up G S t f f1" and "task_frame (tasks (base f) t) = Some (p, i)"
    and "fault_run A G W S (disk_next files) f1 f'" and "\<not> raced f'" and "\<not> failed (base f')"
  shows "page_table (pool (base f')) p = Some i \<and> 0 < frame_pin_count (frames (pool (base f')) ! i) \<and>
    i \<notin> evictable (bpm_evictor (pool (base f'))) \<and>
    (\<forall>q bs. task_load (tasks (base f) t) = Some q \<or> task_flush (tasks (base f) t) = Some (q, bs) \<longrightarrow>
      (\<forall>u j. tasks (base f') u \<notin> {Pinned q j, Reader q j, Writer q j}))"
proof -
  let ?up = "tokio.disk.faults.upheld os files path_of cursor" and ?x = "ghost (tasks (base f) t)"
  have "\<not> raced f" using fault_run_raced [OF assms(10)] give_up_raced [OF assms(8)] assms(11) by blast
  then have "?up {} f"
    by (rule tokio.disk.faults.upheld_run [OF assms(7) [unfolded A_def G_def W_def S_def] tokio.disk.upheld_start [OF assms(6)]])
  then have "?up {?x} f1" by (rule tokio.disk.faults.upheld_give_up [OF _ assms(8) [unfolded G_def S_def]])
  then have up: "?up {?x} f'"
    by (rule tokio.disk.faults.upheld_run [OF assms(10) [unfolded A_def G_def W_def S_def] _ assms(11)])
  have "?x \<in> {?x}" "task_frame ?x = Some (p, i)" using assms(9) by simp_all
  note lost = tokio.disk.upheld_lost [OF assms(5) up assms(12) this]
  show ?thesis using lost(1-3) lost(4) by simp
qed

section \<open>Examples\<close>

lemma run_fault_run:
  "run allocate get whole store next_of s s' \<Longrightarrow> \<not> failed s' \<Longrightarrow>
   fault_run allocate get whole store next_of \<lparr>base = s, dropping = \<lambda>_. None, raced = False\<rparr>
     \<lparr>base = s', dropping = \<lambda>_. None, raced = False\<rparr>"
proof (induction rule: run.induct)
  case start
  show ?case by (rule fault_run.start)
next
  case (continue s' t s'')
  let ?f = "\<lparr>base = s', dropping = \<lambda>_. None, raced = False\<rparr>"
  have "drop_step allocate get whole store next_of t ?f \<lparr>base = s'', dropping = \<lambda>_. None, raced = False\<rparr>"
    using drop_step.act [of ?f t allocate get whole store next_of s''] continue.hyps(2) by (simp add: pending_def)
  moreover have "task_load (tasks s' t) = None \<or> tasks s'' t \<noteq> Idle"
    using continue.hyps(2) continue.prems by (cases rule: step.cases) (auto simp: after_fill_def split: option.splits)
  ultimately have "fault_step allocate get whole store next_of t ?f \<lparr>base = s'', dropping = \<lambda>_. None, raced = False\<rparr>"
    by (intro fault_step.act) simp_all
  moreover have "\<not> failed s'" using step_failed [OF continue.hyps(2)] continue.prems by blast
  ultimately show ?case using fault_run.continue [OF continue.IH] by blast
qed

abbreviation memory_faults where
  "memory_faults \<equiv> fault_run (disk_allocate memory_system) (disk_read memory_system)
      (disk_whole memory_system mem_files) (disk_write memory_system)
     (disk_next mem_files)"

abbreviation memory_fault_run where
  "memory_fault_run \<equiv> memory_faults (drop_initial (disk_content mem_files example_store) 2 example_store ::
       (nat, (memory, path tokio_file_handle) disk_state) dropping_system)"

text \<open>Task 0 holds a write guard on page 2, where it has stored some bytes.\<close>

lemma example_fault_guard:
  assumes "length bs = PAGE_SIZE"
  shows "\<exists>f i. memory_fault_run f \<and> tasks (base f) 0 = Writer (example_page 2) i \<and>
    dropping f 0 = None \<and> \<not> raced f \<and> \<not> failed (base f) \<and> suspect (base f) = {} \<and>
    expected (base f) (example_page 2) = bs"
proof -
  obtain s i where "memory_run example_start s" "tasks s = (\<lambda>_. Idle)(0 := Writer (example_page 2) i)" "\<not> failed s"
    "suspect s = {}" "expected s (example_page 2) = bs"
    using example_written [OF assms] by blast
  then show ?thesis using run_fault_run
    by (intro exI [of _ "\<lparr>base = s, dropping = \<lambda>_. None, raced = False\<rparr>"] exI [of _ i])
      (fastforce simp: drop_initial_def example_start_def)
qed

theorem guards_keep_frames_witness:
  "\<exists>f i. memory_fault_run f \<and> tasks (base f) 0 = Writer (example_page 2) i \<and>
     page_table (pool (base f)) (example_page 2) = Some i \<and> i \<notin> evictable (bpm_evictor (pool (base f)))"
proof -
  obtain f i where f: "memory_fault_run f" "\<not> raced f" "tasks (base f) 0 = Writer (example_page 2) i" "dropping f 0 = None"
    using example_fault_guard [of "replicate PAGE_SIZE 0"] by auto
  then show ?thesis using guards_keep_frames [OF f(1,2), of 0 "example_page 2" i] by blast
qed

theorem cache_coherent_witness:
  "\<exists>f i. memory_fault_run f \<and> tasks (base f) 0 = Writer (example_page 2) i \<and>
     frame_data (frames (pool (base f)) ! i) = replicate PAGE_SIZE 9"
proof -
  obtain f i where f: "memory_fault_run f" "\<not> raced f" "\<not> failed (base f)" "example_page 2 \<notin> suspect (base f)"
    and g: "tasks (base f) 0 = Writer (example_page 2) i" "expected (base f) (example_page 2) = replicate PAGE_SIZE 9"
    using example_fault_guard [of "replicate PAGE_SIZE 9"] by auto
  then show ?thesis
    using cache_coherent [OF memory_documented example_store_ok f, of 0 i] by auto
qed

text \<open>Task 0 claims a frame for page 0 and is dropped while it reads the page.\<close>

theorem abandoned_for_ever_witness:
  "\<exists>f i fl. memory_fault_run f \<and> tasks (base f) 0 = Reading (example_page 0) i fl \<and>
     (\<forall>f'. memory_faults (quit 0 (store_state (base f)) f) f' \<longrightarrow> \<not> raced f' \<longrightarrow> \<not> failed (base f') \<longrightarrow>
       i \<notin> evictable (bpm_evictor (pool (base f'))) \<and>
       (\<forall>u j. tasks (base f') u \<notin> {Pinned (example_page 0) j, Reader (example_page 0) j, Writer (example_page 0) j}))"
proof -
  obtain s i fl where s: "memory_run example_start s" "tasks s 0 = Reading (example_page 0) i fl" "\<not> failed s"
    using example_reading by blast
  let ?f = "\<lparr>base = s, dropping = \<lambda>_. None, raced = False\<rparr>"
  have f: "memory_fault_run ?f" using run_fault_run [OF s(1,3)] by (simp add: drop_initial_def example_start_def)
  have q: "give_up (disk_read memory_system) (disk_write memory_system) 0 ?f (quit 0 (store_state (base ?f)) ?f)"
    by (rule give_up.early) (simp_all add: s(2))
  have p: "task_frame (tasks (base ?f) 0) = Some (example_page 0, i)"
    and l: "task_load (tasks (base ?f) 0) = Some (example_page 0)" using s(2) by simp_all
  have "i \<notin> evictable (bpm_evictor (pool (base f'))) \<and>
       (\<forall>u j. tasks (base f') u \<notin> {Pinned (example_page 0) j, Reader (example_page 0) j, Writer (example_page 0) j})"
    if "memory_faults (quit 0 (store_state (base ?f)) ?f) f'" "\<not> raced f'" "\<not> failed (base f')" for f'
    using abandoned_for_ever [OF memory_documented example_store_ok f q p that] l by blast
  then show ?thesis using f s(2) by (intro exI [of _ ?f] exI [of _ i] exI [of _ fl]) simp
qed

end
