(* ===== verification/Record_Store.thy ===== *)
theory Record_Store
  imports Leaf_Map Pool_Faults
begin

text \<open>
  The parts together: a leaf whose records were inserted and updated is stored through the guards of
  the buffer pool, and read again through any later guard, by any task, after any evictions and
  fetches; its keys are found there and its records are decoded to the values that went in.
\<close>

section \<open>Values by key\<close>

definition find_values :: "'d decimal_ops \<Rightarrow> table_definition \<Rightarrow> bytes \<Rightarrow> 'd key \<Rightarrow>
    (serialization_error, 'd record_values) rust_result option option" where
  "find_values D t page k = do {
     r \<leftarrow> read_record D t page k;
     (case r of None \<Rightarrow> Some None | Some b \<Rightarrow> map_option Some (deserialize D (td_columns t) b))
   }"

text \<open>The run on the serialized records is the run on the records.\<close>

lemma map_run_content:
  "map_run same key_of content ops ress (\<lambda>k. map_option content (M k)) =
     map_option (\<lambda>M k. map_option content (M k)) (map_run same key_of (\<lambda>r. r) ops ress M)"
proof (induction ops arbitrary: ress M)
  case Nil
  show ?case by (cases ress) simp_all
next
  case (Cons op ops)
  show ?case
  proof (cases ress)
    case (Cons res rest)
    have "admits (map_option content (M (key_of (op_record op)))) op res =
        admits (M (key_of (op_record op))) op res" by (cases op) simp_all
    moreover have "after same (key_of (op_record op)) (content (op_record op)) res (\<lambda>k. map_option content (M k)) =
        (\<lambda>k. map_option content (after same (key_of (op_record op)) (op_record op) res M k))"
      by (auto simp: after_def put_def fun_eq_iff split: sum.splits)
    ultimately show ?thesis using Cons.IH Cons by simp
  qed simp
qed

lemma map_run_values:
  "map_run same key_of (\<lambda>r. r) ops ress M = Some M' \<Longrightarrow> M' k = Some r \<Longrightarrow>
     M k = Some r \<or> r \<in> op_record ` set ops"
proof (induction ops arbitrary: ress M)
  case (Cons op ops)
  obtain res rest where "map_run same key_of (\<lambda>r. r) ops rest
      (after same (key_of (op_record op)) (op_record op) res M) = Some M'"
    using Cons.prems(1) by (auto simp: map_run_Cons)
  then have "after same (key_of (op_record op)) (op_record op) res M k = Some r \<or> r \<in> op_record ` set ops"
    using Cons.IH Cons.prems(2) by blast
  then show ?case by (auto simp: after_def put_def split: sum.splits if_splits)
qed (simp add: map_run_Nil)

text \<open>A record of the table: it can be serialized, found by its key, and read again.\<close>

definition is_row :: "'d decimal_ops \<Rightarrow> table_definition \<Rightarrow> string list \<Rightarrow> 'd record_values \<Rightarrow> bool" where
  "is_row D t pk r \<longleftrightarrow> record_fits D t pk r \<and> list_all2 null_allowed (td_columns t) r"

lemma row_layout:
  assumes "decimal_laws D" and "is_row D t pk r"
  shows "deserialize D (td_columns t) (record_layout D r) = Some (Ok r)"
  using deserialize_layout [OF assms(1), of "td_columns t" r] assms(2) by (simp add: is_row_def record_fits_def)

text \<open>An empty leaf that a sequence of records was inserted in or updated.\<close>

lemma filled_leaf:
  assumes D: "decimal_laws D" and rows: "\<forall>op \<in> set ops. is_row D t pk (op_record op)"
    and ok: "leaf_ok D t (page_view leaf)" and empty: "leaf_records leaf = []"
  shows "\<exists>ress leaf' M. run_ops (\<lambda>l r. insert_record D l r t) (\<lambda>l r. update_record D l r t) ops leaf = Some (ress, leaf') \<and>
    page_inv (page_view leaf') \<and>
    map_run (key_eq D) (key_values pk (td_columns t)) (\<lambda>r. r) ops ress (\<lambda>_. None) = Some M \<and>
    (\<forall>k. find_values D t (page_view leaf') k = Some (map_option Ok (M k)))"
proof -
  have fits: "\<forall>op \<in> set ops. record_fits D t pk (op_record op)" using rows by (simp add: is_row_def)
  obtain ress leaf' where run:
    "run_ops (\<lambda>l r. insert_record D l r t) (\<lambda>l r. update_record D l r t) ops leaf = Some (ress, leaf')"
    "leaf_ok D t (page_view leaf')"
    and m: "map_run (key_eq D) (key_values pk (td_columns t)) (record_layout D) ops ress (leaf_map D t leaf) =
      Some (leaf_map D t leaf')"
    using leaf.run_refines [of D t leaf ops pk] D ok fits by auto
  have "leaf_map D t leaf = (\<lambda>k. map_option (record_layout D) None)" by (simp add: empty find_record_def fun_eq_iff)
  then have "map_option (\<lambda>M k. map_option (record_layout D) (M k))
      (map_run (key_eq D) (key_values pk (td_columns t)) (\<lambda>r. r) ops ress (\<lambda>_. None)) = Some (leaf_map D t leaf')"
    using m map_run_content [of "key_eq D" _ "record_layout D" ops ress "\<lambda>_. None"] by simp
  then obtain M where M: "map_run (key_eq D) (key_values pk (td_columns t)) (\<lambda>r. r) ops ress (\<lambda>_. None) = Some M"
    "leaf_map D t leaf' = (\<lambda>k. map_option (record_layout D) (M k))"
    by auto
  have "find_values D t (page_view leaf') k = Some (map_option Ok (M k))" for k
  proof (cases "M k")
    case (Some r)
    then have "is_row D t pk r" using map_run_values [OF M(1)] rows by fastforce
    then show ?thesis using Some M(2) row_layout [OF D] read_record_eq [OF run(2) D, of k]
      by (simp add: find_values_def)
  qed (use M(2) read_record_eq [OF run(2) D, of k] in \<open>simp add: find_values_def\<close>)
  then show ?thesis using run M(1) by (auto simp: leaf_ok_def)
qed

section \<open>Through the buffer pool\<close>

text \<open>
  C3: Records put into a leaf are found again by their keys: if the last bytes that any task has stored
  in a page are those of a leaf that a sequence of records was inserted in or updated, then every
  guard on the page, of whatever task and after whatever evictions, write-backs and fetches, shows
  bytes in which the binary search and the decoder find under each key the record that the operations
  have left there, as long as no write or allocation has failed, no fetch has hit a half-dropped frame
  (\<open>drop_race_reachable\<close>), and the page is not one that \<open>cache_coherent\<close> exempts, created in an evicted
  frame or read short and not written since. Reads may fail, and operations may be given up half-way.
\<close>

theorem records_found_again:
  fixes os :: "('w, 'f) os_fs"
  assumes "os_documented os files path_of cursor"
    and "disk_state_ok files (\<lambda>h. path_of (tokio_file h)) d"
    and "fault_run (disk_allocate (tokio_file_system os)) (disk_read (tokio_file_system os))
      (disk_whole (tokio_file_system os) files)
      (disk_write (tokio_file_system os)) (disk_next files) (drop_initial (disk_content files d) n d) f"
    and "\<not> raced f" and "\<not> failed (base f)" and "p \<notin> suspect (base f)"
    and "decimal_laws D" and "\<forall>op \<in> set ops. is_row D t pk (op_record op)"
    and "run_ops (\<lambda>l r. insert_record D l r t) (\<lambda>l r. update_record D l r t) ops
      (leaf_node_view_new p (init_buffer PT_LeafNode parent)) = Some (ress, leaf)"
    and "expected (base f) p = page_view leaf"
    and "tasks (base f) u = Reader p i \<or> tasks (base f) u = Writer p i"
  shows "\<exists>M. map_run (key_eq D) (key_values pk (td_columns t)) (\<lambda>r. r) ops ress (\<lambda>_. None) = Some M \<and>
    (\<forall>k. find_values D t (frame_data (frames (pool (base f)) ! i)) k = Some (map_option Ok (M k)))"
proof -
  have "tokio.disk.faults.upheld os files path_of cursor {} f"
    by (rule tokio.disk.faults.upheld_run [OF assms(3) tokio.disk.upheld_start [OF assms(2)] assms(4)])
  from tokio.disk.upheld_data(1) [OF assms(1) this assms(5,6,11)]
  have "frame_data (frames (pool (base f)) ! i) = page_view leaf" using assms(10) by simp
  then show ?thesis
    using filled_leaf [OF assms(7,8), of "leaf_node_view_new p (init_buffer PT_LeafNode parent)"] assms(9)
    by (simp add: leaf_node_view_new_def empty_leaf_ok init_buffer_inv)
qed

text \<open>One record, inserted in an empty leaf.\<close>

lemma example_filled:
  "\<exists>leaf. run_ops (\<lambda>l r. insert_record example_decimal l r example_table) (\<lambda>l r. update_record example_decimal l r example_table)
     [Insert (big_record 1)] (leaf_node_view_new p (init_buffer PT_LeafNode None)) = Some ([Ok 0], leaf) \<and>
   page_inv (page_view leaf)"
proof -
  let ?leaf = "leaf_node_view_new p (init_buffer PT_LeafNode None)"
  have view: "page_view ?leaf = init_buffer PT_LeafNode None" by (simp add: leaf_node_view_new_def)
  have ok: "leaf_ok example_decimal example_table (page_view ?leaf)" by (simp only: view empty_leaf_ok)
  have keys: "leaf_keys example_decimal example_table (init_buffer PT_LeafNode None) = []"
    by (simp add: leaf_keys_def empty_page(3))
  show ?thesis
    using insert_record_steps [OF example_decimal_laws ok big_fits, of 1, unfolded view keys big_key empty_page(2,3) length_big]
  proof (elim exE conjE, goal_cases)
    case (1 leaf res)
    have "res = Ok 0" using 1(4) by (cases res) (auto simp: key_found_def insertion_point_def unat_eq_zero)
    moreover have "page_inv (page_view leaf)" using 1(2) by (simp only: leaf_ok_def)
    ultimately show ?case using 1(1) by (intro exI [of _ leaf]) simp
  qed
qed

theorem records_found_again_witness:
  "\<exists>f i. memory_fault_run f \<and> tasks (base f) 0 = Writer (example_page 2) i \<and>
     find_values example_decimal example_table (frame_data (frames (pool (base f)) ! i)) [V_Int 1] =
       Some (Some (Ok (big_record 1)))"
proof -
  obtain leaf where leaf: "run_ops (\<lambda>l r. insert_record example_decimal l r example_table)
      (\<lambda>l r. update_record example_decimal l r example_table)
      [Insert (big_record 1)] (leaf_node_view_new (example_page 2) (init_buffer PT_LeafNode None)) = Some ([Ok 0], leaf)"
    and inv: "page_inv (page_view leaf)"
    using example_filled [of "example_page 2"] by (elim exE conjE) (rule that)
  have len: "length (page_view leaf) = PAGE_SIZE" using page_invD(1) [OF inv] by (simp only: PAGE_SIZE_def)
  obtain f i where f: "memory_fault_run f" "\<not> raced f" "\<not> failed (base f)" "example_page 2 \<notin> suspect (base f)"
    and g: "tasks (base f) 0 = Writer (example_page 2) i" "expected (base f) (example_page 2) = page_view leaf"
    using example_fault_guard [OF len] by auto
  have "is_row example_decimal example_table [''id''] (big_record 1)"
    using big_fits by (simp add: is_row_def null_allowed_def example_table_def big_record_def)
  then have rows: "\<forall>op \<in> set [Insert (big_record 1)]. is_row example_decimal example_table [''id''] (op_record op)"
    by simp
  obtain M where m: "map_run (key_eq example_decimal) (key_values [''id''] (td_columns example_table)) (\<lambda>r. r)
      [Insert (big_record 1)] [Ok 0] (\<lambda>_. None) = Some M"
    and found: "find_values example_decimal example_table (frame_data (frames (pool (base f)) ! i)) [V_Int 1] =
      Some (map_option Ok (M [V_Int 1]))"
    using records_found_again [OF memory_documented example_store_ok f example_decimal_laws rows
        leaf g(2) disjI2 [OF g(1)]] by blast
  have "M [V_Int 1] = Some (big_record 1)"
    using m unfolding map_run_Cons map_run_Nil by (auto simp: after_def put_def big_key int_key_eq)
  then show ?thesis using f(1) g(1) found by auto
qed

end
