(* ===== verification/Pool_Progress.thy ===== *)
theory Pool_Progress
  imports Pool_Drops
begin

text \<open>
  Every fetch and every creation comes to its end: no operation waits for another in a circle, none
  waits on a channel that nobody sends on or that is closed, and each step of an operation brings it
  closer to its end, so that the operations under way are all over after a bounded number of their
  steps, in whatever order they take them, each with its page pinned in the frame it has taken.
\<close>

section \<open>Steps of operations under way\<close>

text \<open>How many steps an operation has left at most; an unpin that has begun has one.\<close>

fun steps_left :: "'c task \<Rightarrow> nat" where
  "steps_left (Hit_Check p i) = 3"
| "steps_left (Fetch_Wait p i c) = 2"
| "steps_left (Miss_Check p i fl) = 5"
| "steps_left (Flush_Wait p i fl c) = 4"
| "steps_left (Reading p i fl) = 3"
| "steps_left (Filling p i fl bs) = 2"
| "steps_left (Writing_Back p i q bs) = 1"
| "steps_left (Create_Flush p i q bs) = 1"
| "steps_left _ = 0"

definition left :: "('c, 'd) dropping_system \<Rightarrow> nat \<Rightarrow> nat" where
  "left f t = (if dropping f t \<noteq> None then min 1 (steps_left (tasks (base f) t)) else steps_left (tasks (base f) t))"

definition total_left :: "('c, 'd) dropping_system \<Rightarrow> nat" where
  "total_left f = (\<Sum>t | busy (tasks (base f) t). left f t)"

text \<open>A run in which only tasks that are inside an operation make steps.\<close>

inductive busy_run ::
  "(u32 \<Rightarrow> 'd \<Rightarrow> ((io_error, page_id) rust_result \<times> 'd) option) \<Rightarrow>
   (page_id \<Rightarrow> bytes \<Rightarrow> 'd \<Rightarrow> (io_error, unit) rust_result \<times> bytes \<times> 'd) \<Rightarrow>
   (page_id \<Rightarrow> 'd \<Rightarrow> bool) \<Rightarrow>
   (page_id \<Rightarrow> bytes \<Rightarrow> 'd \<Rightarrow> (io_error, unit) rust_result \<times> 'd) \<Rightarrow>
   ('d \<Rightarrow> u32 \<Rightarrow> nat) \<Rightarrow> ('c, 'd) dropping_system \<Rightarrow> nat \<Rightarrow> ('c, 'd) dropping_system \<Rightarrow> bool"
  for allocate get whole store next_of f where
  none: "busy_run allocate get whole store next_of f 0 f"
| more: "busy_run allocate get whole store next_of f k f' \<Longrightarrow> busy (tasks (base f') t) \<Longrightarrow>
    drop_step allocate get whole store next_of t f' f'' \<Longrightarrow> busy_run allocate get whole store next_of f (Suc k) f''"

lemma steps_left_pos: "0 < steps_left x \<longleftrightarrow> busy x"
  by (cases x) simp_all

lemma busy_step_left:
  "step allocate get whole store next_of t s s' \<Longrightarrow> busy (tasks s t) \<Longrightarrow> steps_left (tasks s' t) < steps_left (tasks s t)"
  by (cases rule: step.cases) (auto simp: after_fill_def after_write_def split: option.splits sum.splits)

lemma busy_drop_step:
  assumes "drop_step allocate get whole store next_of t f f'" and "busy (tasks (base f) t)"
  shows "left f' t < left f t" and "u \<noteq> t \<Longrightarrow> left f' u = left f u \<and> (busy (tasks (base f') u) = busy (tasks (base f) u))"
    and "raced f' = raced f"
proof -
  from assms(1) have "left f' t < left f t \<and> (u \<noteq> t \<longrightarrow> left f' u = left f u \<and> (busy (tasks (base f') u) = busy (tasks (base f) u)))
      \<and> raced f' = raced f"
  proof cases
    case (act s)
    then show ?thesis
      using busy_step_left [OF act(3) assms(2)] step_others [OF act(3), of u] assms(2) by (auto simp: left_def)
  next
    case (decrement i fr fr')
    then show ?thesis using assms(2) by (cases "tasks (base f) t") (auto simp: left_def)
  next
    case (report i ev)
    then show ?thesis using assms(2) steps_left_pos [of "tasks (base f) t"] by (auto simp: left_def)
  qed
  then show "left f' t < left f t" "u \<noteq> t \<Longrightarrow> left f' u = left f u \<and> (busy (tasks (base f') u) = busy (tasks (base f) u))"
    "raced f' = raced f" by blast+
qed

lemma total_decreases:
  assumes "drop_step allocate get whole store next_of t f f'" and "busy (tasks (base f) t)"
    and fin: "finite {u. busy (tasks (base f) u)}"
  shows "total_left f' < total_left f" and "finite {u. busy (tasks (base f') u)}"
proof -
  note b = busy_drop_step [OF assms(1,2)]
  let ?B = "{u. busy (tasks (base f) u)}" and ?B' = "{u. busy (tasks (base f') u)}"
  have sub: "?B' \<subseteq> ?B" using b(2) assms(2) by (metis mem_Collect_eq subsetI)
  then show "finite ?B'" using fin by (rule finite_subset)
  have "total_left f' \<le> (\<Sum>u \<in> ?B. left f' u)"
    unfolding total_left_def using fin sub by (intro sum_mono2) simp_all
  also have "\<dots> < (\<Sum>u \<in> ?B. left f u)"
  proof (rule sum_strict_mono_ex1 [OF fin])
    show "\<forall>u \<in> ?B. left f' u \<le> left f u" using b(1,2) by (metis le_less order_refl)
    show "\<exists>u \<in> ?B. left f' u < left f u" using b(1) assms(2) by blast
  qed
  finally show "total_left f' < total_left f" by (simp add: total_left_def)
qed

lemma busy_run_bounded:
  assumes "busy_run allocate get whole store next_of f k f'" and "finite {u. busy (tasks (base f) u)}"
  shows "k + total_left f' \<le> total_left f \<and> finite {u. busy (tasks (base f') u)} \<and> raced f' = raced f"
  using assms(1)
proof (induction rule: busy_run.induct)
  case none
  show ?case using assms(2) by simp
next
  case (more k f' t f'')
  then show ?case using total_decreases [OF more.hyps(3,2)] busy_drop_step(3) [OF more.hyps(3,2)] by auto
qed

lemma busy_run_drop_run:
  "busy_run allocate get whole store next_of f k f' \<Longrightarrow> drop_run allocate get whole store next_of f0 f \<Longrightarrow>
   drop_run allocate get whole store next_of f0 f'"
  by (induction rule: busy_run.induct) (auto intro: drop_run.continue)

lemma busy_finite:
  assumes "drops_ok f"
  shows "finite {u. busy (tasks (base f) u)}"
  by (rule finite_subset [OF _ pins_invD(2) [OF drops_okD(2) [OF assms]]]) auto

section \<open>Operations keep their frames to the end\<close>

text \<open>
  \<open>under_way x y\<close>: a task that was at \<open>x\<close> is at \<open>y\<close> after steps of operations under way. If it was inside an
  operation, it is still inside it with the same page and frame, or the operation has returned them.
\<close>

definition under_way :: "'c task \<Rightarrow> 'c task \<Rightarrow> bool" where
  "under_way x y \<longleftrightarrow>
     (if busy x then task_frame y = task_frame x \<and> (busy y \<or> (\<exists>p i. y = Pinned p i)) else y = x)"

lemma under_way_trans: "under_way x y \<Longrightarrow> under_way y z \<Longrightarrow> under_way x z"
  by (auto simp: under_way_def split: if_splits)

text \<open>While nothing has failed, no task waits on a closed channel.\<close>

lemma wait_not_closed:
  assumes inv: "coherent ok content next_of s" and t: "tasks s t = Fetch_Wait p i c"
  shows "\<not> channel_closed s c"
  using coherentD(8) [OF inv, of t] t by (auto simp: channel_closed_def)

lemma busy_step_way:
  assumes inv: "drops_ok f" and coh: "coherent ok content next_of (not_begun f)"
    and run: "drop_step allocate get whole store next_of t f f'" and t: "busy (tasks (base f) t)"
    and fine: "\<not> failed (base f')"
  shows "under_way (tasks (base f) u) (tasks (base f') u)"
proof (cases "u = t")
  case False
  then show ?thesis using drop_step_others [OF run] by (auto simp: under_way_def)
next
  case True
  have wait: "\<not> channel_closed (base f) c" if "tasks (base f) t = Fetch_Wait p i c" for p i c
    using wait_not_closed [OF coh, of t] that by simp
  from run have "under_way (tasks (base f) t) (tasks (base f') t)"
  proof cases
    case (act s)
    have "under_way (tasks (base f) t) (tasks s t)"
      using act(3) t fine wait unfolding act(1)
      by (cases rule: step.cases)
        (auto simp: under_way_def after_fill_def after_write_def dest: flushed_ok(1) [OF disjI1] flushed_ok(1) [OF disjI2] split: option.split sum.splits)
    then show ?thesis using act(1) by simp
  next
    case (decrement i fr fr')
    then show ?thesis using t wait by (cases "tasks (base f) t") auto
  next
    case (report i ev)
    note D = drops_okD [OF inv]
    show ?thesis using D(3,6) [OF report(2)] t wait by (cases "tasks (base f) t") auto
  qed
  then show ?thesis using True by simp
qed

section \<open>Progress\<close>


context page_store
begin

text \<open>
  Whenever a task is inside a fetch or a creation, some such task is not blocked, or is done waiting
  and unpins its frame, and has a step that takes it to its next state.
\<close>

lemma operation_can_step:
  assumes good and "ok d" and "drop_run allocate get whole store next_of (drop_initial (content d) n d) f"
    and "\<not> raced f" and "\<not> failed (base f)" and "busy (tasks (base f) t)"
  shows "\<exists>u f'. busy (tasks (base f) u) \<and> drop_step allocate get whole store next_of u f f'"
proof -
  note sim = drop_run_simulated [OF assms(3,4)]
  note inv = conjunct1 [OF sim] and run = conjunct2 [OF sim]
  note D = drops_okD [OF inv]
  have same: "blocked (not_begun f) x = blocked (base f) x" for x by (cases x) simp_all
  obtain u where u: "busy (tasks (base f) u)" "\<not> blocked (base f) (tasks (base f) u)" and "ok (store_state (base f))"
    using run_progress [OF assms(1,2) run, of t] assms(5,6) same by auto
  have lt: "task_frame (tasks (base f) u) = Some (p, i) \<Longrightarrow> i < length (frames (pool (base f)))" for p i
    using holder_pinned [OF D(2)] by fastforce
  show ?thesis
  proof (cases "dropping f u")
    case None
    obtain s where "step allocate get whole store next_of u (base f) s"
      using unblocked_steps [OF assms(1) \<open>ok (store_state (base f))\<close> _ u] lt by blast
    then show ?thesis using drop_step.act [OF None] u(1) by blast
  next
    case (Some i)
    have "clock_ok (bpm_evictor (pool (base f)))" "clock_capacity (bpm_evictor (pool (base f))) = length (frames (pool (base f)))"
      using pool_exceptD(1,2) [OF pins_invD(1) [OF D(2), unfolded pool_ok_def]] by simp_all
    moreover have "i < length (frames (pool (base f)))"
      using pending_frame(1) [OF inv, of i] Some by (auto simp: pending_def)
    ultimately obtain ev where ev: "evictor_add (bpm_evictor (pool (base f))) i = Some ev"
      using evictor_add_ok [of "bpm_evictor (pool (base f))" i] by auto
    show ?thesis using drop_step.report [OF Some ev] u(1) by blast
  qed
qed

text \<open>What was said of one step of an operation holds of all of them.\<close>

lemma busy_run_way:
  assumes good and "ok d" and start: "drop_run allocate get whole store next_of (drop_initial (content d) n d) f"
    and calm: "\<not> raced f" and run: "busy_run allocate get whole store next_of f k f'" and "\<not> failed (base f')"
  shows "under_way (tasks (base f) t) (tasks (base f') t)"
  using run assms(6)
proof (induction rule: busy_run.induct)
  case none
  show ?case by (auto simp: under_way_def)
next
  case (more k f' u f'')
  have fine: "\<not> failed (base f')" using drop_step_failed [OF more.hyps(3)] more.prems by blast
  have fin: "finite {t. busy (tasks (base f) t)}" using drop_run_simulated [OF start calm] busy_finite by blast
  have "\<not> raced f'" using busy_run_bounded [OF more.hyps(1) fin] calm by simp
  note sim = drop_run_simulated [OF busy_run_drop_run [OF more.hyps(1) start] this]
  have "coherent ok content next_of (not_begun f')"
    using run_coherent [OF assms(1,2) conjunct2 [OF sim]] fine by simp
  from busy_step_way [OF conjunct1 [OF sim] this more.hyps(3,2) more.prems]
  show ?case using more.IH [OF fine] under_way_trans by blast
qed

lemma busy_run_completes:
  assumes good and "ok d" and start: "drop_run allocate get whole store next_of (drop_initial (content d) n d) f"
    and calm: "\<not> raced f" and run: "busy_run allocate get whole store next_of f k f'"
  shows "\<exists>k' f''. busy_run allocate get whole store next_of f (k + k') f'' \<and>
    (failed (base f'') \<or> (\<forall>t. \<not> busy (tasks (base f'') t)))"
  using run
proof (induction "total_left f'" arbitrary: k f' rule: less_induct)
  case less
  have fin: "finite {t. busy (tasks (base f) t)}" using drop_run_simulated [OF start calm] busy_finite by blast
  note bounded = busy_run_bounded [OF less.prems fin]
  show ?case
  proof (cases "failed (base f') \<or> (\<forall>t. \<not> busy (tasks (base f') t))")
    case True
    then show ?thesis using less.prems by (intro exI [of _ 0]) auto
  next
    case False
    then obtain t f'' where t: "busy (tasks (base f') t)" "drop_step allocate get whole store next_of t f' f''"
      using operation_can_step [OF assms(1,2) busy_run_drop_run [OF less.prems start]] bounded calm by blast
    have "total_left f'' < total_left f'" using total_decreases(1) [OF t(2,1)] bounded by blast
    from less.hyps [OF this busy_run.more [OF less.prems t]] show ?thesis by (metis add_Suc_shift)
  qed
qed

end



end
